(* ===== verification/Prelude.thy ===== *)
theory Prelude
  imports Main "HOL-Library.Word"
begin

text \<open>
  What every component of the development shares: the machine types of the target
  (riscv64), the outcome of a Rust call, and the generic facts on lists and words that the
  component proofs are carried by.

  The model follows the release profile, which the repository's Makefile builds by default:
  arithmetic on machine integers wraps, \<^verbatim>\<open>assert!\<close>, \<^verbatim>\<open>unwrap\<close>, \<^verbatim>\<open>panic!\<close> and an index
  out of range stop the kernel (\<^verbatim>\<open>panic = "abort"\<close>).
\<close>

unbundle bit_operations_syntax

section \<open>Machine types\<close>

type_synonym u8 = "8 word"
type_synonym u16 = "16 word"
type_synonym u32 = "32 word"
type_synonym u64 = "64 word"
type_synonym usize = "64 word"

text \<open>Signed integers are the same words, read by \<^const>\<open>sint\<close>.\<close>

type_synonym i8 = "8 word"
type_synonym i16 = "16 word"
type_synonym i32 = "32 word"
type_synonym i64 = "64 word"
type_synonym isize = "64 word"

section \<open>The outcome of a call\<close>

text \<open>
  \<open>Ok\<close> and \<open>Err\<close> are the two constructors of Rust's \<^verbatim>\<open>Result\<close>; \<open>Panic\<close> is a call that does
  not come back because an assertion, an \<^verbatim>\<open>unwrap\<close> or an index failed.
\<close>

datatype ('a, 'e) outcome = Ok 'a | Err 'e | Panic

fun obind :: "('a, 'e) outcome \<Rightarrow> ('a \<Rightarrow> ('b, 'e) outcome) \<Rightarrow> ('b, 'e) outcome" where
  "obind (Ok a) f = f a"
| "obind (Err e) f = Err e"
| "obind Panic f = Panic"

definition require :: "bool \<Rightarrow> (unit, 'e) outcome" where
  "require b = (if b then Ok () else Panic)"

fun of_option :: "'e \<Rightarrow> 'a option \<Rightarrow> ('a, 'e) outcome" where
  "of_option e None = Err e"
| "of_option e (Some a) = Ok a"

fun expect :: "'a option \<Rightarrow> ('a, 'e) outcome" where
  "expect None = Panic"
| "expect (Some a) = Ok a"

lemma require_simps [simp]:
  "require True = Ok ()" "require False = Panic"
  by (simp_all add: require_def)

lemma require_eq_Ok [simp]: "require b = Ok u \<longleftrightarrow> b"
  by (simp add: require_def)

lemma require_eq_Err [simp]: "require b \<noteq> Err e"
  by (simp add: require_def)

lemma require_eq_Panic [simp]: "require b = Panic \<longleftrightarrow> \<not> b"
  by (simp add: require_def)

lemma obind_eq_Ok [simp]: "obind m f = Ok b \<longleftrightarrow> (\<exists>a. m = Ok a \<and> f a = Ok b)"
  by (cases m) auto

lemma obind_eq_Err: "obind m f = Err e \<longleftrightarrow> m = Err e \<or> (\<exists>a. m = Ok a \<and> f a = Err e)"
  by (cases m) auto

lemma obind_eq_Panic: "obind m f = Panic \<longleftrightarrow> m = Panic \<or> (\<exists>a. m = Ok a \<and> f a = Panic)"
  by (cases m) auto

lemma obind_assoc: "obind (obind m f) g = obind m (\<lambda>a. obind (f a) g)"
  by (cases m) auto

lemma obind_Ok_right [simp]: "obind m Ok = m"
  by (cases m) auto

lemma obind_cong [fundef_cong]:
  "m = m' \<Longrightarrow> (\<And>a. m' = Ok a \<Longrightarrow> f a = f' a) \<Longrightarrow> obind m f = obind m' f'"
  by (cases m') auto

lemma of_option_eq_Ok [simp]: "of_option e x = Ok a \<longleftrightarrow> x = Some a"
  by (cases x) auto

lemma of_option_not_Panic [simp]: "of_option e x \<noteq> Panic"
  by (cases x) simp_all

lemma expect_eq_Ok [simp]: "expect x = Ok a \<longleftrightarrow> x = Some a"
  by (cases x) auto

section \<open>Checked machine arithmetic\<close>

definition checked_add :: "'n::len word \<Rightarrow> 'n word \<Rightarrow> 'n word option" where
  "checked_add a b = (if unat a + unat b < 2 ^ LENGTH('n) then Some (a + b) else None)"

definition checked_sub :: "'n::len word \<Rightarrow> 'n word \<Rightarrow> 'n word option" where
  "checked_sub a b = (if unat b \<le> unat a then Some (a - b) else None)"

definition checked_mul :: "'n::len word \<Rightarrow> 'n word \<Rightarrow> 'n word option" where
  "checked_mul a b = (if unat a * unat b < 2 ^ LENGTH('n) then Some (a * b) else None)"

lemma checked_add_SomeD: "checked_add a b = Some c \<Longrightarrow> unat c = unat a + unat b"
  by (auto simp: checked_add_def unat_word_ariths split: if_splits)

lemma checked_sub_SomeD: "checked_sub a b = Some c \<Longrightarrow> unat c = unat a - unat b"
  by (auto simp: checked_sub_def unat_sub word_le_nat_alt split: if_splits)

lemma checked_mul_SomeD: "checked_mul a b = Some c \<Longrightarrow> unat c = unat a * unat b"
  by (auto simp: checked_mul_def unat_word_ariths split: if_splits)

section \<open>Widening and narrowing of words\<close>

lemma unat_ucast_fits:
  "unat (r :: 'm::len word) < 2 ^ LENGTH('n::len) \<Longrightarrow> unat (ucast r :: 'n word) = unat r"
  by (simp add: unsigned_ucast_eq take_bit_nat_eq_self)

lemma ucast_ucast_fits:
  "unat (r :: 'm::len word) < 2 ^ LENGTH('n::len) \<Longrightarrow> (ucast (ucast r :: 'n word) :: 'm word) = r"
  by (metis unat_ucast_fits of_nat_unat ucast_id)

lemma sint_scast_fits:
  "- (2 ^ (LENGTH('n::len) - 1)) \<le> sint (r :: 'm::len word) \<Longrightarrow> sint r < 2 ^ (LENGTH('n) - 1)
    \<Longrightarrow> sint (scast r :: 'n word) = sint r"
  by (simp add: signed_scast_eq signed_take_bit_int_eq_self)

lemma scast_scast_fits:
  "- (2 ^ (LENGTH('n::len) - 1)) \<le> sint (r :: 'm::len word) \<Longrightarrow> sint r < 2 ^ (LENGTH('n) - 1)
    \<Longrightarrow> (scast (scast r :: 'n word) :: 'm word) = r"
  by (metis sint_scast_fits scast_eq scast_id)

lemma unat_ucast_up:
  "LENGTH('n::len) \<le> LENGTH('m::len) \<Longrightarrow> unat (ucast (v :: 'n word) :: 'm word) = unat v"
  by (metis is_up unat_eq_nat_uint uint_up_ucast)

lemma ucast_ucast_up:
  "LENGTH('n::len) \<le> LENGTH('m::len) \<Longrightarrow> (ucast (ucast (v :: 'n word) :: 'm word) :: 'n word) = v"
  by (simp add: ucast_up_ucast_id is_up)

lemma sint_scast_up:
  "LENGTH('n::len) \<le> LENGTH('m::len) \<Longrightarrow> sint (scast (v :: 'n word) :: 'm word) = sint v"
  by (simp add: sint_up_scast is_up)

lemma scast_scast_up:
  "LENGTH('n::len) \<le> LENGTH('m::len) \<Longrightarrow> (scast (scast (v :: 'n word) :: 'm word) :: 'n word) = v"
  by (simp add: scast_up_scast_id is_up)

lemma unat_lt_width: "unat (w :: 'n::len word) < 2 ^ LENGTH('n)"
  by (rule unsigned_less)

lemma unat_of_nat_small: "n < 2 ^ LENGTH('n) \<Longrightarrow> unat (of_nat n :: 'n::len word) = n"
  by (simp add: unsigned_of_nat take_bit_nat_eq_self)

lemma unat_add_small:
  "unat (a :: 'n::len word) + unat b < 2 ^ LENGTH('n) \<Longrightarrow> unat (a + b) = unat a + unat b"
  by (simp only: unat_word_ariths(1) mod_less)

lemma unat_power_two: "n < LENGTH('n) \<Longrightarrow> unat (2 ^ n :: 'n::len word) = 2 ^ n"
  using unat_of_nat_small [of "2 ^ n", where 'n = 'n] by simp

lemma unat_zero_iff: "unat (w :: 'n::len word) = 0 \<longleftrightarrow> w = 0"
  by (metis unat_0 word_unat_eq_iff)

section \<open>Calls that change a state\<close>

text \<open>
  A call on a state returns the state also when it fails: what it changed before an early return stays.
\<close>

type_synonym ('s, 'a, 'e) call = "'s \<Rightarrow> ('a, 'e) outcome \<times> 's"

definition creturn :: "'a \<Rightarrow> ('s, 'a, 'e) call" where
  "creturn a s = (Ok a, s)"

definition cbind :: "('s, 'a, 'e) call \<Rightarrow> ('a \<Rightarrow> ('s, 'b, 'e) call) \<Rightarrow> ('s, 'b, 'e) call" where
  "cbind m f s = (case m s of (Ok a, s) \<Rightarrow> f a s | (Err e, s) \<Rightarrow> (Err e, s) | (Panic, s) \<Rightarrow> (Panic, s))"

definition clift :: "('a, 'e) outcome \<Rightarrow> ('s, 'a, 'e) call" where
  "clift r s = (r, s)"

definition cread :: "('s \<Rightarrow> 'a) \<Rightarrow> ('s, 'a, 'e) call" where
  "cread f s = (Ok (f s), s)"

definition cmodify :: "('s \<Rightarrow> 's) \<Rightarrow> ('s, unit, 'e) call" where
  "cmodify f s = (Ok (), f s)"

text \<open>A call that gives its new state only when it succeeds, and leaves the state alone otherwise.\<close>

definition clift_state :: "('s \<Rightarrow> ('a \<times> 's, 'e) outcome) \<Rightarrow> ('s, 'a, 'e) call" where
  "clift_state f s = (case f s of Ok (a, s) \<Rightarrow> (Ok a, s) | Err e \<Rightarrow> (Err e, s) | Panic \<Rightarrow> (Panic, s))"

text \<open>\<^verbatim>\<open>unwrap\<close> of the result of a call.\<close>

definition cunwrap :: "('s, 'a, 'e) call \<Rightarrow> ('s, 'a, 'f) call" where
  "cunwrap m s = (case m s of (Ok a, s) \<Rightarrow> (Ok a, s) | (_, s) \<Rightarrow> (Panic, s))"

primrec cforeach :: "('a \<Rightarrow> ('s, unit, 'e) call) \<Rightarrow> 'a list \<Rightarrow> ('s, unit, 'e) call" where
  "cforeach f [] = creturn ()"
| "cforeach f (x # xs) = cbind (f x) (\<lambda>_. cforeach f xs)"

lemma call_simps [simp]:
  "creturn a s = (Ok a, s)" "clift r s = (r, s)" "cread f s = (Ok (f s), s)" "cmodify g s = (Ok (), g s)"
  by (simp_all add: creturn_def clift_def cread_def cmodify_def)

lemma cbind_simps:
  "m s = (Ok a, s') \<Longrightarrow> cbind m f s = f a s'"
  "m s = (Err e, s') \<Longrightarrow> cbind m f s = (Err e, s')"
  "m s = (Panic, s') \<Longrightarrow> cbind m f s = (Panic, s')"
  by (simp_all add: cbind_def)

lemma cbind_eq_Ok:
  "cbind m f s = (Ok b, s'') \<longleftrightarrow> (\<exists>a s'. m s = (Ok a, s') \<and> f a s' = (Ok b, s''))"
  by (auto simp: cbind_def split: prod.splits outcome.splits)

lemma cbind_cong [fundef_cong]:
  "m s = m' s' \<Longrightarrow> (\<And>a t. m' s' = (Ok a, t) \<Longrightarrow> f a t = f' a t) \<Longrightarrow> cbind m f s = cbind m' f' s'"
  by (auto simp: cbind_def split: prod.splits outcome.splits)

section \<open>Total correctness of calls\<close>

text \<open>
  The weakest precondition of a call: it returns \<open>Ok\<close> and the postcondition holds of the value and the new state.
\<close>

definition cwp :: "('s, 'a, 'e) call \<Rightarrow> ('a \<Rightarrow> 's \<Rightarrow> bool) \<Rightarrow> 's \<Rightarrow> bool" where
  "cwp m Q s \<longleftrightarrow> (\<exists>a s'. m s = (Ok a, s') \<and> Q a s')"

lemma cwp_bind [simp]: "cwp (cbind m f) Q s \<longleftrightarrow> cwp m (\<lambda>a. cwp (f a) Q) s"
  by (auto simp: cwp_def cbind_eq_Ok)

lemma cwp_simps [simp]:
  "cwp (creturn a) Q s \<longleftrightarrow> Q a s" "cwp (cread f) Q s \<longleftrightarrow> Q (f s) s" "cwp (clift (Ok a)) Q s \<longleftrightarrow> Q a s"
  "\<not> cwp (clift (Err e)) Q s" "\<not> cwp (clift Panic) Q s" "cwp (clift (expect x)) Q s \<longleftrightarrow> (\<exists>a. x = Some a \<and> Q a s)"
  by (auto simp: cwp_def)

lemma cwp_unit_simps [simp]:
  "cwp (cmodify g) Q s \<longleftrightarrow> Q () (g s)" "cwp (clift (require b)) Q s \<longleftrightarrow> b \<and> Q () s"
  by (auto simp: cwp_def)

lemma cwp_lift: "r = Ok a \<Longrightarrow> Q a s \<Longrightarrow> cwp (clift r) Q s"
  by simp

lemma cwp_mono: "cwp m Q s \<Longrightarrow> (\<And>a s'. Q a s' \<Longrightarrow> R a s') \<Longrightarrow> cwp m R s"
  by (auto simp: cwp_def)

lemma cwp_eqI: "m s = (Ok a, s') \<Longrightarrow> Q a s' \<Longrightarrow> cwp m Q s"
  by (auto simp: cwp_def)

lemma cwp_obtain:
  assumes "cwp m Q s"
  obtains a s' where "m s = (Ok a, s')" "Q a s'"
  using assms by (auto simp: cwp_def)

end
