(* ===== verification/Sys_Register.thy ===== *)
theory Sys_Register
  imports Prelude
begin

text \<open>
  The register encoding of system call arguments and results: \<^verbatim>\<open>ov6_syscall/src/register.rs\<close>
  with the types of \<^verbatim>\<open>ov6_syscall/src/lib.rs\<close>, \<^verbatim>\<open>error.rs\<close> and \<^verbatim>\<open>ov6_types\<close>.
  A \<^verbatim>\<open>Register<T, N>\<close> is an array of \<^verbatim>\<open>N\<close> words: the unit value, one word, or a tuple of words.
  Each \<^verbatim>\<open>impl RegisterValue\<close> is a pair of functions; the trait's contract is the locale
  \<open>register_value\<close>, which is interpreted on every pair.
\<close>

section \<open>Types\<close>

datatype syscall_error =
    SE_NotPermitted | SE_FsEntryNotFound | SE_ProcessNotFound | SE_Io | SE_DeviceNotFound
  | SE_ArgumentListTooLong | SE_ExecFormat | SE_BadFileDescriptor | SE_NoChildProcess
  | SE_ResourceTempolaryUnavailable | SE_OutOfMemory | SE_PermissionDenied | SE_BadAddress
  | SE_ResourceBusy | SE_AlreadyExists | SE_CrossesDevices | SE_NoSuchDevice | SE_NotADirectory
  | SE_IsADirectory | SE_InvalidInput | SE_TooManyOpenFilesSystem | SE_TooManyOpenFiles
  | SE_ExecutableFileBusy | SE_FileTooLarge | SE_StorageFull | SE_NotSeekable
  | SE_ReadOnlyFilesystem | SE_TooManyLinks | SE_BrokenPipe | SE_InvalidFilename
  | SE_DirectoryNotEmpty | SE_MessageTooLong | SE_AddrInUse | SE_Unknown

text \<open>The discriminants of the \<^verbatim>\<open>repr(isize)\<close> enumeration.\<close>

primrec syscall_error_repr :: "syscall_error \<Rightarrow> isize" where
  "syscall_error_repr SE_NotPermitted = 1"
| "syscall_error_repr SE_FsEntryNotFound = 2"
| "syscall_error_repr SE_ProcessNotFound = 3"
| "syscall_error_repr SE_Io = 5"
| "syscall_error_repr SE_DeviceNotFound = 6"
| "syscall_error_repr SE_ArgumentListTooLong = 7"
| "syscall_error_repr SE_ExecFormat = 8"
| "syscall_error_repr SE_BadFileDescriptor = 9"
| "syscall_error_repr SE_NoChildProcess = 10"
| "syscall_error_repr SE_ResourceTempolaryUnavailable = 11"
| "syscall_error_repr SE_OutOfMemory = 12"
| "syscall_error_repr SE_PermissionDenied = 13"
| "syscall_error_repr SE_BadAddress = 14"
| "syscall_error_repr SE_ResourceBusy = 16"
| "syscall_error_repr SE_AlreadyExists = 17"
| "syscall_error_repr SE_CrossesDevices = 18"
| "syscall_error_repr SE_NoSuchDevice = 19"
| "syscall_error_repr SE_NotADirectory = 20"
| "syscall_error_repr SE_IsADirectory = 21"
| "syscall_error_repr SE_InvalidInput = 22"
| "syscall_error_repr SE_TooManyOpenFilesSystem = 23"
| "syscall_error_repr SE_TooManyOpenFiles = 24"
| "syscall_error_repr SE_ExecutableFileBusy = 26"
| "syscall_error_repr SE_FileTooLarge = 27"
| "syscall_error_repr SE_StorageFull = 28"
| "syscall_error_repr SE_NotSeekable = 29"
| "syscall_error_repr SE_ReadOnlyFilesystem = 30"
| "syscall_error_repr SE_TooManyLinks = 31"
| "syscall_error_repr SE_BrokenPipe = 32"
| "syscall_error_repr SE_InvalidFilename = 36"
| "syscall_error_repr SE_DirectoryNotEmpty = 39"
| "syscall_error_repr SE_MessageTooLong = 90"
| "syscall_error_repr SE_AddrInUse = 98"
| "syscall_error_repr SE_Unknown = -1"

datatype syscall_code =
    SC_Fork | SC_Exit | SC_Wait | SC_Pipe | SC_Read | SC_Kill | SC_Exec | SC_Fstat | SC_Chdir
  | SC_Dup | SC_Sbrk | SC_Sleep | SC_Open | SC_Write | SC_Mknod | SC_Unlink | SC_Link | SC_Mkdir
  | SC_Close | SC_AlarmSet | SC_AlarmClear | SC_SignalReturn | SC_Bind | SC_Unbind | SC_Recv
  | SC_Send | SC_GetSystemInfo | SC_Reboot | SC_Halt | SC_Abort | SC_Trace
  | SC_DumpKernelPageTable | SC_DumpUserPageTable

primrec syscall_code_repr :: "syscall_code \<Rightarrow> usize" where
  "syscall_code_repr SC_Fork = 1"
| "syscall_code_repr SC_Exit = 2"
| "syscall_code_repr SC_Wait = 3"
| "syscall_code_repr SC_Pipe = 4"
| "syscall_code_repr SC_Read = 5"
| "syscall_code_repr SC_Kill = 6"
| "syscall_code_repr SC_Exec = 7"
| "syscall_code_repr SC_Fstat = 8"
| "syscall_code_repr SC_Chdir = 9"
| "syscall_code_repr SC_Dup = 10"
| "syscall_code_repr SC_Sbrk = 11"
| "syscall_code_repr SC_Sleep = 12"
| "syscall_code_repr SC_Open = 13"
| "syscall_code_repr SC_Write = 14"
| "syscall_code_repr SC_Mknod = 15"
| "syscall_code_repr SC_Unlink = 16"
| "syscall_code_repr SC_Link = 17"
| "syscall_code_repr SC_Mkdir = 18"
| "syscall_code_repr SC_Close = 19"
| "syscall_code_repr SC_AlarmSet = 20"
| "syscall_code_repr SC_AlarmClear = 21"
| "syscall_code_repr SC_SignalReturn = 22"
| "syscall_code_repr SC_Bind = 23"
| "syscall_code_repr SC_Unbind = 24"
| "syscall_code_repr SC_Recv = 25"
| "syscall_code_repr SC_Send = 26"
| "syscall_code_repr SC_GetSystemInfo = 27"
| "syscall_code_repr SC_Reboot = 28"
| "syscall_code_repr SC_Halt = 29"
| "syscall_code_repr SC_Abort = 30"
| "syscall_code_repr SC_Trace = 31"
| "syscall_code_repr SC_DumpKernelPageTable = 32"
| "syscall_code_repr SC_DumpUserPageTable = 33"

datatype register_decode_error =
    IntConversion
  | InvalidSyscallErrorNo isize
  | InvalidOpenFlags usize
  | InvalidDesignator usize
  | UnexpectedZero

text \<open>\<^verbatim>\<open>ProcId\<close> is a \<^verbatim>\<open>NonZero<u32>\<close>: a word that is not zero, which \<open>valid_proc_id\<close> states.\<close>

type_synonym proc_id = u32
type_synonym raw_fd = usize

datatype wait_target = AnyProcess | Process proc_id

record user_ref =
  ref_addr :: usize

record user_mut_ref =
  mut_ref_addr :: usize

record user_slice =
  slice_addr :: usize
  slice_len :: usize

record user_mut_slice =
  mut_slice_addr :: usize
  mut_slice_len :: usize

text \<open>\<^verbatim>\<open>core::net::SocketAddrV4\<close> and \<^verbatim>\<open>core::time::Duration\<close> of the standard library.\<close>

record socket_addr_v4 =
  sa_ip :: u32
  sa_port :: u16

record duration =
  dur_secs :: u64
  dur_nanos :: u32

definition nanos_per_sec :: u32 where
  "nanos_per_sec = 1000000000"

text \<open>
  \<^verbatim>\<open>Duration::new\<close> carries whole seconds out of the nanoseconds and panics when the seconds
  overflow.
\<close>

definition duration_new :: "u64 \<Rightarrow> u32 \<Rightarrow> (duration, 'e) outcome" where
  "duration_new secs nanos =
     (if nanos < nanos_per_sec then Ok \<lparr>dur_secs = secs, dur_nanos = nanos\<rparr>
      else case checked_add secs (ucast (nanos div nanos_per_sec)) of
             None \<Rightarrow> Panic
           | Some s \<Rightarrow> Ok \<lparr>dur_secs = s, dur_nanos = nanos mod nanos_per_sec\<rparr>)"

text \<open>\<^verbatim>\<open>core::convert::Infallible\<close> has no value; \<open>valid_infallible\<close> says so.\<close>

typedecl infallible

type_synonym ('a, 'e) result = "'e + 'a"

text \<open>
  Functions that the \<^verbatim>\<open>strum\<close> and \<^verbatim>\<open>bitflags\<close> crates generate. They are parameters of the
  model; \<open>crates_ok\<close> states their documented behaviour: \<^verbatim>\<open>from_repr\<close> finds the variant with the
  given discriminant, \<^verbatim>\<open>from_bits\<close> refuses a value with a bit of no declared flag.
\<close>

record crate_fns =
  syscall_error_from_repr :: "isize \<Rightarrow> syscall_error option"
  syscall_code_from_repr :: "usize \<Rightarrow> syscall_code option"
  open_flags_from_bits :: "usize \<Rightarrow> usize option"

definition OF_READ_ONLY :: usize where "OF_READ_ONLY = 0x000"
definition OF_WRITE_ONLY :: usize where "OF_WRITE_ONLY = 0x001"
definition OF_READ_WRITE :: usize where "OF_READ_WRITE = 0x002"
definition OF_CREATE :: usize where "OF_CREATE = 0x200"
definition OF_TRUNC :: usize where "OF_TRUNC = 0x400"

definition open_flags_all :: usize where
  "open_flags_all = OF_READ_ONLY OR OF_WRITE_ONLY OR OF_READ_WRITE OR OF_CREATE OR OF_TRUNC"

definition crates_ok :: "crate_fns \<Rightarrow> bool" where
  "crates_ok X \<longleftrightarrow>
     (\<forall>n e. syscall_error_from_repr X n = Some e \<longleftrightarrow> syscall_error_repr e = n) \<and>
     (\<forall>n c. syscall_code_from_repr X n = Some c \<longleftrightarrow> syscall_code_repr c = n) \<and>
     (\<forall>b. open_flags_from_bits X b = (if b AND NOT open_flags_all = 0 then Some b else None))"

section \<open>Encoding and decoding of single values\<close>

definition encode_unit :: "unit \<Rightarrow> unit" where
  "encode_unit v = ()"

definition decode_unit :: "unit \<Rightarrow> (unit, register_decode_error) outcome" where
  "decode_unit r = Ok ()"

definition encode_infallible :: "infallible \<Rightarrow> unit" where
  "encode_infallible v = ()"

definition decode_infallible :: "unit \<Rightarrow> (infallible, register_decode_error) outcome" where
  "decode_infallible r = Panic"

definition encode_usize :: "usize \<Rightarrow> usize" where
  "encode_usize v = v"

definition decode_usize :: "usize \<Rightarrow> (usize, register_decode_error) outcome" where
  "decode_usize r = Ok r"

definition encode_isize :: "isize \<Rightarrow> usize" where
  "encode_isize v = v"

definition decode_isize :: "usize \<Rightarrow> (isize, register_decode_error) outcome" where
  "decode_isize r = Ok r"

definition encode_u64 :: "u64 \<Rightarrow> usize" where
  "encode_u64 v = encode_usize v"

definition decode_u64 :: "usize \<Rightarrow> (u64, register_decode_error) outcome" where
  "decode_u64 r = Ok r"

definition encode_i64 :: "i64 \<Rightarrow> usize" where
  "encode_i64 v = encode_usize v"

definition decode_i64 :: "usize \<Rightarrow> (i64, register_decode_error) outcome" where
  "decode_i64 r = Ok r"

text \<open>
  \<^verbatim>\<open>impl_number!\<close>: unsigned numbers widen to \<^verbatim>\<open>usize\<close>, signed ones to \<^verbatim>\<open>isize\<close>; decoding is
  \<^verbatim>\<open>try_into\<close>, an error when the value does not fit.
\<close>

definition try_from_unsigned :: "usize \<Rightarrow> ('n::len word, register_decode_error) outcome" where
  "try_from_unsigned n = (if unat n < 2 ^ LENGTH('n) then Ok (ucast n) else Err IntConversion)"

definition try_from_signed :: "isize \<Rightarrow> ('n::len word, register_decode_error) outcome" where
  "try_from_signed n =
     (if - (2 ^ (LENGTH('n) - 1)) \<le> sint n \<and> sint n < 2 ^ (LENGTH('n) - 1)
      then Ok (scast n) else Err IntConversion)"

definition encode_unsigned :: "'n::len word \<Rightarrow> usize" where
  "encode_unsigned v = encode_usize (ucast v)"

definition decode_unsigned :: "usize \<Rightarrow> ('n::len word, register_decode_error) outcome" where
  "decode_unsigned r = obind (decode_usize r) try_from_unsigned"

definition encode_signed :: "'n::len word \<Rightarrow> usize" where
  "encode_signed v = encode_isize (scast v)"

definition decode_signed :: "usize \<Rightarrow> ('n::len word, register_decode_error) outcome" where
  "decode_signed r = obind (decode_isize r) try_from_signed"

text \<open>\<^verbatim>\<open>impl_nonzero!\<close>: zero stands for \<^verbatim>\<open>None\<close>. The number's own codec is an argument.\<close>

definition encode_nonzero :: "('n::len word \<Rightarrow> usize) \<Rightarrow> 'n word option \<Rightarrow> usize" where
  "encode_nonzero enc v = enc (case v of None \<Rightarrow> 0 | Some n \<Rightarrow> n)"

definition decode_nonzero ::
  "(usize \<Rightarrow> ('n::len word, register_decode_error) outcome) \<Rightarrow> usize \<Rightarrow>
     ('n word option, register_decode_error) outcome" where
  "decode_nonzero dec r = obind (dec r) (\<lambda>n. Ok (if n = 0 then None else Some n))"

definition encode_syscall_error :: "syscall_error \<Rightarrow> usize" where
  "encode_syscall_error e = encode_isize (syscall_error_repr e)"

definition decode_syscall_error ::
  "crate_fns \<Rightarrow> usize \<Rightarrow> (syscall_error, register_decode_error) outcome" where
  "decode_syscall_error X r =
     obind (decode_isize r) (\<lambda>n. of_option (InvalidSyscallErrorNo n) (syscall_error_from_repr X n))"

definition encode_option_proc_id :: "proc_id option \<Rightarrow> usize" where
  "encode_option_proc_id v = encode_nonzero encode_unsigned v"

definition decode_option_proc_id ::
  "usize \<Rightarrow> (proc_id option, register_decode_error) outcome" where
  "decode_option_proc_id r = decode_nonzero decode_unsigned r"

definition encode_proc_id :: "proc_id \<Rightarrow> usize" where
  "encode_proc_id v = encode_option_proc_id (Some v)"

definition decode_proc_id :: "usize \<Rightarrow> (proc_id, register_decode_error) outcome" where
  "decode_proc_id r = obind (decode_option_proc_id r) (of_option UnexpectedZero)"

fun encode_wait_target :: "wait_target \<Rightarrow> usize \<times> usize" where
  "encode_wait_target AnyProcess = (0, 0)"
| "encode_wait_target (Process pid) = (1, encode_proc_id pid)"

fun decode_wait_target ::
  "usize \<times> usize \<Rightarrow> (wait_target, register_decode_error) outcome" where
  "decode_wait_target (a0, a1) =
     (if a0 = 0 \<and> a1 = 0 then Ok AnyProcess
      else if a0 = 1 then obind (decode_proc_id a1) (\<lambda>v1. Ok (Process v1))
      else Err (InvalidDesignator a0))"

definition encode_raw_fd :: "raw_fd \<Rightarrow> usize" where
  "encode_raw_fd v = encode_usize v"

definition decode_raw_fd :: "usize \<Rightarrow> (raw_fd, register_decode_error) outcome" where
  "decode_raw_fd r = decode_usize r"

definition encode_open_flags :: "usize \<Rightarrow> usize" where
  "encode_open_flags bits = encode_usize bits"

definition decode_open_flags ::
  "crate_fns \<Rightarrow> usize \<Rightarrow> (usize, register_decode_error) outcome" where
  "decode_open_flags X r =
     obind (decode_usize r) (\<lambda>bits. of_option (InvalidOpenFlags bits) (open_flags_from_bits X bits))"

definition encode_ipv4_addr :: "u32 \<Rightarrow> usize" where
  "encode_ipv4_addr v = encode_unsigned v"

definition decode_ipv4_addr :: "usize \<Rightarrow> (u32, register_decode_error) outcome" where
  "decode_ipv4_addr r = decode_unsigned r"

definition encode_socket_addr_v4 :: "socket_addr_v4 \<Rightarrow> usize" where
  "encode_socket_addr_v4 v =
     (let hi = ucast (sa_ip v) :: u64;
          lo = ucast (ucast (sa_port v) :: u32) :: u64
      in encode_u64 (push_bit 32 hi OR lo))"

definition decode_socket_addr_v4 ::
  "usize \<Rightarrow> (socket_addr_v4, register_decode_error) outcome" where
  "decode_socket_addr_v4 r =
     obind (decode_u64 r) (\<lambda>v.
     obind (case try_from_unsigned (drop_bit 32 v) of Ok hi \<Rightarrow> Ok hi | _ \<Rightarrow> Panic) (\<lambda>hi.
     let lo = v AND 0xffffffff in
     obind (try_from_unsigned lo) (\<lambda>port. Ok \<lparr>sa_ip = hi, sa_port = port\<rparr>)))"

definition encode_user_ref :: "user_ref \<Rightarrow> usize" where
  "encode_user_ref v = encode_usize (ref_addr v)"

definition decode_user_ref :: "usize \<Rightarrow> (user_ref, register_decode_error) outcome" where
  "decode_user_ref r = obind (decode_usize r) (\<lambda>addr. Ok \<lparr>ref_addr = addr\<rparr>)"

definition encode_duration :: "duration \<Rightarrow> usize \<times> usize" where
  "encode_duration v = (encode_u64 (dur_secs v), encode_unsigned (dur_nanos v))"

fun decode_duration :: "usize \<times> usize \<Rightarrow> (duration, register_decode_error) outcome" where
  "decode_duration (a0, a1) =
     obind (decode_u64 a0) (\<lambda>secs.
     obind (decode_unsigned a1) (\<lambda>subsec_nanos. duration_new secs subsec_nanos))"

definition encode_user_mut_ref :: "user_mut_ref \<Rightarrow> usize" where
  "encode_user_mut_ref v = encode_usize (mut_ref_addr v)"

definition decode_user_mut_ref :: "usize \<Rightarrow> (user_mut_ref, register_decode_error) outcome" where
  "decode_user_mut_ref r = obind (decode_usize r) (\<lambda>addr. Ok \<lparr>mut_ref_addr = addr\<rparr>)"

definition encode_user_slice :: "user_slice \<Rightarrow> usize \<times> usize" where
  "encode_user_slice v = (encode_usize (slice_addr v), encode_usize (slice_len v))"

fun decode_user_slice :: "usize \<times> usize \<Rightarrow> (user_slice, register_decode_error) outcome" where
  "decode_user_slice (a0, a1) =
     obind (decode_usize a0) (\<lambda>addr.
     obind (decode_usize a1) (\<lambda>len. Ok \<lparr>slice_addr = addr, slice_len = len\<rparr>))"

definition encode_user_mut_slice :: "user_mut_slice \<Rightarrow> usize \<times> usize" where
  "encode_user_mut_slice v = (encode_usize (mut_slice_addr v), encode_usize (mut_slice_len v))"

fun decode_user_mut_slice ::
  "usize \<times> usize \<Rightarrow> (user_mut_slice, register_decode_error) outcome" where
  "decode_user_mut_slice (a0, a1) =
     obind (decode_usize a0) (\<lambda>addr.
     obind (decode_usize a1) (\<lambda>len. Ok \<lparr>mut_slice_addr = addr, mut_slice_len = len\<rparr>))"

section \<open>Results and tuples\<close>

text \<open>
  The generic functions of the source take the codecs of the component types as trait bounds;
  here they are arguments.
\<close>

definition usize_MAX :: usize where
  "usize_MAX = - 1"

fun result_encode_01 ::
  "('t \<Rightarrow> unit) \<Rightarrow> ('e \<Rightarrow> usize) \<Rightarrow> ('t, 'e) result \<Rightarrow> usize \<times> usize" where
  "result_encode_01 encT encE (Inr v1) = (let a = encT v1 in (0, 0))"
| "result_encode_01 encT encE (Inl v1) = (usize_MAX, encE v1)"

fun result_decode_01 ::
  "(unit \<Rightarrow> ('t, register_decode_error) outcome) \<Rightarrow> (usize \<Rightarrow> ('e, register_decode_error) outcome) \<Rightarrow>
     usize \<times> usize \<Rightarrow> (('t, 'e) result, register_decode_error) outcome" where
  "result_decode_01 decT decE (a0, a1) =
     (if a0 = 0 then obind (decT ()) (\<lambda>v1. Ok (Inr v1))
      else if a0 = usize_MAX then obind (decE a1) (\<lambda>v1. Ok (Inl v1))
      else Err (InvalidDesignator a0))"

fun result_encode_11 ::
  "('t \<Rightarrow> usize) \<Rightarrow> ('e \<Rightarrow> usize) \<Rightarrow> ('t, 'e) result \<Rightarrow> usize \<times> usize" where
  "result_encode_11 encT encE (Inr v1) = (0, encT v1)"
| "result_encode_11 encT encE (Inl v1) = (usize_MAX, encE v1)"

fun result_decode_11 ::
  "(usize \<Rightarrow> ('t, register_decode_error) outcome) \<Rightarrow> (usize \<Rightarrow> ('e, register_decode_error) outcome) \<Rightarrow>
     usize \<times> usize \<Rightarrow> (('t, 'e) result, register_decode_error) outcome" where
  "result_decode_11 decT decE (a0, a1) =
     (if a0 = 0 then obind (decT a1) (\<lambda>v1. Ok (Inr v1))
      else if a0 = usize_MAX then obind (decE a1) (\<lambda>v1. Ok (Inl v1))
      else Err (InvalidDesignator a0))"

definition tuple1_encode :: "('t \<Rightarrow> 'r) \<Rightarrow> 't \<Rightarrow> 'r" where
  "tuple1_encode encT v0 = encT v0"

definition tuple1_decode :: "('r \<Rightarrow> ('t, 'x) outcome) \<Rightarrow> 'r \<Rightarrow> ('t, 'x) outcome" where
  "tuple1_decode decT r = obind (decT r) (\<lambda>v0. Ok v0)"

fun tuple_encode_11 ::
  "('t \<Rightarrow> usize) \<Rightarrow> ('u \<Rightarrow> usize) \<Rightarrow> 't \<times> 'u \<Rightarrow> usize \<times> usize" where
  "tuple_encode_11 encT encU (v0, v1) = (encT v0, encU v1)"

fun tuple_decode_11 ::
  "(usize \<Rightarrow> ('t, 'x) outcome) \<Rightarrow> (usize \<Rightarrow> ('u, 'x) outcome) \<Rightarrow>
     usize \<times> usize \<Rightarrow> ('t \<times> 'u, 'x) outcome" where
  "tuple_decode_11 decT decU (a0, a1) =
     obind (decT a0) (\<lambda>v0. obind (decU a1) (\<lambda>v1. Ok (v0, v1)))"

fun tuple_encode_12 ::
  "('t \<Rightarrow> usize) \<Rightarrow> ('u \<Rightarrow> usize \<times> usize) \<Rightarrow> 't \<times> 'u \<Rightarrow> usize \<times> usize \<times> usize" where
  "tuple_encode_12 encT encU (v0, v1) = (case encU v1 of (a1, a2) \<Rightarrow> (encT v0, a1, a2))"

fun tuple_decode_12 ::
  "(usize \<Rightarrow> ('t, 'x) outcome) \<Rightarrow> (usize \<times> usize \<Rightarrow> ('u, 'x) outcome) \<Rightarrow>
     usize \<times> usize \<times> usize \<Rightarrow> ('t \<times> 'u, 'x) outcome" where
  "tuple_decode_12 decT decU (a0, a1, a2) =
     obind (decT a0) (\<lambda>v0. obind (decU (a1, a2)) (\<lambda>v1. Ok (v0, v1)))"

fun tuple_encode_21 ::
  "('t \<Rightarrow> usize \<times> usize) \<Rightarrow> ('u \<Rightarrow> usize) \<Rightarrow> 't \<times> 'u \<Rightarrow> usize \<times> usize \<times> usize" where
  "tuple_encode_21 encT encU (v0, v1) = (case encT v0 of (a0, a1) \<Rightarrow> (a0, a1, encU v1))"

fun tuple_decode_21 ::
  "(usize \<times> usize \<Rightarrow> ('t, 'x) outcome) \<Rightarrow> (usize \<Rightarrow> ('u, 'x) outcome) \<Rightarrow>
     usize \<times> usize \<times> usize \<Rightarrow> ('t \<times> 'u, 'x) outcome" where
  "tuple_decode_21 decT decU (a0, a1, a2) =
     obind (decT (a0, a1)) (\<lambda>v0. obind (decU a2) (\<lambda>v1. Ok (v0, v1)))"

fun tuple_encode_22 ::
  "('t \<Rightarrow> usize \<times> usize) \<Rightarrow> ('u \<Rightarrow> usize \<times> usize) \<Rightarrow> 't \<times> 'u \<Rightarrow>
     usize \<times> usize \<times> usize \<times> usize" where
  "tuple_encode_22 encT encU (v0, v1) =
     (case encT v0 of (a0, a1) \<Rightarrow> case encU v1 of (a2, a3) \<Rightarrow> (a0, a1, a2, a3))"

fun tuple_decode_22 ::
  "(usize \<times> usize \<Rightarrow> ('t, 'x) outcome) \<Rightarrow> (usize \<times> usize \<Rightarrow> ('u, 'x) outcome) \<Rightarrow>
     usize \<times> usize \<times> usize \<times> usize \<Rightarrow> ('t \<times> 'u, 'x) outcome" where
  "tuple_decode_22 decT decU (a0, a1, a2, a3) =
     obind (decT (a0, a1)) (\<lambda>v0. obind (decU (a2, a3)) (\<lambda>v1. Ok (v0, v1)))"

fun tuple_encode_211 ::
  "('t \<Rightarrow> usize \<times> usize) \<Rightarrow> ('u \<Rightarrow> usize) \<Rightarrow> ('v \<Rightarrow> usize) \<Rightarrow> 't \<times> 'u \<times> 'v \<Rightarrow>
     usize \<times> usize \<times> usize \<times> usize" where
  "tuple_encode_211 encT encU encV (v0, v1, v2) =
     (case encT v0 of (a0, a1) \<Rightarrow> (a0, a1, encU v1, encV v2))"

fun tuple_decode_211 ::
  "(usize \<times> usize \<Rightarrow> ('t, 'x) outcome) \<Rightarrow> (usize \<Rightarrow> ('u, 'x) outcome) \<Rightarrow> (usize \<Rightarrow> ('v, 'x) outcome) \<Rightarrow>
     usize \<times> usize \<times> usize \<times> usize \<Rightarrow> ('t \<times> 'u \<times> 'v, 'x) outcome" where
  "tuple_decode_211 decT decU decV (a0, a1, a2, a3) =
     obind (decT (a0, a1)) (\<lambda>v0. obind (decU a2) (\<lambda>v1. obind (decV a3) (\<lambda>v2. Ok (v0, v1, v2))))"

fun tuple_encode_112 ::
  "('t \<Rightarrow> usize) \<Rightarrow> ('u \<Rightarrow> usize) \<Rightarrow> ('v \<Rightarrow> usize \<times> usize) \<Rightarrow> 't \<times> 'u \<times> 'v \<Rightarrow>
     usize \<times> usize \<times> usize \<times> usize" where
  "tuple_encode_112 encT encU encV (v0, v1, v2) =
     (case encV v2 of (a2, a3) \<Rightarrow> (encT v0, encU v1, a2, a3))"

fun tuple_decode_112 ::
  "(usize \<Rightarrow> ('t, 'x) outcome) \<Rightarrow> (usize \<Rightarrow> ('u, 'x) outcome) \<Rightarrow> (usize \<times> usize \<Rightarrow> ('v, 'x) outcome) \<Rightarrow>
     usize \<times> usize \<times> usize \<times> usize \<Rightarrow> ('t \<times> 'u \<times> 'v, 'x) outcome" where
  "tuple_decode_112 decT decU decV (a0, a1, a2, a3) =
     obind (decT a0) (\<lambda>v0. obind (decU a1) (\<lambda>v1. obind (decV (a2, a3)) (\<lambda>v2. Ok (v0, v1, v2))))"

section \<open>The contract of a register value\<close>

text \<open>
  \<open>valid\<close> singles out the values the Rust type has (a \<^verbatim>\<open>NonZero\<close> is not zero, an open-flags value
  has declared bits only, a duration has less than a second of nanoseconds). The provider
  promises that what was encoded is decoded to the same value and that decoding gives only
  values of the type; distinct values then never share an encoding.
\<close>

locale register_value =
  fixes encode :: "'v \<Rightarrow> 'r"
    and decode :: "'r \<Rightarrow> ('v, register_decode_error) outcome"
    and valid :: "'v \<Rightarrow> bool"
  assumes decode_encode: "valid v \<Longrightarrow> decode (encode v) = Ok v"
    and decode_valid: "decode r = Ok v \<Longrightarrow> valid v"
begin

lemma encode_inj: "valid v \<Longrightarrow> valid w \<Longrightarrow> encode v = encode w \<Longrightarrow> v = w"
  by (metis decode_encode outcome.inject(1))

lemma encode_inj_on: "inj_on encode (Collect valid)"
  by (auto intro: inj_onI encode_inj)

lemma decode_encode_decode: "decode r = Ok v \<Longrightarrow> decode (encode v) = Ok v"
  by (rule decode_encode, rule decode_valid)

end

text \<open>An exact value accepts no register contents but the canonical ones.\<close>

locale exact_register_value = register_value +
  assumes encode_decode: "decode r = Ok v \<Longrightarrow> encode v = r"
begin

lemma decode_iff: "decode r = Ok v \<longleftrightarrow> valid v \<and> encode v = r"
  using decode_encode decode_valid encode_decode by blast

end

text \<open>A safe value is decoded from any register contents without a panic.\<close>

locale safe_register_value = register_value +
  assumes decode_no_panic: "decode r \<noteq> Panic"

definition valid_any :: "'v \<Rightarrow> bool" where
  "valid_any v \<longleftrightarrow> True"

definition valid_infallible :: "infallible \<Rightarrow> bool" where
  "valid_infallible v \<longleftrightarrow> False"

definition valid_nonzero :: "'n::len word option \<Rightarrow> bool" where
  "valid_nonzero v \<longleftrightarrow> v \<noteq> Some 0"

definition valid_proc_id :: "proc_id \<Rightarrow> bool" where
  "valid_proc_id v \<longleftrightarrow> v \<noteq> 0"

fun valid_wait_target :: "wait_target \<Rightarrow> bool" where
  "valid_wait_target AnyProcess \<longleftrightarrow> True"
| "valid_wait_target (Process pid) \<longleftrightarrow> valid_proc_id pid"

definition valid_open_flags :: "usize \<Rightarrow> bool" where
  "valid_open_flags bits \<longleftrightarrow> bits AND NOT open_flags_all = 0"

definition valid_duration :: "duration \<Rightarrow> bool" where
  "valid_duration d \<longleftrightarrow> dur_nanos d < nanos_per_sec"

named_theorems codec_defs "definitions of the single-value codecs"

lemmas [codec_defs] =
  encode_unit_def decode_unit_def encode_usize_def decode_usize_def encode_isize_def
  decode_isize_def encode_u64_def decode_u64_def encode_i64_def decode_i64_def
  encode_raw_fd_def decode_raw_fd_def encode_user_ref_def decode_user_ref_def
  encode_user_mut_ref_def decode_user_mut_ref_def encode_user_slice_def
  encode_user_mut_slice_def valid_any_def

section \<open>The codecs keep the contract\<close>


lemma unsigned_value:
  assumes "LENGTH('n::len) \<le> 64"
  shows "exact_register_value encode_unsigned (decode_unsigned :: _ \<Rightarrow> ('n word, _) outcome) valid_any"
  using assms
  by unfold_locales
    (auto simp: encode_unsigned_def decode_unsigned_def try_from_unsigned_def codec_defs
      unat_ucast_up ucast_ucast_up ucast_ucast_fits unat_lt_width split: if_splits)

lemma signed_value:
  assumes "LENGTH('n::len) \<le> 64"
  shows "exact_register_value encode_signed (decode_signed :: _ \<Rightarrow> ('n word, _) outcome) valid_any"
  using assms sint_ge [where 'a = 'n] sint_lt [where 'a = 'n]
  by unfold_locales
    (auto simp: encode_signed_def decode_signed_def try_from_signed_def codec_defs
      sint_scast_up scast_scast_up scast_scast_fits split: if_splits)

lemmas value_laws =
  register_value.decode_encode register_value.decode_valid

lemmas exact_laws =
  register_value.decode_encode [OF exact_register_value.axioms(1)]
  register_value.decode_valid [OF exact_register_value.axioms(1)]
  exact_register_value.encode_decode

lemma nonzero_value:
  assumes "exact_register_value enc dec valid_any"
  shows "exact_register_value (encode_nonzero enc) (decode_nonzero dec) valid_nonzero"
  by unfold_locales
    (auto simp: encode_nonzero_def decode_nonzero_def valid_nonzero_def valid_any_def
      exact_laws [OF assms] split: option.splits if_splits)

lemma usize_value: "exact_register_value encode_usize decode_usize valid_any"
  by unfold_locales (auto simp: codec_defs)

lemma user_slice_value: "exact_register_value encode_user_slice decode_user_slice valid_any"
  by unfold_locales (auto simp: codec_defs)

lemma syscall_error_value:
  "crates_ok X \<Longrightarrow> exact_register_value encode_syscall_error (decode_syscall_error X) valid_any"
  by unfold_locales
    (auto simp: encode_syscall_error_def decode_syscall_error_def crates_ok_def codec_defs)

lemma option_proc_id_value:
  "exact_register_value encode_option_proc_id decode_option_proc_id valid_nonzero"
  using nonzero_value [OF unsigned_value [where 'n = 32]]
  by (simp add: encode_option_proc_id_def [abs_def] decode_option_proc_id_def [abs_def])

lemma proc_id_value: "exact_register_value encode_proc_id decode_proc_id valid_proc_id"
  by unfold_locales
    (auto simp: encode_proc_id_def decode_proc_id_def valid_proc_id_def valid_nonzero_def
      exact_laws [OF option_proc_id_value] dest: exact_laws(2) [OF option_proc_id_value])

lemma wait_target_value: "exact_register_value encode_wait_target decode_wait_target valid_wait_target"
proof unfold_locales
  fix v assume "valid_wait_target v"
  then show "decode_wait_target (encode_wait_target v) = Ok v"
    by (cases v) (auto simp: exact_laws [OF proc_id_value])
next
  fix r v assume "decode_wait_target r = Ok v"
  then show "valid_wait_target v" and "encode_wait_target v = r"
    by (cases r; auto simp: exact_laws [OF proc_id_value] split: if_splits)+
qed

lemma open_flags_value:
  "crates_ok X \<Longrightarrow> exact_register_value encode_open_flags (decode_open_flags X) valid_open_flags"
  by unfold_locales
    (auto simp: encode_open_flags_def decode_open_flags_def crates_ok_def valid_open_flags_def codec_defs
      split: if_splits)


lemma socket_hi:
  fixes ip :: u32 and port :: u16
  shows "drop_bit 32 (push_bit 32 (ucast ip) OR ucast (ucast port :: u32) :: u64) = ucast ip"
  by (rule bit_word_eqI) (auto simp: bit_simps dest: bit_imp_le_length)

lemma mask32: "(0xffffffff :: u64) = mask 32"
  by (simp add: mask_eq_exp_minus_1)

lemma socket_lo:
  fixes ip :: u32 and port :: u16
  shows "(push_bit 32 (ucast ip) OR ucast (ucast port :: u32) :: u64) AND 0xffffffff = ucast port"
  unfolding mask32
  by (rule bit_word_eqI) (auto simp: bit_simps dest: bit_imp_le_length)

lemma socket_join:
  fixes w :: u64
  assumes "unat (w AND 0xffffffff) < 2 ^ 16"
  shows "push_bit 32 (ucast (ucast (drop_bit 32 w) :: u32))
           OR ucast (ucast (ucast (w AND 0xffffffff) :: u16) :: u32) = w"
proof -
  have "ucast (ucast (ucast (w AND 0xffffffff) :: u16) :: u32) = w AND 0xffffffff"
    using assms ucast_ucast_fits [of "w AND 0xffffffff", where 'n = 16] by (simp add: word_unat_eq_iff unat_ucast_up)
  then show ?thesis
    unfolding mask32 by (auto intro!: bit_word_eqI simp: bit_simps)
qed

lemma socket_addr_v4_value:
  "exact_register_value encode_socket_addr_v4 decode_socket_addr_v4 valid_any"
proof unfold_locales
  fix v :: socket_addr_v4
  show "decode_socket_addr_v4 (encode_socket_addr_v4 v) = Ok v"
    using unat_lt_width [of "sa_ip v"] unat_lt_width [of "sa_port v"]
    by (simp add: decode_socket_addr_v4_def encode_socket_addr_v4_def codec_defs Let_def
        socket_hi socket_lo try_from_unsigned_def unat_ucast_up ucast_ucast_up del: drop_bit_or)
next
  fix r v assume "decode_socket_addr_v4 r = Ok v"
  then show "encode_socket_addr_v4 v = r"
    by (auto simp: decode_socket_addr_v4_def encode_socket_addr_v4_def codec_defs Let_def
        socket_join try_from_unsigned_def split: if_splits)
qed (simp add: valid_any_def)

lemma duration_new_valid: "duration_new secs nanos = Ok d \<Longrightarrow> valid_duration d"
  by (auto simp: duration_new_def valid_duration_def nanos_per_sec_def word_mod_less_divisor
      split: if_splits option.splits)

lemma duration_value: "register_value encode_duration decode_duration valid_duration"
proof unfold_locales
  fix v assume "valid_duration v"
  then show "decode_duration (encode_duration v) = Ok v"
    by (simp add: encode_duration_def duration_new_def valid_duration_def codec_defs
        exact_laws [OF unsigned_value [where 'n = 32]])
qed (auto dest: duration_new_valid)

lemma tuple_decode_12_alt:
  "tuple_decode_12 dT dU p = obind (dT (fst p)) (\<lambda>v0. obind (dU (snd p)) (\<lambda>v1. Ok (v0, v1)))"
  by (cases p) simp

lemma tuple_decode_22_alt:
  "tuple_decode_22 dT dU p =
     obind (dT (fst p, fst (snd p))) (\<lambda>v0. obind (dU (snd (snd p))) (\<lambda>v1. Ok (v0, v1)))"
  by (cases p) simp

lemma tuple_decode_112_alt:
  "tuple_decode_112 dT dU dV p =
     obind (dT (fst p)) (\<lambda>v0. obind (dU (fst (snd p))) (\<lambda>v1.
     obind (dV (snd (snd p))) (\<lambda>v2. Ok (v0, v1, v2))))"
  by (cases p) simp

lemmas tuple_decode_alt = tuple_decode_12_alt tuple_decode_22_alt tuple_decode_112_alt

lemma tuple_value_11:
  assumes "register_value eT dT vT" and "register_value eU dU vU"
  shows "register_value (tuple_encode_11 eT eU) (tuple_decode_11 dT dU)
    (pred_prod vT vU)"
  by unfold_locales
    (auto simp: split_beta tuple_decode_alt assms [THEN value_laws(1)] dest: assms [THEN value_laws(2)])

lemma tuple_value_12:
  assumes "register_value eT dT vT" and "register_value eU dU vU"
  shows "register_value (tuple_encode_12 eT eU) (tuple_decode_12 dT dU)
    (pred_prod vT vU)"
  by unfold_locales
    (auto simp: split_beta tuple_decode_alt assms [THEN value_laws(1)] dest: assms [THEN value_laws(2)])

lemma tuple_value_21:
  assumes "register_value eT dT vT" and "register_value eU dU vU"
  shows "register_value (tuple_encode_21 eT eU) (tuple_decode_21 dT dU)
    (pred_prod vT vU)"
  by unfold_locales
    (auto simp: split_beta tuple_decode_alt assms [THEN value_laws(1)] dest: assms [THEN value_laws(2)])

lemma tuple_value_22:
  assumes "register_value eT dT vT" and "register_value eU dU vU"
  shows "register_value (tuple_encode_22 eT eU) (tuple_decode_22 dT dU)
    (pred_prod vT vU)"
  by unfold_locales
    (auto simp: split_beta tuple_decode_alt assms [THEN value_laws(1)] dest: assms [THEN value_laws(2)])

lemma tuple_value_211:
  assumes "register_value eT dT vT" and "register_value eU dU vU" and "register_value eV dV vV"
  shows "register_value (tuple_encode_211 eT eU eV) (tuple_decode_211 dT dU dV)
    (pred_prod vT (pred_prod vU vV))"
  by unfold_locales
    (auto simp: split_beta tuple_decode_alt assms [THEN value_laws(1)] dest: assms [THEN value_laws(2)])

lemma tuple_value_112:
  assumes "register_value eT dT vT" and "register_value eU dU vU" and "register_value eV dV vV"
  shows "register_value (tuple_encode_112 eT eU eV) (tuple_decode_112 dT dU dV)
    (pred_prod vT (pred_prod vU vV))"
  by unfold_locales
    (auto simp: split_beta tuple_decode_alt assms [THEN value_laws(1)] dest: assms [THEN value_laws(2)])

lemma result_value_01:
  assumes T: "register_value eT dT vT" and E: "register_value eE dE vE"
  shows "register_value (result_encode_01 eT eE) (result_decode_01 dT dE) (pred_sum vE vT)"
proof unfold_locales
  fix v assume v: "pred_sum vE vT v"
  show "result_decode_01 dT dE (result_encode_01 eT eE v) = Ok v"
  proof (cases v)
    case (Inl e)
    then show ?thesis using v by (simp add: usize_MAX_def E [THEN value_laws(1)])
  next
    case (Inr t)
    then show ?thesis using v T [THEN value_laws(1), of t] by simp
  qed
next
  fix r v assume "result_decode_01 dT dE r = Ok v"
  then show "pred_sum vE vT v"
    by (cases r) (auto split: if_splits dest: assms [THEN value_laws(2)])
qed

lemma result_value_11:
  assumes "register_value eT dT vT" and "register_value eE dE vE"
  shows "register_value (result_encode_11 eT eE) (result_decode_11 dT dE) (pred_sum vE vT)"
proof unfold_locales
  fix v assume "pred_sum vE vT v"
  then show "result_decode_11 dT dE (result_encode_11 eT eE v) = Ok v"
    by (cases v) (simp_all add: usize_MAX_def assms [THEN value_laws(1)])
next
  fix r v assume "result_decode_11 dT dE r = Ok v"
  then show "pred_sum vE vT v"
    by (cases r) (auto split: if_splits dest: assms [THEN value_laws(2)])
qed

lemma duration_div: "unat (ucast (n div nanos_per_sec) :: u64) = unat n div 1000000000"
  by (simp add: unat_ucast_up unat_div nanos_per_sec_def)

lemma nanos_per_sec_nat: "unat nanos_per_sec = 1000000000"
  by (simp add: nanos_per_sec_def)

lemma duration_new_panic_iff:
  "duration_new s n = Panic \<longleftrightarrow> 2 ^ 64 \<le> unat s + unat n div 1000000000"
  using unat_lt_width [of s]
  by (auto simp: duration_new_def checked_add_def duration_div word_less_nat_alt nanos_per_sec_nat)

lemma decode_duration_panic_iff:
  "decode_duration (s, n) = Panic \<longleftrightarrow> unat n < 2 ^ 32 \<and> 2 ^ 64 \<le> unat s + unat n div 1000000000"
  by (auto simp: codec_defs obind_eq_Panic duration_new_panic_iff decode_unsigned_def
      try_from_unsigned_def unat_ucast_fits)

section \<open>Decoding never panics, a duration apart\<close>

named_theorems no_panic "decoders that do not panic on any register contents"

lemma try_from_not_Panic [no_panic]:
  "try_from_unsigned w \<noteq> Panic" "try_from_signed w \<noteq> Panic"
  by (simp_all add: try_from_unsigned_def try_from_signed_def)

lemma decode_number_not_Panic [no_panic]:
  "decode_usize r \<noteq> Panic" "decode_isize r \<noteq> Panic" "decode_u64 r \<noteq> Panic" "decode_unit u \<noteq> Panic"
  "decode_unsigned r \<noteq> Panic" "decode_signed r \<noteq> Panic" "decode_raw_fd r \<noteq> Panic"
  by (simp_all add: codec_defs decode_unsigned_def decode_signed_def no_panic)

lemma decode_user_not_Panic [no_panic]:
  "decode_user_ref r \<noteq> Panic" "decode_user_mut_ref r \<noteq> Panic"
  "decode_user_slice p \<noteq> Panic" "decode_user_mut_slice p \<noteq> Panic"
  by (cases p; simp add: codec_defs)+

lemma decode_enum_not_Panic [no_panic]:
  "decode_syscall_error X r \<noteq> Panic" "decode_open_flags X r \<noteq> Panic"
  by (simp_all add: decode_syscall_error_def decode_open_flags_def obind_eq_Panic no_panic)

lemma decode_proc_not_Panic [no_panic]:
  "decode_option_proc_id r \<noteq> Panic" "decode_proc_id r \<noteq> Panic"
  by (simp_all add: decode_proc_id_def decode_option_proc_id_def decode_nonzero_def
      obind_eq_Panic no_panic)

lemma decode_wait_target_not_Panic [no_panic]: "decode_wait_target r \<noteq> Panic"
  by (cases r) (simp add: obind_eq_Panic no_panic)

lemma drop_bit_32_fits: "unat (drop_bit 32 (v :: u64)) < 2 ^ 32"
  using unat_lt_width [of v] by (simp add: drop_bit_eq_div unat_div less_mult_imp_div_less)

text \<open>The \<^verbatim>\<open>unwrap\<close> on the upper half of a socket address never fires: it has 32 bits.\<close>

lemma decode_socket_addr_v4_not_Panic [no_panic]: "decode_socket_addr_v4 r \<noteq> Panic"
  using drop_bit_32_fits [of r]
  by (simp add: decode_socket_addr_v4_def codec_defs Let_def obind_eq_Panic no_panic
      try_from_unsigned_def)

section \<open>The interpretations\<close>

interpretation rv_unit: register_value encode_unit decode_unit valid_any
  by unfold_locales (simp_all add: codec_defs)

interpretation rv_usize: exact_register_value encode_usize decode_usize valid_any
  by (rule usize_value)

interpretation rv_proc_id: exact_register_value encode_proc_id decode_proc_id valid_proc_id
  by (rule proc_id_value)

interpretation rv_wait_target:
  exact_register_value encode_wait_target decode_wait_target valid_wait_target
  by (rule wait_target_value)

interpretation rv_wait_target_safe:
  safe_register_value encode_wait_target decode_wait_target valid_wait_target
  by unfold_locales (rule no_panic)

interpretation rv_socket_addr_v4:
  exact_register_value encode_socket_addr_v4 decode_socket_addr_v4 valid_any
  by (rule socket_addr_v4_value)

interpretation rv_socket_addr_v4_safe:
  safe_register_value encode_socket_addr_v4 decode_socket_addr_v4 valid_any
  by unfold_locales (rule no_panic)

interpretation rv_duration: register_value encode_duration decode_duration valid_duration
  by (rule duration_value)

end
