(* ===== verification/Kernel_Error.thy ===== *)
theory Kernel_Error
  imports Sys_Register
begin

text \<open>
  The kernel's error type and its conversion to the error numbers a user program sees:
  \<^verbatim>\<open>ov6_kernel/src/error.rs\<close>. A page table entry's flags, a virtual address, a device and an
  inode number are carried as the words they are.
\<close>

datatype kernel_error =
    NoFreeProc
  | NoFreePage
  | NoWaitTarget
  | ProcessNotFound proc_id
  | DeviceNotFound u32
  | TooLargeVirtualAddress usize
  | VirtualAddressUnderflow
  | VirtualPageNotMapped usize
  | InaccessiblePage usize
  | VirtualAddressWithUnexpectedPerm usize usize usize
  | HeapSizeOverflow
  | HeapSizeUnderflow
  | FileDescriptorNotFound raw_fd proc_id
  | FileDescriptorNotReadable
  | FileDescriptorNotWritable
  | PathTooLong
  | NullInPath
  | NonDirectoryPathComponent
  | FsEntryNotFound
  | DirectoryNotEmpty
  | WriteOffsetTooLarge
  | UnlinkRootDir
  | UnlinkDots
  | CreateRootDir
  | CreateAlreadyExists
  | LinkRootDir
  | LinkCrossDevices
  | LinkToNonDirectory
  | LinkAlreadyExists
  | StatOnNonFsEntry
  | BrokenPipe
  | FileTooLarge
  | NoFreeFileTableEntry
  | NoFreeFileDescriptorTableEntry
  | NoFreeInodeInMemoryTableEntry
  | NoFreeInodeDataInMemoryTableEntry
  | CorruptedInodeType u32 u16
  | StorageOutOfBlocks
  | StorageOutOfInodes
  | OpenDirAsWritable
  | ChdirNotDir
  | ArgumentListTooLarge
  | InvalidExecutable
  | SyscallDecode register_decode_error
  | CallerProcessAlreadyKilled
  | NotInSignalHandler
  | TooLargeUdpPacket
  | NoSendBuffer
  | PortAlreadyBound
  | NoFreePort
  | PortNotBound

primrec syscall_error_of :: "kernel_error \<Rightarrow> syscall_error" where
  "syscall_error_of NoFreeProc = SE_ResourceTempolaryUnavailable"
| "syscall_error_of NoSendBuffer = SE_ResourceTempolaryUnavailable"
| "syscall_error_of NoFreePort = SE_ResourceTempolaryUnavailable"
| "syscall_error_of NoFreePage = SE_OutOfMemory"
| "syscall_error_of (ProcessNotFound x) = SE_ProcessNotFound"
| "syscall_error_of (DeviceNotFound x) = SE_DeviceNotFound"
| "syscall_error_of NoWaitTarget = SE_NoChildProcess"
| "syscall_error_of (TooLargeVirtualAddress x) = SE_BadAddress"
| "syscall_error_of VirtualAddressUnderflow = SE_BadAddress"
| "syscall_error_of (VirtualPageNotMapped x) = SE_BadAddress"
| "syscall_error_of (InaccessiblePage x) = SE_BadAddress"
| "syscall_error_of (VirtualAddressWithUnexpectedPerm va f g) = SE_BadAddress"
| "syscall_error_of (FileDescriptorNotFound fd pid) = SE_BadFileDescriptor"
| "syscall_error_of FileDescriptorNotReadable = SE_BadFileDescriptor"
| "syscall_error_of FileDescriptorNotWritable = SE_BadFileDescriptor"
| "syscall_error_of StatOnNonFsEntry = SE_BadFileDescriptor"
| "syscall_error_of PathTooLong = SE_InvalidFilename"
| "syscall_error_of NonDirectoryPathComponent = SE_NotADirectory"
| "syscall_error_of ChdirNotDir = SE_NotADirectory"
| "syscall_error_of LinkToNonDirectory = SE_NotADirectory"
| "syscall_error_of FsEntryNotFound = SE_FsEntryNotFound"
| "syscall_error_of DirectoryNotEmpty = SE_DirectoryNotEmpty"
| "syscall_error_of WriteOffsetTooLarge = SE_NotSeekable"
| "syscall_error_of UnlinkRootDir = SE_ResourceBusy"
| "syscall_error_of HeapSizeOverflow = SE_InvalidInput"
| "syscall_error_of HeapSizeUnderflow = SE_InvalidInput"
| "syscall_error_of UnlinkDots = SE_InvalidInput"
| "syscall_error_of NullInPath = SE_InvalidInput"
| "syscall_error_of PortNotBound = SE_InvalidInput"
| "syscall_error_of CreateRootDir = SE_AlreadyExists"
| "syscall_error_of CreateAlreadyExists = SE_AlreadyExists"
| "syscall_error_of LinkRootDir = SE_AlreadyExists"
| "syscall_error_of LinkAlreadyExists = SE_AlreadyExists"
| "syscall_error_of LinkCrossDevices = SE_CrossesDevices"
| "syscall_error_of BrokenPipe = SE_BrokenPipe"
| "syscall_error_of FileTooLarge = SE_FileTooLarge"
| "syscall_error_of NoFreeFileTableEntry = SE_TooManyOpenFilesSystem"
| "syscall_error_of NoFreeInodeInMemoryTableEntry = SE_TooManyOpenFilesSystem"
| "syscall_error_of NoFreeInodeDataInMemoryTableEntry = SE_TooManyOpenFilesSystem"
| "syscall_error_of NoFreeFileDescriptorTableEntry = SE_TooManyOpenFiles"
| "syscall_error_of (CorruptedInodeType ino ty) = SE_Io"
| "syscall_error_of StorageOutOfBlocks = SE_StorageFull"
| "syscall_error_of StorageOutOfInodes = SE_StorageFull"
| "syscall_error_of OpenDirAsWritable = SE_IsADirectory"
| "syscall_error_of ArgumentListTooLarge = SE_ArgumentListTooLong"
| "syscall_error_of InvalidExecutable = SE_ExecFormat"
| "syscall_error_of TooLargeUdpPacket = SE_MessageTooLong"
| "syscall_error_of PortAlreadyBound = SE_AddrInUse"
| "syscall_error_of NotInSignalHandler = SE_Unknown"
| "syscall_error_of (SyscallDecode x) = SE_Unknown"
| "syscall_error_of CallerProcessAlreadyKilled = SE_Unknown"

datatype sleep_lock_error = LockingProcessAlreadyKilled

datatype wait_error = WaitingProcessAlreadyKilled

fun kernel_error_of_sleep_lock :: "sleep_lock_error \<Rightarrow> kernel_error" where
  "kernel_error_of_sleep_lock LockingProcessAlreadyKilled = CallerProcessAlreadyKilled"

fun kernel_error_of_wait :: "wait_error \<Rightarrow> kernel_error" where
  "kernel_error_of_wait WaitingProcessAlreadyKilled = CallerProcessAlreadyKilled"

end
