(* ===== verification/Sys_Call.thy ===== *)
theory Sys_Call
  imports Kernel_Error
begin

text \<open>
  The system call path: the user library's \<^verbatim>\<open>ffi.rs\<close> loads the argument registers and executes
  \<^verbatim>\<open>ecall\<close>, the kernel's \<^verbatim>\<open>syscall/mod.rs\<close> decodes them, runs the handler of the call and stores
  the result registers, and \<^verbatim>\<open>ffi.rs\<close> decodes those. The handlers are the fields of the record
  \<open>handlers\<close>, one per \<^verbatim>\<open>impl SyscallExt\<close>, with the argument and result types of
  \<^verbatim>\<open>ov6_syscall/src/syscall.rs\<close>.
\<close>

section \<open>The trap frame\<close>

record user_registers =
  ur_ra :: usize
  ur_sp :: usize
  ur_gp :: usize
  ur_tp :: usize
  ur_t0 :: usize
  ur_t1 :: usize
  ur_t2 :: usize
  ur_s0 :: usize
  ur_s1 :: usize
  ur_a0 :: usize
  ur_a1 :: usize
  ur_a2 :: usize
  ur_a3 :: usize
  ur_a4 :: usize
  ur_a5 :: usize
  ur_a6 :: usize
  ur_a7 :: usize
  ur_s2 :: usize
  ur_s3 :: usize
  ur_s4 :: usize
  ur_s5 :: usize
  ur_s6 :: usize
  ur_s7 :: usize
  ur_s8 :: usize
  ur_s9 :: usize
  ur_s10 :: usize
  ur_s11 :: usize
  ur_t3 :: usize
  ur_t4 :: usize
  ur_t5 :: usize
  ur_t6 :: usize

record trap_frame =
  tf_kernel_satp :: usize
  tf_kernel_sp :: usize
  tf_kernel_trap :: usize
  tf_epc :: usize
  tf_kernel_hartid :: usize
  tf_user_registers :: user_registers

text \<open>
  What \<open>syscall\<close> reads and writes of a process's private data: the trap frame, the trace mask and
  the trace lines \<^verbatim>\<open>println!\<close> has written. The rest of the private data is the record's extension,
  which belongs to the handlers. A trace line keeps the call, whether its argument was decoded and
  whether it has a result.
\<close>

datatype trace_line = Trace_Line syscall_code bool bool

record proc_private =
  trapframe :: trap_frame
  trace_mask :: u64
  traced :: "trace_line list"

abbreviation registers :: "'m proc_private_scheme \<Rightarrow> user_registers" where
  "registers s \<equiv> tf_user_registers (trapframe s)"

text \<open>How a handler ends: with a result, without returning to its caller (\<^verbatim>\<open>exit\<close>, a reboot), or in a
  panic.\<close>

datatype ('r, 's) call_end = Returned 'r 's | Gone 's | Panicked

fun cbind :: "('a, 's) call_end \<Rightarrow> ('a \<Rightarrow> 's \<Rightarrow> ('b, 's) call_end) \<Rightarrow> ('b, 's) call_end" where
  "cbind (Returned a s) f = f a s"
| "cbind (Gone s) f = Gone s"
| "cbind Panicked f = Panicked"

type_synonym ('p, 'a, 'r) handler = "'p \<Rightarrow> 'a \<Rightarrow> ('r, 'p) call_end"

section \<open>Loading and reading the registers\<close>

text \<open>The registers as \<^verbatim>\<open>ecall\<close> finds them; the ones the instruction does not name keep their contents.\<close>

definition call_with_arg_0 :: "unit \<Rightarrow> syscall_code \<Rightarrow> user_registers \<Rightarrow> user_registers" where
  "call_with_arg_0 r code ur = ur\<lparr>ur_a7 := syscall_code_repr code\<rparr>"

definition call_with_arg_1 :: "usize \<Rightarrow> syscall_code \<Rightarrow> user_registers \<Rightarrow> user_registers" where
  "call_with_arg_1 a0 code ur = ur\<lparr>ur_a0 := a0, ur_a7 := syscall_code_repr code\<rparr>"

fun call_with_arg_2 :: "usize \<times> usize \<Rightarrow> syscall_code \<Rightarrow> user_registers \<Rightarrow> user_registers" where
  "call_with_arg_2 (a0, a1) code ur =
     ur\<lparr>ur_a0 := a0, ur_a1 := a1, ur_a7 := syscall_code_repr code\<rparr>"

fun call_with_arg_3 ::
  "usize \<times> usize \<times> usize \<Rightarrow> syscall_code \<Rightarrow> user_registers \<Rightarrow> user_registers" where
  "call_with_arg_3 (a0, a1, a2) code ur =
     ur\<lparr>ur_a0 := a0, ur_a1 := a1, ur_a2 := a2, ur_a7 := syscall_code_repr code\<rparr>"

fun call_with_arg_4 ::
  "usize \<times> usize \<times> usize \<times> usize \<Rightarrow> syscall_code \<Rightarrow> user_registers \<Rightarrow> user_registers" where
  "call_with_arg_4 (a0, a1, a2, a3) code ur =
     ur\<lparr>ur_a0 := a0, ur_a1 := a1, ur_a2 := a2, ur_a3 := a3, ur_a7 := syscall_code_repr code\<rparr>"

definition decode_arg_0 :: "(unit \<Rightarrow> ('t, 'x) outcome) \<Rightarrow> user_registers \<Rightarrow> ('t, 'x) outcome" where
  "decode_arg_0 dec ur = dec ()"

definition decode_arg_1 :: "(usize \<Rightarrow> ('t, 'x) outcome) \<Rightarrow> user_registers \<Rightarrow> ('t, 'x) outcome" where
  "decode_arg_1 dec ur = dec (ur_a0 ur)"

definition decode_arg_2 ::
  "(usize \<times> usize \<Rightarrow> ('t, 'x) outcome) \<Rightarrow> user_registers \<Rightarrow> ('t, 'x) outcome" where
  "decode_arg_2 dec ur = dec (ur_a0 ur, ur_a1 ur)"

definition decode_arg_3 ::
  "(usize \<times> usize \<times> usize \<Rightarrow> ('t, 'x) outcome) \<Rightarrow> user_registers \<Rightarrow> ('t, 'x) outcome" where
  "decode_arg_3 dec ur = dec (ur_a0 ur, ur_a1 ur, ur_a2 ur)"

definition decode_arg_4 ::
  "(usize \<times> usize \<times> usize \<times> usize \<Rightarrow> ('t, 'x) outcome) \<Rightarrow> user_registers \<Rightarrow> ('t, 'x) outcome" where
  "decode_arg_4 dec ur = dec (ur_a0 ur, ur_a1 ur, ur_a2 ur, ur_a3 ur)"

datatype return_value = Ret0 | Ret1 usize | Ret2 usize usize

definition return_of_0 :: "unit \<Rightarrow> return_value" where
  "return_of_0 r = Ret0"

definition return_of_1 :: "usize \<Rightarrow> return_value" where
  "return_of_1 a0 = Ret1 a0"

fun return_of_2 :: "usize \<times> usize \<Rightarrow> return_value" where
  "return_of_2 (a0, a1) = Ret2 a0 a1"

definition store_return :: "return_value \<Rightarrow> trap_frame \<Rightarrow> trap_frame" where
  "store_return rv tf =
     (let (a0, a1) = (case rv of Ret0 \<Rightarrow> (0, None) | Ret1 a0 \<Rightarrow> (a0, None) | Ret2 a0 a1 \<Rightarrow> (a0, Some a1));
          ur = tf_user_registers tf;
          ur = ur\<lparr>ur_a0 := a0\<rparr>;
          ur = (case a1 of None \<Rightarrow> ur | Some a1 \<Rightarrow> ur\<lparr>ur_a1 := a1\<rparr>)
      in tf\<lparr>tf_user_registers := ur\<rparr>)"

fun from_array_0 :: "usize \<times> usize \<Rightarrow> unit" where
  "from_array_0 (a0, a1) = ()"

fun from_array_1 :: "usize \<times> usize \<Rightarrow> usize" where
  "from_array_1 (a0, a1) = a0"

fun from_array_2 :: "usize \<times> usize \<Rightarrow> usize \<times> usize" where
  "from_array_2 (a0, a1) = (a0, a1)"

section \<open>The table of system calls\<close>

text \<open>
  An \<^verbatim>\<open>impl Syscall\<close> has a code, an argument type and a result type; a description holds the code and
  what the two types' codecs do to the registers on either side.
\<close>

record ('a, 'r) syscall_desc =
  CODE :: syscall_code
  arg_load :: "'a \<Rightarrow> syscall_code \<Rightarrow> user_registers \<Rightarrow> user_registers"
  arg_decode :: "user_registers \<Rightarrow> ('a, register_decode_error) outcome"
  ret_encode :: "'r \<Rightarrow> return_value"
  ret_decode :: "usize \<times> usize \<Rightarrow> ('r, register_decode_error) outcome"

definition args_0 where "args_0 enc dec = (call_with_arg_0 \<circ> enc, decode_arg_0 dec)"
definition args_1 where "args_1 enc dec = (call_with_arg_1 \<circ> enc, decode_arg_1 dec)"
definition args_2 where "args_2 enc dec = (call_with_arg_2 \<circ> enc, decode_arg_2 dec)"
definition args_3 where "args_3 enc dec = (call_with_arg_3 \<circ> enc, decode_arg_3 dec)"
definition args_4 where "args_4 enc dec = (call_with_arg_4 \<circ> enc, decode_arg_4 dec)"

definition returns_0 where "returns_0 enc dec = (return_of_0 \<circ> enc, dec \<circ> from_array_0)"

definition returns_01 where
  "returns_01 X enc dec =
     (return_of_2 \<circ> result_encode_01 enc encode_syscall_error,
      result_decode_01 dec (decode_syscall_error X) \<circ> from_array_2)"

definition returns_11 where
  "returns_11 X enc dec =
     (return_of_2 \<circ> result_encode_11 enc encode_syscall_error,
      result_decode_11 dec (decode_syscall_error X) \<circ> from_array_2)"

definition syscall_desc where
  "syscall_desc code args rets =
     \<lparr>CODE = code, arg_load = fst args, arg_decode = snd args,
      ret_encode = fst rets, ret_decode = snd rets\<rparr>"

definition Fork_call :: "crate_fns \<Rightarrow> (unit, (proc_id option, syscall_error) result) syscall_desc" where
  "Fork_call X = syscall_desc SC_Fork
    (args_0 encode_unit decode_unit)
    (returns_11 X encode_option_proc_id decode_option_proc_id)"

definition Exit_call :: "(i32, infallible) syscall_desc" where
  "Exit_call = syscall_desc SC_Exit
    (args_1 (tuple1_encode encode_signed) (tuple1_decode decode_signed))
    (returns_0 encode_infallible decode_infallible)"

definition Wait_call :: "crate_fns \<Rightarrow> (wait_target \<times> user_mut_ref, (proc_id, syscall_error) result) syscall_desc" where
  "Wait_call X = syscall_desc SC_Wait
    (args_3 (tuple_encode_21 encode_wait_target encode_user_mut_ref)
     (tuple_decode_21 decode_wait_target decode_user_mut_ref))
    (returns_11 X encode_proc_id decode_proc_id)"

definition Pipe_call :: "crate_fns \<Rightarrow> (user_mut_ref, (unit, syscall_error) result) syscall_desc" where
  "Pipe_call X = syscall_desc SC_Pipe
    (args_1 (tuple1_encode encode_user_mut_ref) (tuple1_decode decode_user_mut_ref))
    (returns_01 X encode_unit decode_unit)"

definition Read_call :: "crate_fns \<Rightarrow> (raw_fd \<times> user_mut_slice, (usize, syscall_error) result) syscall_desc" where
  "Read_call X = syscall_desc SC_Read
    (args_3 (tuple_encode_12 encode_raw_fd encode_user_mut_slice)
     (tuple_decode_12 decode_raw_fd decode_user_mut_slice))
    (returns_11 X encode_usize decode_usize)"

definition Kill_call :: "crate_fns \<Rightarrow> (proc_id, (unit, syscall_error) result) syscall_desc" where
  "Kill_call X = syscall_desc SC_Kill
    (args_1 (tuple1_encode encode_proc_id) (tuple1_decode decode_proc_id))
    (returns_01 X encode_unit decode_unit)"

definition Exec_call :: "crate_fns \<Rightarrow> (user_slice \<times> user_slice, (infallible, syscall_error) result) syscall_desc" where
  "Exec_call X = syscall_desc SC_Exec
    (args_4 (tuple_encode_22 encode_user_slice encode_user_slice)
     (tuple_decode_22 decode_user_slice decode_user_slice))
    (returns_01 X encode_infallible decode_infallible)"

definition Fstat_call :: "crate_fns \<Rightarrow> (raw_fd \<times> user_mut_ref, (unit, syscall_error) result) syscall_desc" where
  "Fstat_call X = syscall_desc SC_Fstat
    (args_2 (tuple_encode_11 encode_raw_fd encode_user_mut_ref)
     (tuple_decode_11 decode_raw_fd decode_user_mut_ref))
    (returns_01 X encode_unit decode_unit)"

definition Chdir_call :: "crate_fns \<Rightarrow> (user_slice, (unit, syscall_error) result) syscall_desc" where
  "Chdir_call X = syscall_desc SC_Chdir
    (args_2 (tuple1_encode encode_user_slice) (tuple1_decode decode_user_slice))
    (returns_01 X encode_unit decode_unit)"

definition Dup_call :: "crate_fns \<Rightarrow> (raw_fd, (raw_fd, syscall_error) result) syscall_desc" where
  "Dup_call X = syscall_desc SC_Dup
    (args_1 (tuple1_encode encode_raw_fd) (tuple1_decode decode_raw_fd))
    (returns_11 X encode_raw_fd decode_raw_fd)"

definition Sbrk_call :: "crate_fns \<Rightarrow> (isize, (usize, syscall_error) result) syscall_desc" where
  "Sbrk_call X = syscall_desc SC_Sbrk
    (args_1 (tuple1_encode encode_isize) (tuple1_decode decode_isize))
    (returns_11 X encode_usize decode_usize)"

definition Sleep_call :: "crate_fns \<Rightarrow> (duration, (unit, syscall_error) result) syscall_desc" where
  "Sleep_call X = syscall_desc SC_Sleep
    (args_2 (tuple1_encode encode_duration) (tuple1_decode decode_duration))
    (returns_01 X encode_unit decode_unit)"

definition Open_call :: "crate_fns \<Rightarrow> (user_slice \<times> usize, (raw_fd, syscall_error) result) syscall_desc" where
  "Open_call X = syscall_desc SC_Open
    (args_3 (tuple_encode_21 encode_user_slice encode_open_flags)
     (tuple_decode_21 decode_user_slice (decode_open_flags X)))
    (returns_11 X encode_raw_fd decode_raw_fd)"

definition Write_call :: "crate_fns \<Rightarrow> (raw_fd \<times> user_slice, (usize, syscall_error) result) syscall_desc" where
  "Write_call X = syscall_desc SC_Write
    (args_3 (tuple_encode_12 encode_raw_fd encode_user_slice)
     (tuple_decode_12 decode_raw_fd decode_user_slice))
    (returns_11 X encode_usize decode_usize)"

definition Mknod_call :: "crate_fns \<Rightarrow> (user_slice \<times> u32 \<times> u16, (unit, syscall_error) result) syscall_desc" where
  "Mknod_call X = syscall_desc SC_Mknod
    (args_4 (tuple_encode_211 encode_user_slice encode_unsigned encode_unsigned)
     (tuple_decode_211 decode_user_slice decode_unsigned decode_unsigned))
    (returns_01 X encode_unit decode_unit)"

definition Unlink_call :: "crate_fns \<Rightarrow> (user_slice, (unit, syscall_error) result) syscall_desc" where
  "Unlink_call X = syscall_desc SC_Unlink
    (args_2 (tuple1_encode encode_user_slice) (tuple1_decode decode_user_slice))
    (returns_01 X encode_unit decode_unit)"

definition Link_call :: "crate_fns \<Rightarrow> (user_slice \<times> user_slice, (unit, syscall_error) result) syscall_desc" where
  "Link_call X = syscall_desc SC_Link
    (args_4 (tuple_encode_22 encode_user_slice encode_user_slice)
     (tuple_decode_22 decode_user_slice decode_user_slice))
    (returns_01 X encode_unit decode_unit)"

definition Mkdir_call :: "crate_fns \<Rightarrow> (user_slice, (unit, syscall_error) result) syscall_desc" where
  "Mkdir_call X = syscall_desc SC_Mkdir
    (args_2 (tuple1_encode encode_user_slice) (tuple1_decode decode_user_slice))
    (returns_01 X encode_unit decode_unit)"

definition Close_call :: "crate_fns \<Rightarrow> (raw_fd, (unit, syscall_error) result) syscall_desc" where
  "Close_call X = syscall_desc SC_Close
    (args_1 (tuple1_encode encode_raw_fd) (tuple1_decode decode_raw_fd))
    (returns_01 X encode_unit decode_unit)"

definition AlarmSet_call :: "crate_fns \<Rightarrow> (duration \<times> user_ref, (unit, syscall_error) result) syscall_desc" where
  "AlarmSet_call X = syscall_desc SC_AlarmSet
    (args_3 (tuple_encode_21 encode_duration encode_user_ref)
     (tuple_decode_21 decode_duration decode_user_ref))
    (returns_01 X encode_unit decode_unit)"

definition AlarmClear_call :: "crate_fns \<Rightarrow> (unit, (unit, syscall_error) result) syscall_desc" where
  "AlarmClear_call X = syscall_desc SC_AlarmClear
    (args_0 encode_unit decode_unit)
    (returns_01 X encode_unit decode_unit)"

definition SignalReturn_call :: "crate_fns \<Rightarrow> (unit, (infallible, syscall_error) result) syscall_desc" where
  "SignalReturn_call X = syscall_desc SC_SignalReturn
    (args_0 encode_unit decode_unit)
    (returns_01 X encode_infallible decode_infallible)"

definition Bind_call :: "crate_fns \<Rightarrow> (u16, (unit, syscall_error) result) syscall_desc" where
  "Bind_call X = syscall_desc SC_Bind
    (args_1 (tuple1_encode encode_unsigned) (tuple1_decode decode_unsigned))
    (returns_01 X encode_unit decode_unit)"

definition Unbind_call :: "crate_fns \<Rightarrow> (u16, (unit, syscall_error) result) syscall_desc" where
  "Unbind_call X = syscall_desc SC_Unbind
    (args_1 (tuple1_encode encode_unsigned) (tuple1_decode decode_unsigned))
    (returns_01 X encode_unit decode_unit)"

definition Recv_call :: "crate_fns \<Rightarrow> (u16 \<times> user_mut_ref \<times> user_mut_slice, (usize, syscall_error) result) syscall_desc" where
  "Recv_call X = syscall_desc SC_Recv
    (args_4 (tuple_encode_112 encode_unsigned encode_user_mut_ref encode_user_mut_slice)
     (tuple_decode_112 decode_unsigned decode_user_mut_ref decode_user_mut_slice))
    (returns_11 X encode_usize decode_usize)"

definition Send_call :: "crate_fns \<Rightarrow> (u16 \<times> socket_addr_v4 \<times> user_slice, (usize, syscall_error) result) syscall_desc" where
  "Send_call X = syscall_desc SC_Send
    (args_4 (tuple_encode_112 encode_unsigned encode_socket_addr_v4 encode_user_slice)
     (tuple_decode_112 decode_unsigned decode_socket_addr_v4 decode_user_slice))
    (returns_11 X encode_usize decode_usize)"

definition GetSystemInfo_call :: "crate_fns \<Rightarrow> (user_mut_ref, (unit, syscall_error) result) syscall_desc" where
  "GetSystemInfo_call X = syscall_desc SC_GetSystemInfo
    (args_1 (tuple1_encode encode_user_mut_ref) (tuple1_decode decode_user_mut_ref))
    (returns_01 X encode_unit decode_unit)"

definition Reboot_call :: "crate_fns \<Rightarrow> (unit, (infallible, syscall_error) result) syscall_desc" where
  "Reboot_call X = syscall_desc SC_Reboot
    (args_0 encode_unit decode_unit)
    (returns_01 X encode_infallible decode_infallible)"

definition Halt_call :: "crate_fns \<Rightarrow> (u16, (infallible, syscall_error) result) syscall_desc" where
  "Halt_call X = syscall_desc SC_Halt
    (args_1 (tuple1_encode encode_unsigned) (tuple1_decode decode_unsigned))
    (returns_01 X encode_infallible decode_infallible)"

definition Abort_call :: "crate_fns \<Rightarrow> (u16, (infallible, syscall_error) result) syscall_desc" where
  "Abort_call X = syscall_desc SC_Abort
    (args_1 (tuple1_encode encode_unsigned) (tuple1_decode decode_unsigned))
    (returns_01 X encode_infallible decode_infallible)"

definition Trace_call :: "(u64, unit) syscall_desc" where
  "Trace_call = syscall_desc SC_Trace
    (args_1 (tuple1_encode encode_u64) (tuple1_decode decode_u64))
    (returns_0 encode_unit decode_unit)"

definition DumpKernelPageTable_call :: "(unit, unit) syscall_desc" where
  "DumpKernelPageTable_call = syscall_desc SC_DumpKernelPageTable
    (args_0 encode_unit decode_unit)
    (returns_0 encode_unit decode_unit)"

definition DumpUserPageTable_call :: "(unit, unit) syscall_desc" where
  "DumpUserPageTable_call = syscall_desc SC_DumpUserPageTable
    (args_0 encode_unit decode_unit)
    (returns_0 encode_unit decode_unit)"

section \<open>The handlers of the kernel\<close>

text \<open>Three calls have an argument or a result of their own on the kernel's side.\<close>

definition decode_exit_arg :: "usize \<Rightarrow> (i32, register_decode_error) outcome" where
  "decode_exit_arg r = (case decode_signed r of Ok v \<Rightarrow> Ok v | Err e \<Rightarrow> Ok (- 1) | Panic \<Rightarrow> Panic)"

datatype exec_return = Exec_Ok usize usize | Exec_Err syscall_error

datatype signal_return = Signal_Ok usize usize | Signal_Err syscall_error

fun exec_return_encode :: "exec_return \<Rightarrow> return_value" where
  "exec_return_encode (Exec_Ok a0 a1) = return_of_2 (a0, a1)"
| "exec_return_encode (Exec_Err e) =
     return_of_2 (result_encode_01 encode_infallible encode_syscall_error (Inl e))"

fun signal_return_encode :: "signal_return \<Rightarrow> return_value" where
  "signal_return_encode (Signal_Ok a0 a1) = return_of_2 (a0, a1)"
| "signal_return_encode (Signal_Err e) =
     return_of_2 (result_encode_01 encode_infallible encode_syscall_error (Inl e))"

record 'p handlers =
  h_fork :: "('p, unit, (proc_id option, syscall_error) result) handler"
  h_exit :: "('p, i32, infallible) handler"
  h_wait :: "('p, wait_target \<times> user_mut_ref, (proc_id, syscall_error) result) handler"
  h_pipe :: "('p, user_mut_ref, (unit, syscall_error) result) handler"
  h_read :: "('p, raw_fd \<times> user_mut_slice, (usize, syscall_error) result) handler"
  h_kill :: "('p, proc_id, (unit, syscall_error) result) handler"
  h_exec :: "('p, user_slice \<times> user_slice, exec_return) handler"
  h_fstat :: "('p, raw_fd \<times> user_mut_ref, (unit, syscall_error) result) handler"
  h_chdir :: "('p, user_slice, (unit, syscall_error) result) handler"
  h_dup :: "('p, raw_fd, (raw_fd, syscall_error) result) handler"
  h_sbrk :: "('p, isize, (usize, syscall_error) result) handler"
  h_sleep :: "('p, duration, (unit, syscall_error) result) handler"
  h_open :: "('p, user_slice \<times> usize, (raw_fd, syscall_error) result) handler"
  h_write :: "('p, raw_fd \<times> user_slice, (usize, syscall_error) result) handler"
  h_mknod :: "('p, user_slice \<times> u32 \<times> u16, (unit, syscall_error) result) handler"
  h_unlink :: "('p, user_slice, (unit, syscall_error) result) handler"
  h_link :: "('p, user_slice \<times> user_slice, (unit, syscall_error) result) handler"
  h_mkdir :: "('p, user_slice, (unit, syscall_error) result) handler"
  h_close :: "('p, raw_fd, (unit, syscall_error) result) handler"
  h_alarmset :: "('p, duration \<times> user_ref, (unit, syscall_error) result) handler"
  h_alarmclear :: "('p, unit, (unit, syscall_error) result) handler"
  h_signalreturn :: "('p, unit, signal_return) handler"
  h_bind :: "('p, u16, (unit, syscall_error) result) handler"
  h_unbind :: "('p, u16, (unit, syscall_error) result) handler"
  h_recv :: "('p, u16 \<times> user_mut_ref \<times> user_mut_slice, (usize, syscall_error) result) handler"
  h_send :: "('p, u16 \<times> socket_addr_v4 \<times> user_slice, (usize, syscall_error) result) handler"
  h_getsysteminfo :: "('p, user_mut_ref, (unit, syscall_error) result) handler"
  h_reboot :: "('p, unit, (infallible, syscall_error) result) handler"
  h_halt :: "('p, u16, (infallible, syscall_error) result) handler"
  h_abort :: "('p, u16, (infallible, syscall_error) result) handler"
  h_trace :: "('p, u64, unit) handler"
  h_dumpkernelpagetable :: "('p, unit, unit) handler"
  h_dumpuserpagetable :: "('p, unit, unit) handler"

definition into_return_infallible :: "register_decode_error \<Rightarrow> 'p \<Rightarrow> ('r, 'p) call_end" where
  "into_return_infallible e s = Panicked"

definition into_return_result ::
  "register_decode_error \<Rightarrow> 'p \<Rightarrow> (('r, syscall_error) result, 'p) call_end" where
  "into_return_result e s = Returned (Inl (syscall_error_of (SyscallDecode e))) s"

definition trace_bit :: "syscall_code \<Rightarrow> 'm proc_private_scheme \<Rightarrow> bool" where
  "trace_bit c s \<longleftrightarrow> trace_mask s AND push_bit (unat (syscall_code_repr c)) 1 \<noteq> 0"

definition trace_call ::
  "syscall_code \<Rightarrow> (user_registers \<Rightarrow> ('a, 'x) outcome) \<Rightarrow> bool \<Rightarrow> 'm proc_private_scheme \<Rightarrow>
     (unit, 'm proc_private_scheme) call_end" where
  "trace_call c dec ret s =
     (case dec (registers s) of
        Ok a \<Rightarrow> Returned () (s\<lparr>traced := traced s @ [Trace_Line c True ret]\<rparr>)
      | Err e \<Rightarrow> Returned () (s\<lparr>traced := traced s @ [Trace_Line c False ret]\<rparr>)
      | Panic \<Rightarrow> Panicked)"

definition trace_before where
  "trace_before c dec s =
     (if c = SC_Exit \<and> trace_bit SC_Exit s then trace_call c dec False s else Returned () s)"

definition trace_after where
  "trace_after c dec s = (if trace_bit c s then trace_call c dec True s else Returned () s)"

definition handle ::
  "syscall_code \<Rightarrow> (user_registers \<Rightarrow> ('a, register_decode_error) outcome) \<Rightarrow>
     (register_decode_error \<Rightarrow> 'm proc_private_scheme \<Rightarrow> ('r, 'm proc_private_scheme) call_end) \<Rightarrow>
     ('r \<Rightarrow> return_value) \<Rightarrow> ('m proc_private_scheme, 'a, 'r) handler \<Rightarrow> 'm proc_private_scheme \<Rightarrow>
     (return_value, 'm proc_private_scheme) call_end" where
  "handle c dec into_return enc call s =
     cbind (trace_before c dec s) (\<lambda>_ s.
     cbind (case dec (registers s) of
              Ok arg \<Rightarrow> call s arg
            | Err e \<Rightarrow> into_return e s
            | Panic \<Rightarrow> Panicked) (\<lambda>ret s.
     cbind (trace_after c dec s) (\<lambda>_ s.
     Returned (enc ret) s)))"

definition handle_of where
  "handle_of D into_return call s = handle (CODE D) (arg_decode D) into_return (ret_encode D) call s"

definition dispatch ::
  "crate_fns \<Rightarrow> 'm proc_private_scheme handlers \<Rightarrow> syscall_code \<Rightarrow> 'm proc_private_scheme \<Rightarrow>
     (return_value, 'm proc_private_scheme) call_end" where
  "dispatch X H code s = (case code of
  SC_Fork \<Rightarrow> handle_of (Fork_call X) into_return_infallible (h_fork H) s
  | SC_Exit \<Rightarrow> handle SC_Exit (decode_arg_1 decode_exit_arg) into_return_infallible (ret_encode Exit_call) (h_exit H) s
  | SC_Wait \<Rightarrow> handle_of (Wait_call X) into_return_result (h_wait H) s
  | SC_Pipe \<Rightarrow> handle_of (Pipe_call X) into_return_infallible (h_pipe H) s
  | SC_Read \<Rightarrow> handle_of (Read_call X) into_return_infallible (h_read H) s
  | SC_Kill \<Rightarrow> handle_of (Kill_call X) into_return_result (h_kill H) s
  | SC_Exec \<Rightarrow> handle SC_Exec (arg_decode (Exec_call X)) into_return_infallible exec_return_encode (h_exec H) s
  | SC_Fstat \<Rightarrow> handle_of (Fstat_call X) into_return_infallible (h_fstat H) s
  | SC_Chdir \<Rightarrow> handle_of (Chdir_call X) into_return_infallible (h_chdir H) s
  | SC_Dup \<Rightarrow> handle_of (Dup_call X) into_return_infallible (h_dup H) s
  | SC_Sbrk \<Rightarrow> handle_of (Sbrk_call X) into_return_infallible (h_sbrk H) s
  | SC_Sleep \<Rightarrow> handle_of (Sleep_call X) into_return_result (h_sleep H) s
  | SC_Open \<Rightarrow> handle_of (Open_call X) into_return_result (h_open H) s
  | SC_Write \<Rightarrow> handle_of (Write_call X) into_return_infallible (h_write H) s
  | SC_Mknod \<Rightarrow> handle_of (Mknod_call X) into_return_result (h_mknod H) s
  | SC_Unlink \<Rightarrow> handle_of (Unlink_call X) into_return_infallible (h_unlink H) s
  | SC_Link \<Rightarrow> handle_of (Link_call X) into_return_infallible (h_link H) s
  | SC_Mkdir \<Rightarrow> handle_of (Mkdir_call X) into_return_infallible (h_mkdir H) s
  | SC_Close \<Rightarrow> handle_of (Close_call X) into_return_infallible (h_close H) s
  | SC_AlarmSet \<Rightarrow> handle_of (AlarmSet_call X) into_return_result (h_alarmset H) s
  | SC_AlarmClear \<Rightarrow> handle_of (AlarmClear_call X) into_return_infallible (h_alarmclear H) s
  | SC_SignalReturn \<Rightarrow> handle SC_SignalReturn (arg_decode (SignalReturn_call X)) into_return_infallible signal_return_encode (h_signalreturn H) s
  | SC_Bind \<Rightarrow> handle_of (Bind_call X) into_return_result (h_bind H) s
  | SC_Unbind \<Rightarrow> handle_of (Unbind_call X) into_return_result (h_unbind H) s
  | SC_Recv \<Rightarrow> handle_of (Recv_call X) into_return_result (h_recv H) s
  | SC_Send \<Rightarrow> handle_of (Send_call X) into_return_result (h_send H) s
  | SC_GetSystemInfo \<Rightarrow> handle_of (GetSystemInfo_call X) into_return_infallible (h_getsysteminfo H) s
  | SC_Reboot \<Rightarrow> handle_of (Reboot_call X) into_return_infallible (h_reboot H) s
  | SC_Halt \<Rightarrow> handle_of (Halt_call X) into_return_result (h_halt H) s
  | SC_Abort \<Rightarrow> handle_of (Abort_call X) into_return_result (h_abort H) s
  | SC_Trace \<Rightarrow> handle_of Trace_call into_return_infallible (h_trace H) s
  | SC_DumpKernelPageTable \<Rightarrow> handle_of DumpKernelPageTable_call into_return_infallible (h_dumpkernelpagetable H) s
  | SC_DumpUserPageTable \<Rightarrow> handle_of DumpUserPageTable_call into_return_infallible (h_dumpuserpagetable H) s)"

definition syscall ::
  "crate_fns \<Rightarrow> 'm proc_private_scheme handlers \<Rightarrow> 'm proc_private_scheme \<Rightarrow>
     (unit, 'm proc_private_scheme) call_end" where
  "syscall X H s =
     (case syscall_code_from_repr X (ur_a7 (registers s)) of
        None \<Rightarrow> Returned () (s\<lparr>trapframe := (trapframe s)
          \<lparr>tf_user_registers := (registers s)\<lparr>ur_a0 := usize_MAX\<rparr>\<rparr>\<rparr>)
      | Some ty \<Rightarrow> cbind (dispatch X H ty s) (\<lambda>ret s.
          Returned () (s\<lparr>trapframe := store_return ret (trapframe s)\<rparr>)))"

section \<open>A call from the user library\<close>

text \<open>
  \<open>call_raw\<close> runs \<open>kern\<close> on the registers at \<^verbatim>\<open>ecall\<close> and reads \<^verbatim>\<open>a0\<close> and \<^verbatim>\<open>a1\<close> when it returns;
  \<open>try_call\<close> decodes them and \<open>call_unwrap\<close> panics when that fails.
\<close>

definition ecall_state ::
  "('a, 'r) syscall_desc \<Rightarrow> 'a \<Rightarrow> 'm proc_private_scheme \<Rightarrow> 'm proc_private_scheme" where
  "ecall_state D arg s =
     s\<lparr>trapframe := (trapframe s)\<lparr>tf_user_registers := arg_load D arg (CODE D) (registers s)\<rparr>\<rparr>"

definition try_call ::
  "('m proc_private_scheme \<Rightarrow> (unit, 'm proc_private_scheme) call_end) \<Rightarrow> ('a, 'r) syscall_desc \<Rightarrow>
     'a \<Rightarrow> 'm proc_private_scheme \<Rightarrow>
     (('r, register_decode_error) outcome, 'm proc_private_scheme) call_end" where
  "try_call kern D arg s =
     cbind (kern (ecall_state D arg s)) (\<lambda>_ s.
     Returned (ret_decode D (ur_a0 (registers s), ur_a1 (registers s))) s)"

definition call_unwrap where
  "call_unwrap kern D arg s =
     cbind (try_call kern D arg s) (\<lambda>r s. case r of Ok v \<Rightarrow> Returned v s | _ \<Rightarrow> Panicked)"

section \<open>The calls as typed operations\<close>

text \<open>
  The specification of the path: a call with its typed arguments, the registers it is made with, and
  the handler of that call run on those arguments.
\<close>

definition run_handler where
  "run_handler c dec enc call a s =
     cbind (trace_before c dec s) (\<lambda>_ s.
     cbind (call s a) (\<lambda>ret s.
     cbind (trace_after c dec s) (\<lambda>_ s.
     Returned (enc ret) s)))"

datatype call_arg =
    A_Fork unit
  | A_Exit i32
  | A_Wait "wait_target \<times> user_mut_ref"
  | A_Pipe user_mut_ref
  | A_Read "raw_fd \<times> user_mut_slice"
  | A_Kill proc_id
  | A_Exec "user_slice \<times> user_slice"
  | A_Fstat "raw_fd \<times> user_mut_ref"
  | A_Chdir user_slice
  | A_Dup raw_fd
  | A_Sbrk isize
  | A_Sleep duration
  | A_Open "user_slice \<times> usize"
  | A_Write "raw_fd \<times> user_slice"
  | A_Mknod "user_slice \<times> u32 \<times> u16"
  | A_Unlink user_slice
  | A_Link "user_slice \<times> user_slice"
  | A_Mkdir user_slice
  | A_Close raw_fd
  | A_AlarmSet "duration \<times> user_ref"
  | A_AlarmClear unit
  | A_SignalReturn unit
  | A_Bind u16
  | A_Unbind u16
  | A_Recv "u16 \<times> user_mut_ref \<times> user_mut_slice"
  | A_Send "u16 \<times> socket_addr_v4 \<times> user_slice"
  | A_GetSystemInfo user_mut_ref
  | A_Reboot unit
  | A_Halt u16
  | A_Abort u16
  | A_Trace u64
  | A_DumpKernelPageTable unit
  | A_DumpUserPageTable unit

primrec ecall :: "crate_fns \<Rightarrow> call_arg \<Rightarrow> 'm proc_private_scheme \<Rightarrow> 'm proc_private_scheme" where
  "ecall X (A_Fork a) s = ecall_state (Fork_call X) a s"
| "ecall X (A_Exit a) s = ecall_state Exit_call a s"
| "ecall X (A_Wait a) s = ecall_state (Wait_call X) a s"
| "ecall X (A_Pipe a) s = ecall_state (Pipe_call X) a s"
| "ecall X (A_Read a) s = ecall_state (Read_call X) a s"
| "ecall X (A_Kill a) s = ecall_state (Kill_call X) a s"
| "ecall X (A_Exec a) s = ecall_state (Exec_call X) a s"
| "ecall X (A_Fstat a) s = ecall_state (Fstat_call X) a s"
| "ecall X (A_Chdir a) s = ecall_state (Chdir_call X) a s"
| "ecall X (A_Dup a) s = ecall_state (Dup_call X) a s"
| "ecall X (A_Sbrk a) s = ecall_state (Sbrk_call X) a s"
| "ecall X (A_Sleep a) s = ecall_state (Sleep_call X) a s"
| "ecall X (A_Open a) s = ecall_state (Open_call X) a s"
| "ecall X (A_Write a) s = ecall_state (Write_call X) a s"
| "ecall X (A_Mknod a) s = ecall_state (Mknod_call X) a s"
| "ecall X (A_Unlink a) s = ecall_state (Unlink_call X) a s"
| "ecall X (A_Link a) s = ecall_state (Link_call X) a s"
| "ecall X (A_Mkdir a) s = ecall_state (Mkdir_call X) a s"
| "ecall X (A_Close a) s = ecall_state (Close_call X) a s"
| "ecall X (A_AlarmSet a) s = ecall_state (AlarmSet_call X) a s"
| "ecall X (A_AlarmClear a) s = ecall_state (AlarmClear_call X) a s"
| "ecall X (A_SignalReturn a) s = ecall_state (SignalReturn_call X) a s"
| "ecall X (A_Bind a) s = ecall_state (Bind_call X) a s"
| "ecall X (A_Unbind a) s = ecall_state (Unbind_call X) a s"
| "ecall X (A_Recv a) s = ecall_state (Recv_call X) a s"
| "ecall X (A_Send a) s = ecall_state (Send_call X) a s"
| "ecall X (A_GetSystemInfo a) s = ecall_state (GetSystemInfo_call X) a s"
| "ecall X (A_Reboot a) s = ecall_state (Reboot_call X) a s"
| "ecall X (A_Halt a) s = ecall_state (Halt_call X) a s"
| "ecall X (A_Abort a) s = ecall_state (Abort_call X) a s"
| "ecall X (A_Trace a) s = ecall_state Trace_call a s"
| "ecall X (A_DumpKernelPageTable a) s = ecall_state DumpKernelPageTable_call a s"
| "ecall X (A_DumpUserPageTable a) s = ecall_state DumpUserPageTable_call a s"

primrec valid_call_arg :: "call_arg \<Rightarrow> bool" where
  "valid_call_arg (A_Fork a) \<longleftrightarrow> valid_any a"
| "valid_call_arg (A_Exit a) \<longleftrightarrow> valid_any a"
| "valid_call_arg (A_Wait a) \<longleftrightarrow> pred_prod valid_wait_target valid_any a"
| "valid_call_arg (A_Pipe a) \<longleftrightarrow> valid_any a"
| "valid_call_arg (A_Read a) \<longleftrightarrow> pred_prod valid_any valid_any a"
| "valid_call_arg (A_Kill a) \<longleftrightarrow> valid_proc_id a"
| "valid_call_arg (A_Exec a) \<longleftrightarrow> pred_prod valid_any valid_any a"
| "valid_call_arg (A_Fstat a) \<longleftrightarrow> pred_prod valid_any valid_any a"
| "valid_call_arg (A_Chdir a) \<longleftrightarrow> valid_any a"
| "valid_call_arg (A_Dup a) \<longleftrightarrow> valid_any a"
| "valid_call_arg (A_Sbrk a) \<longleftrightarrow> valid_any a"
| "valid_call_arg (A_Sleep a) \<longleftrightarrow> valid_duration a"
| "valid_call_arg (A_Open a) \<longleftrightarrow> pred_prod valid_any valid_open_flags a"
| "valid_call_arg (A_Write a) \<longleftrightarrow> pred_prod valid_any valid_any a"
| "valid_call_arg (A_Mknod a) \<longleftrightarrow> pred_prod valid_any (pred_prod valid_any valid_any) a"
| "valid_call_arg (A_Unlink a) \<longleftrightarrow> valid_any a"
| "valid_call_arg (A_Link a) \<longleftrightarrow> pred_prod valid_any valid_any a"
| "valid_call_arg (A_Mkdir a) \<longleftrightarrow> valid_any a"
| "valid_call_arg (A_Close a) \<longleftrightarrow> valid_any a"
| "valid_call_arg (A_AlarmSet a) \<longleftrightarrow> pred_prod valid_duration valid_any a"
| "valid_call_arg (A_AlarmClear a) \<longleftrightarrow> valid_any a"
| "valid_call_arg (A_SignalReturn a) \<longleftrightarrow> valid_any a"
| "valid_call_arg (A_Bind a) \<longleftrightarrow> valid_any a"
| "valid_call_arg (A_Unbind a) \<longleftrightarrow> valid_any a"
| "valid_call_arg (A_Recv a) \<longleftrightarrow> pred_prod valid_any (pred_prod valid_any valid_any) a"
| "valid_call_arg (A_Send a) \<longleftrightarrow> pred_prod valid_any (pred_prod valid_any valid_any) a"
| "valid_call_arg (A_GetSystemInfo a) \<longleftrightarrow> valid_any a"
| "valid_call_arg (A_Reboot a) \<longleftrightarrow> valid_any a"
| "valid_call_arg (A_Halt a) \<longleftrightarrow> valid_any a"
| "valid_call_arg (A_Abort a) \<longleftrightarrow> valid_any a"
| "valid_call_arg (A_Trace a) \<longleftrightarrow> valid_any a"
| "valid_call_arg (A_DumpKernelPageTable a) \<longleftrightarrow> valid_any a"
| "valid_call_arg (A_DumpUserPageTable a) \<longleftrightarrow> valid_any a"

primrec run_call ::
  "crate_fns \<Rightarrow> 'm proc_private_scheme handlers \<Rightarrow> call_arg \<Rightarrow> 'm proc_private_scheme \<Rightarrow>
     (return_value, 'm proc_private_scheme) call_end" where
  "run_call X H (A_Fork a) s = run_handler SC_Fork (arg_decode (Fork_call X)) (ret_encode (Fork_call X)) (h_fork H) a s"
| "run_call X H (A_Exit a) s = run_handler SC_Exit (decode_arg_1 decode_exit_arg) (ret_encode Exit_call) (h_exit H) a s"
| "run_call X H (A_Wait a) s = run_handler SC_Wait (arg_decode (Wait_call X)) (ret_encode (Wait_call X)) (h_wait H) a s"
| "run_call X H (A_Pipe a) s = run_handler SC_Pipe (arg_decode (Pipe_call X)) (ret_encode (Pipe_call X)) (h_pipe H) a s"
| "run_call X H (A_Read a) s = run_handler SC_Read (arg_decode (Read_call X)) (ret_encode (Read_call X)) (h_read H) a s"
| "run_call X H (A_Kill a) s = run_handler SC_Kill (arg_decode (Kill_call X)) (ret_encode (Kill_call X)) (h_kill H) a s"
| "run_call X H (A_Exec a) s = run_handler SC_Exec (arg_decode (Exec_call X)) exec_return_encode (h_exec H) a s"
| "run_call X H (A_Fstat a) s = run_handler SC_Fstat (arg_decode (Fstat_call X)) (ret_encode (Fstat_call X)) (h_fstat H) a s"
| "run_call X H (A_Chdir a) s = run_handler SC_Chdir (arg_decode (Chdir_call X)) (ret_encode (Chdir_call X)) (h_chdir H) a s"
| "run_call X H (A_Dup a) s = run_handler SC_Dup (arg_decode (Dup_call X)) (ret_encode (Dup_call X)) (h_dup H) a s"
| "run_call X H (A_Sbrk a) s = run_handler SC_Sbrk (arg_decode (Sbrk_call X)) (ret_encode (Sbrk_call X)) (h_sbrk H) a s"
| "run_call X H (A_Sleep a) s = run_handler SC_Sleep (arg_decode (Sleep_call X)) (ret_encode (Sleep_call X)) (h_sleep H) a s"
| "run_call X H (A_Open a) s = run_handler SC_Open (arg_decode (Open_call X)) (ret_encode (Open_call X)) (h_open H) a s"
| "run_call X H (A_Write a) s = run_handler SC_Write (arg_decode (Write_call X)) (ret_encode (Write_call X)) (h_write H) a s"
| "run_call X H (A_Mknod a) s = run_handler SC_Mknod (arg_decode (Mknod_call X)) (ret_encode (Mknod_call X)) (h_mknod H) a s"
| "run_call X H (A_Unlink a) s = run_handler SC_Unlink (arg_decode (Unlink_call X)) (ret_encode (Unlink_call X)) (h_unlink H) a s"
| "run_call X H (A_Link a) s = run_handler SC_Link (arg_decode (Link_call X)) (ret_encode (Link_call X)) (h_link H) a s"
| "run_call X H (A_Mkdir a) s = run_handler SC_Mkdir (arg_decode (Mkdir_call X)) (ret_encode (Mkdir_call X)) (h_mkdir H) a s"
| "run_call X H (A_Close a) s = run_handler SC_Close (arg_decode (Close_call X)) (ret_encode (Close_call X)) (h_close H) a s"
| "run_call X H (A_AlarmSet a) s = run_handler SC_AlarmSet (arg_decode (AlarmSet_call X)) (ret_encode (AlarmSet_call X)) (h_alarmset H) a s"
| "run_call X H (A_AlarmClear a) s = run_handler SC_AlarmClear (arg_decode (AlarmClear_call X)) (ret_encode (AlarmClear_call X)) (h_alarmclear H) a s"
| "run_call X H (A_SignalReturn a) s = run_handler SC_SignalReturn (arg_decode (SignalReturn_call X)) signal_return_encode (h_signalreturn H) a s"
| "run_call X H (A_Bind a) s = run_handler SC_Bind (arg_decode (Bind_call X)) (ret_encode (Bind_call X)) (h_bind H) a s"
| "run_call X H (A_Unbind a) s = run_handler SC_Unbind (arg_decode (Unbind_call X)) (ret_encode (Unbind_call X)) (h_unbind H) a s"
| "run_call X H (A_Recv a) s = run_handler SC_Recv (arg_decode (Recv_call X)) (ret_encode (Recv_call X)) (h_recv H) a s"
| "run_call X H (A_Send a) s = run_handler SC_Send (arg_decode (Send_call X)) (ret_encode (Send_call X)) (h_send H) a s"
| "run_call X H (A_GetSystemInfo a) s = run_handler SC_GetSystemInfo (arg_decode (GetSystemInfo_call X)) (ret_encode (GetSystemInfo_call X)) (h_getsysteminfo H) a s"
| "run_call X H (A_Reboot a) s = run_handler SC_Reboot (arg_decode (Reboot_call X)) (ret_encode (Reboot_call X)) (h_reboot H) a s"
| "run_call X H (A_Halt a) s = run_handler SC_Halt (arg_decode (Halt_call X)) (ret_encode (Halt_call X)) (h_halt H) a s"
| "run_call X H (A_Abort a) s = run_handler SC_Abort (arg_decode (Abort_call X)) (ret_encode (Abort_call X)) (h_abort H) a s"
| "run_call X H (A_Trace a) s = run_handler SC_Trace (arg_decode Trace_call) (ret_encode Trace_call) (h_trace H) a s"
| "run_call X H (A_DumpKernelPageTable a) s = run_handler SC_DumpKernelPageTable (arg_decode DumpKernelPageTable_call) (ret_encode DumpKernelPageTable_call) (h_dumpkernelpagetable H) a s"
| "run_call X H (A_DumpUserPageTable a) s = run_handler SC_DumpUserPageTable (arg_decode DumpUserPageTable_call) (ret_encode DumpUserPageTable_call) (h_dumpuserpagetable H) a s"

definition store_result :: "return_value \<Rightarrow> 'm proc_private_scheme \<Rightarrow> (unit, 'm proc_private_scheme) call_end" where
  "store_result ret s = Returned () (s\<lparr>trapframe := store_return ret (trapframe s)\<rparr>)"

section \<open>The contract of a system call\<close>

definition args_ok :: "('a \<Rightarrow> syscall_code \<Rightarrow> user_registers \<Rightarrow> user_registers) \<times>
    (user_registers \<Rightarrow> ('a, register_decode_error) outcome) \<Rightarrow> ('a \<Rightarrow> bool) \<Rightarrow> bool" where
  "args_ok A valid \<longleftrightarrow>
     (\<forall>a c ur. ur_a7 (fst A a c ur) = syscall_code_repr c \<and>
       (valid a \<longrightarrow> snd A (fst A a c ur) = Ok a))"

definition rets_ok :: "('r \<Rightarrow> return_value) \<times>
    (usize \<times> usize \<Rightarrow> ('r, register_decode_error) outcome) \<Rightarrow> ('r \<Rightarrow> bool) \<Rightarrow> bool" where
  "rets_ok R valid \<longleftrightarrow>
     (\<forall>r tf. valid r \<longrightarrow>
        (let ur = tf_user_registers (store_return (fst R r) tf) in snd R (ur_a0 ur, ur_a1 ur) = Ok r))"

locale syscall_abi =
  fixes D :: "('a, 'r) syscall_desc"
    and valid_arg :: "'a \<Rightarrow> bool"
    and valid_ret :: "'r \<Rightarrow> bool"
  assumes args: "args_ok (arg_load D, arg_decode D) valid_arg"
    and rets: "rets_ok (ret_encode D, ret_decode D) valid_ret"
begin

lemma code_loaded: "ur_a7 (arg_load D a c ur) = syscall_code_repr c"
  using args by (simp add: args_ok_def)

lemma arg_roundtrip: "valid_arg a \<Longrightarrow> arg_decode D (arg_load D a c ur) = Ok a"
  using args by (simp add: args_ok_def)

lemma ret_roundtrip:
  "valid_ret r \<Longrightarrow> ur = tf_user_registers (store_return (ret_encode D r) tf) \<Longrightarrow>
     ret_decode D (ur_a0 ur, ur_a1 ur) = Ok r"
  using rets by (simp add: rets_ok_def Let_def)

end

section \<open>The table keeps the contract\<close>

lemma args_ok_0: "register_value enc dec v \<Longrightarrow> args_ok (args_0 enc dec) v"
  by (auto simp: args_ok_def args_0_def call_with_arg_0_def decode_arg_0_def
      dest: value_laws(1))

lemma args_ok_1: "register_value enc dec v \<Longrightarrow> args_ok (args_1 enc dec) v"
  by (simp add: args_ok_def args_1_def call_with_arg_1_def decode_arg_1_def value_laws(1))

lemma call_with_arg_2_regs:
  "ur_a7 (call_with_arg_2 p c ur) = syscall_code_repr c"
  "decode_arg_2 dec (call_with_arg_2 p c ur) = dec p"
  by (cases p; simp add: decode_arg_2_def)+

lemma call_with_arg_3_regs:
  "ur_a7 (call_with_arg_3 p c ur) = syscall_code_repr c"
  "decode_arg_3 dec (call_with_arg_3 p c ur) = dec p"
  by (cases p; simp add: decode_arg_3_def)+

lemma call_with_arg_4_regs:
  "ur_a7 (call_with_arg_4 p c ur) = syscall_code_repr c"
  "decode_arg_4 dec (call_with_arg_4 p c ur) = dec p"
  by (cases p; simp add: decode_arg_4_def)+

lemma args_ok_2: "register_value enc dec v \<Longrightarrow> args_ok (args_2 enc dec) v"
  by (simp add: args_ok_def args_2_def call_with_arg_2_regs value_laws(1))

lemma args_ok_3: "register_value enc dec v \<Longrightarrow> args_ok (args_3 enc dec) v"
  by (simp add: args_ok_def args_3_def call_with_arg_3_regs value_laws(1))

lemma args_ok_4: "register_value enc dec v \<Longrightarrow> args_ok (args_4 enc dec) v"
  by (simp add: args_ok_def args_4_def call_with_arg_4_regs value_laws(1))

lemma rets_ok_0: "register_value enc dec v \<Longrightarrow> rets_ok (returns_0 enc dec) v"
  by (auto simp: rets_ok_def returns_0_def dest: value_laws(1))

lemma store_return_2: "ur = tf_user_registers (store_return (return_of_2 p) tf) \<Longrightarrow> (ur_a0 ur, ur_a1 ur) = p"
  by (cases p) (simp add: store_return_def)

lemma rets_ok_2:
  "register_value enc dec v \<Longrightarrow> rets_ok (return_of_2 \<circ> enc, dec \<circ> from_array_2) v"
  by (simp add: rets_ok_def Let_def store_return_2 [OF refl, simplified] value_laws(1))

lemmas exact_value = exact_register_value.axioms(1)

lemma rets_ok_01:
  "crates_ok X \<Longrightarrow> register_value enc dec v \<Longrightarrow>
     rets_ok (returns_01 X enc dec) (pred_sum valid_any v)"
  unfolding returns_01_def
  by (intro rets_ok_2 result_value_01 exact_value [OF syscall_error_value])

lemma rets_ok_11:
  "crates_ok X \<Longrightarrow> register_value enc dec v \<Longrightarrow>
     rets_ok (returns_11 X enc dec) (pred_sum valid_any v)"
  unfolding returns_11_def
  by (intro rets_ok_2 result_value_11 exact_value [OF syscall_error_value])

lemma syscall_desc_sel [simp]:
  "CODE (syscall_desc c A R) = c"
  "arg_load (syscall_desc c A R) = fst A" "arg_decode (syscall_desc c A R) = snd A"
  "ret_encode (syscall_desc c A R) = fst R" "ret_decode (syscall_desc c A R) = snd R"
  by (simp_all add: syscall_desc_def)

lemma syscall_desc_abi:
  "args_ok A va \<Longrightarrow> rets_ok R vr \<Longrightarrow> syscall_abi (syscall_desc c A R) va vr"
  by (simp add: syscall_abi_def)

lemma unit_value: "register_value encode_unit decode_unit valid_any"
  by unfold_locales (simp_all add: codec_defs)

lemma infallible_value: "register_value encode_infallible decode_infallible valid_infallible"
  by unfold_locales (simp_all add: decode_infallible_def valid_infallible_def)

lemma isize_value: "register_value encode_isize decode_isize valid_any"
  by unfold_locales (simp_all add: codec_defs)

lemma u64_value: "register_value encode_u64 decode_u64 valid_any"
  by unfold_locales (simp_all add: codec_defs)

lemma raw_fd_value: "register_value encode_raw_fd decode_raw_fd valid_any"
  by unfold_locales (simp_all add: codec_defs)

lemma user_ref_value: "register_value encode_user_ref decode_user_ref valid_any"
  by unfold_locales (simp_all add: codec_defs)

lemma user_mut_ref_value: "register_value encode_user_mut_ref decode_user_mut_ref valid_any"
  by unfold_locales (simp_all add: codec_defs)

lemma user_mut_slice_value: "register_value encode_user_mut_slice decode_user_mut_slice valid_any"
  by unfold_locales (auto simp: codec_defs)

lemma tuple1_value:
  "register_value enc dec v \<Longrightarrow> register_value (tuple1_encode enc) (tuple1_decode dec) v"
  by (simp add: tuple1_encode_def [abs_def] tuple1_decode_def [abs_def])

named_theorems abi_intros "the values of the table, and how they are put together"

lemmas [abi_intros] =
  syscall_desc_abi args_ok_0 args_ok_1 args_ok_2 args_ok_3 args_ok_4 rets_ok_0 rets_ok_01 rets_ok_11
  tuple1_value tuple_value_11 tuple_value_12 tuple_value_21 tuple_value_22 tuple_value_211
  tuple_value_112 unit_value infallible_value isize_value u64_value raw_fd_value user_ref_value
  user_mut_ref_value user_mut_slice_value duration_value
  usize_value [THEN exact_value] user_slice_value [THEN exact_value]
  option_proc_id_value [THEN exact_value] proc_id_value [THEN exact_value]
  wait_target_value [THEN exact_value] open_flags_value [THEN exact_value]
  socket_addr_v4_value [THEN exact_value]
  unsigned_value [where 'n = 16, simplified, THEN exact_value]
  unsigned_value [where 'n = 32, simplified, THEN exact_value]
  signed_value [where 'n = 32, simplified, THEN exact_value]

named_theorems abi "the contract of each system call"

lemma Fork_abi [abi]: "crates_ok X \<Longrightarrow> syscall_abi (Fork_call X) valid_any (pred_sum valid_any valid_nonzero)"
  unfolding Fork_call_def by (intro abi_intros)

lemma Exit_abi [abi]: "syscall_abi Exit_call valid_any valid_infallible"
  unfolding Exit_call_def by (intro abi_intros)

lemma Wait_abi [abi]: "crates_ok X \<Longrightarrow> syscall_abi (Wait_call X) (pred_prod valid_wait_target valid_any) (pred_sum valid_any valid_proc_id)"
  unfolding Wait_call_def by (intro abi_intros)

lemma Pipe_abi [abi]: "crates_ok X \<Longrightarrow> syscall_abi (Pipe_call X) valid_any (pred_sum valid_any valid_any)"
  unfolding Pipe_call_def by (intro abi_intros)

lemma Read_abi [abi]: "crates_ok X \<Longrightarrow> syscall_abi (Read_call X) (pred_prod valid_any valid_any) (pred_sum valid_any valid_any)"
  unfolding Read_call_def by (intro abi_intros)

lemma Kill_abi [abi]: "crates_ok X \<Longrightarrow> syscall_abi (Kill_call X) valid_proc_id (pred_sum valid_any valid_any)"
  unfolding Kill_call_def by (intro abi_intros)

lemma Exec_abi [abi]: "crates_ok X \<Longrightarrow> syscall_abi (Exec_call X) (pred_prod valid_any valid_any) (pred_sum valid_any valid_infallible)"
  unfolding Exec_call_def by (intro abi_intros)

lemma Fstat_abi [abi]: "crates_ok X \<Longrightarrow> syscall_abi (Fstat_call X) (pred_prod valid_any valid_any) (pred_sum valid_any valid_any)"
  unfolding Fstat_call_def by (intro abi_intros)

lemma Chdir_abi [abi]: "crates_ok X \<Longrightarrow> syscall_abi (Chdir_call X) valid_any (pred_sum valid_any valid_any)"
  unfolding Chdir_call_def by (intro abi_intros)

lemma Dup_abi [abi]: "crates_ok X \<Longrightarrow> syscall_abi (Dup_call X) valid_any (pred_sum valid_any valid_any)"
  unfolding Dup_call_def by (intro abi_intros)

lemma Sbrk_abi [abi]: "crates_ok X \<Longrightarrow> syscall_abi (Sbrk_call X) valid_any (pred_sum valid_any valid_any)"
  unfolding Sbrk_call_def by (intro abi_intros)

lemma Sleep_abi [abi]: "crates_ok X \<Longrightarrow> syscall_abi (Sleep_call X) valid_duration (pred_sum valid_any valid_any)"
  unfolding Sleep_call_def by (intro abi_intros)

lemma Open_abi [abi]: "crates_ok X \<Longrightarrow> syscall_abi (Open_call X) (pred_prod valid_any valid_open_flags) (pred_sum valid_any valid_any)"
  unfolding Open_call_def by (intro abi_intros)

lemma Write_abi [abi]: "crates_ok X \<Longrightarrow> syscall_abi (Write_call X) (pred_prod valid_any valid_any) (pred_sum valid_any valid_any)"
  unfolding Write_call_def by (intro abi_intros)

lemma Mknod_abi [abi]: "crates_ok X \<Longrightarrow> syscall_abi (Mknod_call X) (pred_prod valid_any (pred_prod valid_any valid_any)) (pred_sum valid_any valid_any)"
  unfolding Mknod_call_def by (intro abi_intros)

lemma Unlink_abi [abi]: "crates_ok X \<Longrightarrow> syscall_abi (Unlink_call X) valid_any (pred_sum valid_any valid_any)"
  unfolding Unlink_call_def by (intro abi_intros)

lemma Link_abi [abi]: "crates_ok X \<Longrightarrow> syscall_abi (Link_call X) (pred_prod valid_any valid_any) (pred_sum valid_any valid_any)"
  unfolding Link_call_def by (intro abi_intros)

lemma Mkdir_abi [abi]: "crates_ok X \<Longrightarrow> syscall_abi (Mkdir_call X) valid_any (pred_sum valid_any valid_any)"
  unfolding Mkdir_call_def by (intro abi_intros)

lemma Close_abi [abi]: "crates_ok X \<Longrightarrow> syscall_abi (Close_call X) valid_any (pred_sum valid_any valid_any)"
  unfolding Close_call_def by (intro abi_intros)

lemma AlarmSet_abi [abi]: "crates_ok X \<Longrightarrow> syscall_abi (AlarmSet_call X) (pred_prod valid_duration valid_any) (pred_sum valid_any valid_any)"
  unfolding AlarmSet_call_def by (intro abi_intros)

lemma AlarmClear_abi [abi]: "crates_ok X \<Longrightarrow> syscall_abi (AlarmClear_call X) valid_any (pred_sum valid_any valid_any)"
  unfolding AlarmClear_call_def by (intro abi_intros)

lemma SignalReturn_abi [abi]: "crates_ok X \<Longrightarrow> syscall_abi (SignalReturn_call X) valid_any (pred_sum valid_any valid_infallible)"
  unfolding SignalReturn_call_def by (intro abi_intros)

lemma Bind_abi [abi]: "crates_ok X \<Longrightarrow> syscall_abi (Bind_call X) valid_any (pred_sum valid_any valid_any)"
  unfolding Bind_call_def by (intro abi_intros)

lemma Unbind_abi [abi]: "crates_ok X \<Longrightarrow> syscall_abi (Unbind_call X) valid_any (pred_sum valid_any valid_any)"
  unfolding Unbind_call_def by (intro abi_intros)

lemma Recv_abi [abi]: "crates_ok X \<Longrightarrow> syscall_abi (Recv_call X) (pred_prod valid_any (pred_prod valid_any valid_any)) (pred_sum valid_any valid_any)"
  unfolding Recv_call_def by (intro abi_intros)

lemma Send_abi [abi]: "crates_ok X \<Longrightarrow> syscall_abi (Send_call X) (pred_prod valid_any (pred_prod valid_any valid_any)) (pred_sum valid_any valid_any)"
  unfolding Send_call_def by (intro abi_intros)

lemma GetSystemInfo_abi [abi]: "crates_ok X \<Longrightarrow> syscall_abi (GetSystemInfo_call X) valid_any (pred_sum valid_any valid_any)"
  unfolding GetSystemInfo_call_def by (intro abi_intros)

lemma Reboot_abi [abi]: "crates_ok X \<Longrightarrow> syscall_abi (Reboot_call X) valid_any (pred_sum valid_any valid_infallible)"
  unfolding Reboot_call_def by (intro abi_intros)

lemma Halt_abi [abi]: "crates_ok X \<Longrightarrow> syscall_abi (Halt_call X) valid_any (pred_sum valid_any valid_infallible)"
  unfolding Halt_call_def by (intro abi_intros)

lemma Abort_abi [abi]: "crates_ok X \<Longrightarrow> syscall_abi (Abort_call X) valid_any (pred_sum valid_any valid_infallible)"
  unfolding Abort_call_def by (intro abi_intros)

lemma Trace_abi [abi]: "syscall_abi Trace_call valid_any valid_any"
  unfolding Trace_call_def by (intro abi_intros)

lemma DumpKernelPageTable_abi [abi]: "syscall_abi DumpKernelPageTable_call valid_any valid_any"
  unfolding DumpKernelPageTable_call_def by (intro abi_intros)

lemma DumpUserPageTable_abi [abi]: "syscall_abi DumpUserPageTable_call valid_any valid_any"
  unfolding DumpUserPageTable_call_def by (intro abi_intros)

section \<open>The kernel runs the call the user made\<close>

lemma trace_call_registers:
  "trace_call c dec ret s = Returned u s' \<Longrightarrow> registers s' = registers s"
  by (auto simp: trace_call_def split: outcome.splits)

lemma trace_before_registers:
  "trace_before c dec s = Returned u s' \<Longrightarrow> registers s' = registers s"
  by (auto simp: trace_before_def trace_call_registers split: if_splits)

lemma handle_run:
  assumes "dec (registers s) = Ok a"
  shows "handle c dec into_return enc call s = run_handler c dec enc call a s"
proof (cases "trace_before c dec s")
  case (Returned u s')
  then show ?thesis
    using assms trace_before_registers [OF Returned] by (simp add: handle_def run_handler_def)
qed (simp_all add: handle_def run_handler_def)

lemma decode_exit_arg_ok: "decode_arg_1 decode_exit_arg (arg_load Exit_call a c ur) = Ok a"
  by (simp add: Exit_call_def args_1_def call_with_arg_1_def decode_arg_1_def decode_exit_arg_def
      tuple1_encode_def exact_laws(1) [OF signed_value] valid_any_def)

lemma syscall_run:
  assumes "crates_ok X" and "syscall_abi D va vr" and "CODE D = c"
    and "dec (arg_load D a c (registers s)) = Ok a"
    and dispatch: "dispatch X H c (ecall_state D a s) =
      handle c dec into_return enc call (ecall_state D a s)"
  shows "syscall X H (ecall_state D a s) =
    cbind (run_handler c dec enc call a (ecall_state D a s)) store_result"
proof -
  have regs: "registers (ecall_state D a s) = arg_load D a c (registers s)"
    using assms(3) by (simp add: ecall_state_def)
  have "syscall_code_from_repr X (ur_a7 (registers (ecall_state D a s))) = Some c"
    using assms(1) by (simp add: crates_ok_def regs syscall_abi.code_loaded [OF assms(2)])
  moreover have "handle c dec into_return enc call (ecall_state D a s) =
      run_handler c dec enc call a (ecall_state D a s)"
    by (rule handle_run) (simp add: regs assms(4))
  ultimately show ?thesis
    by (simp add: syscall_def store_result_def [abs_def] dispatch)
qed

lemma call_code:
  "CODE (Fork_call X) = SC_Fork" "CODE Exit_call = SC_Exit" "CODE (Wait_call X) = SC_Wait"
  "CODE (Pipe_call X) = SC_Pipe" "CODE (Read_call X) = SC_Read" "CODE (Kill_call X) = SC_Kill"
  "CODE (Exec_call X) = SC_Exec" "CODE (Fstat_call X) = SC_Fstat" "CODE (Chdir_call X) = SC_Chdir"
  "CODE (Dup_call X) = SC_Dup" "CODE (Sbrk_call X) = SC_Sbrk" "CODE (Sleep_call X) = SC_Sleep"
  "CODE (Open_call X) = SC_Open" "CODE (Write_call X) = SC_Write" "CODE (Mknod_call X) = SC_Mknod"
  "CODE (Unlink_call X) = SC_Unlink" "CODE (Link_call X) = SC_Link" "CODE (Mkdir_call X) = SC_Mkdir"
  "CODE (Close_call X) = SC_Close" "CODE (AlarmSet_call X) = SC_AlarmSet"
  "CODE (AlarmClear_call X) = SC_AlarmClear" "CODE (SignalReturn_call X) = SC_SignalReturn"
  "CODE (Bind_call X) = SC_Bind" "CODE (Unbind_call X) = SC_Unbind" "CODE (Recv_call X) = SC_Recv"
  "CODE (Send_call X) = SC_Send" "CODE (GetSystemInfo_call X) = SC_GetSystemInfo"
  "CODE (Reboot_call X) = SC_Reboot" "CODE (Halt_call X) = SC_Halt" "CODE (Abort_call X) = SC_Abort"
  "CODE Trace_call = SC_Trace" "CODE DumpKernelPageTable_call = SC_DumpKernelPageTable"
  "CODE DumpUserPageTable_call = SC_DumpUserPageTable"
  by (simp_all add: Fork_call_def Exit_call_def Wait_call_def Pipe_call_def Read_call_def Kill_call_def
      Exec_call_def Fstat_call_def Chdir_call_def Dup_call_def Sbrk_call_def Sleep_call_def
      Open_call_def Write_call_def Mknod_call_def Unlink_call_def Link_call_def Mkdir_call_def
      Close_call_def AlarmSet_call_def AlarmClear_call_def SignalReturn_call_def Bind_call_def
      Unbind_call_def Recv_call_def Send_call_def GetSystemInfo_call_def Reboot_call_def
      Halt_call_def Abort_call_def Trace_call_def DumpKernelPageTable_call_def
      DumpUserPageTable_call_def)

lemmas arg_roundtrips = abi [THEN syscall_abi.arg_roundtrip]

lemmas dispatch_simps = dispatch_def handle_of_def call_code

section \<open>One implementation of the generated functions\<close>

definition all_syscall_errors :: "syscall_error list" where
  "all_syscall_errors =
    [SE_NotPermitted, SE_FsEntryNotFound, SE_ProcessNotFound, SE_Io, SE_DeviceNotFound,
     SE_ArgumentListTooLong, SE_ExecFormat, SE_BadFileDescriptor, SE_NoChildProcess,
     SE_ResourceTempolaryUnavailable, SE_OutOfMemory, SE_PermissionDenied, SE_BadAddress,
     SE_ResourceBusy, SE_AlreadyExists, SE_CrossesDevices, SE_NoSuchDevice, SE_NotADirectory,
     SE_IsADirectory, SE_InvalidInput, SE_TooManyOpenFilesSystem, SE_TooManyOpenFiles,
     SE_ExecutableFileBusy, SE_FileTooLarge, SE_StorageFull, SE_NotSeekable,
     SE_ReadOnlyFilesystem, SE_TooManyLinks, SE_BrokenPipe, SE_InvalidFilename,
     SE_DirectoryNotEmpty, SE_MessageTooLong, SE_AddrInUse, SE_Unknown]"

definition all_syscall_codes :: "syscall_code list" where
  "all_syscall_codes =
    [SC_Fork, SC_Exit, SC_Wait, SC_Pipe, SC_Read, SC_Kill, SC_Exec, SC_Fstat, SC_Chdir,
     SC_Dup, SC_Sbrk, SC_Sleep, SC_Open, SC_Write, SC_Mknod, SC_Unlink, SC_Link, SC_Mkdir,
     SC_Close, SC_AlarmSet, SC_AlarmClear, SC_SignalReturn, SC_Bind, SC_Unbind, SC_Recv,
     SC_Send, SC_GetSystemInfo, SC_Reboot, SC_Halt, SC_Abort, SC_Trace,
     SC_DumpKernelPageTable, SC_DumpUserPageTable]"

definition crates_ref :: crate_fns where
  "crates_ref =
     \<lparr>syscall_error_from_repr = (\<lambda>n. find (\<lambda>e. syscall_error_repr e = n) all_syscall_errors),
      syscall_code_from_repr = (\<lambda>n. find (\<lambda>c. syscall_code_repr c = n) all_syscall_codes),
      open_flags_from_bits = (\<lambda>b. if b AND NOT open_flags_all = 0 then Some b else None)\<rparr>"

lemma find_repr:
  assumes "distinct (map f xs)" and "\<And>x. x \<in> set xs"
  shows "find (\<lambda>x. f x = n) xs = Some y \<longleftrightarrow> f y = n"
proof -
  have inj: "inj f"
    using assms by (auto simp: distinct_map intro: inj_on_subset)
  have hit: "find (\<lambda>x. f x = n) xs = Some z \<Longrightarrow> f z = n" for z
    by (auto simp: find_Some_iff)
  show ?thesis
  proof
    assume y: "f y = n"
    then obtain z where z: "find (\<lambda>x. f x = n) xs = Some z"
      using assms(2) [of y] by (cases "find (\<lambda>x. f x = n) xs") (auto simp: find_None_iff)
    then have "z = y"
      using hit [OF z] y inj by (auto dest: injD)
    then show "find (\<lambda>x. f x = n) xs = Some y" using z by simp
  qed (rule hit)
qed

lemma all_errors: "distinct (map syscall_error_repr all_syscall_errors)" "e \<in> set all_syscall_errors"
  by (simp add: all_syscall_errors_def) (cases e; simp add: all_syscall_errors_def)

lemma all_codes: "distinct (map syscall_code_repr all_syscall_codes)" "c \<in> set all_syscall_codes"
  by (simp add: all_syscall_codes_def) (cases c; simp add: all_syscall_codes_def)

lemma crates_ref_ok: "crates_ok crates_ref"
  by (simp add: crates_ok_def crates_ref_def find_repr all_errors all_codes)

interpretation sc_read: syscall_abi "Read_call crates_ref" "pred_prod valid_any valid_any"
    "pred_sum valid_any valid_any"
  by (rule Read_abi [OF crates_ref_ok])

interpretation sc_trace: syscall_abi Trace_call valid_any valid_any
  by (rule Trace_abi)

lemma open_flags_examples:
  "valid_open_flags OF_CREATE" "\<not> valid_open_flags 0x800"
  by (simp_all add: valid_open_flags_def open_flags_all_def OF_CREATE_def OF_READ_ONLY_def
      OF_WRITE_ONLY_def OF_READ_WRITE_def OF_TRUNC_def)

text \<open>A state for the examples.\<close>

definition zero_registers :: user_registers where
  "zero_registers =
     \<lparr>ur_ra = 0, ur_sp = 0, ur_gp = 0, ur_tp = 0, ur_t0 = 0, ur_t1 = 0, ur_t2 = 0, ur_s0 = 0,
      ur_s1 = 0, ur_a0 = 0, ur_a1 = 0, ur_a2 = 0, ur_a3 = 0, ur_a4 = 0, ur_a5 = 0, ur_a6 = 0,
      ur_a7 = 0, ur_s2 = 0, ur_s3 = 0, ur_s4 = 0, ur_s5 = 0, ur_s6 = 0, ur_s7 = 0, ur_s8 = 0,
      ur_s9 = 0, ur_s10 = 0, ur_s11 = 0, ur_t3 = 0, ur_t4 = 0, ur_t5 = 0, ur_t6 = 0\<rparr>"

definition private_of :: "user_registers \<Rightarrow> proc_private" where
  "private_of ur =
     \<lparr>trapframe = \<lparr>tf_kernel_satp = 0, tf_kernel_sp = 0, tf_kernel_trap = 0, tf_epc = 0,
        tf_kernel_hartid = 0, tf_user_registers = ur\<rparr>,
      trace_mask = 0, traced = []\<rparr>"

section \<open>Properties\<close>

text \<open>
  C3. For each of the 33 system calls and every argument value of its Rust type, the kernel's
  \<^verbatim>\<open>syscall\<close>, started with the registers the user library loads for the call, runs the handler of
  exactly that call on exactly those arguments and stores that handler's encoded result.
\<close>

theorem syscall_runs_call:
  assumes "crates_ok X" and "valid_call_arg A"
  shows "syscall X H (ecall X A s) = cbind (run_call X H A (ecall X A s)) store_result"
  using assms
  by (cases A; simp; intro syscall_run)
    (auto intro: abi simp: dispatch_simps decode_exit_arg_ok arg_roundtrips)

theorem syscall_runs_call_witness:
  "\<forall>(H :: proc_private handlers) s.
     let A = A_Open (\<lparr>slice_addr = 0x1000, slice_len = 4\<rparr>, OF_CREATE) in
       valid_call_arg A \<and>
       syscall crates_ref H (ecall crates_ref A s) =
         cbind (run_call crates_ref H A (ecall crates_ref A s)) store_result"
proof -
  have "valid_call_arg (A_Open (\<lparr>slice_addr = 0x1000, slice_len = 4\<rparr>, OF_CREATE))"
    by (simp add: valid_any_def open_flags_examples)
  then show ?thesis
    unfolding Let_def using syscall_runs_call [OF crates_ref_ok] by blast
qed

text \<open>
  C18. A result of a handler (an error, or a success of each of the result types of the table) that is
  stored in the trap frame is read back by the user library as the same result.
\<close>

theorem results_reach_user:
  assumes "crates_ok X"
  shows "rets_ok (returns_01 X encode_unit decode_unit) (pred_sum valid_any valid_any) \<and>
    rets_ok (returns_01 X encode_infallible decode_infallible) (pred_sum valid_any valid_infallible) \<and>
    rets_ok (returns_11 X encode_usize decode_usize) (pred_sum valid_any valid_any) \<and>
    rets_ok (returns_11 X encode_raw_fd decode_raw_fd) (pred_sum valid_any valid_any) \<and>
    rets_ok (returns_11 X encode_proc_id decode_proc_id) (pred_sum valid_any valid_proc_id) \<and>
    rets_ok (returns_11 X encode_option_proc_id decode_option_proc_id) (pred_sum valid_any valid_nonzero)"
  by (intro conjI abi_intros assms)

theorem results_reach_user_witness:
  "rets_ok (returns_11 crates_ref encode_proc_id decode_proc_id) (pred_sum valid_any valid_proc_id)"
  using results_reach_user [OF crates_ref_ok] by blast

text \<open>
  C31. Open flags with an undeclared bit never reach the handler: the caller of \<^verbatim>\<open>open\<close> gets
  \<^verbatim>\<open>SyscallError::Unknown\<close>, and of the state in which the process has entered the kernel only the two result registers
  change and, when the process traces \<^verbatim>\<open>open\<close>, the trace output, which gets one line.
\<close>

theorem open_bad_flags:
  assumes "crates_ok X" and "\<not> valid_open_flags flags"
  shows "try_call (syscall X H) (Open_call X) (path, flags) s =
    Returned (Ok (Inl SE_Unknown))
      ((ecall_state (Open_call X) (path, flags) s)\<lparr>trapframe :=
         store_return (Ret2 usize_MAX (- 1)) (trapframe (ecall_state (Open_call X) (path, flags) s)),
         traced := traced s @ (if trace_bit SC_Open s then [Trace_Line SC_Open False True] else [])\<rparr>)"
proof -
  let ?s = "ecall_state (Open_call X) (path, flags) s"
  have dec: "arg_decode (Open_call X) (registers ?s) = Err (InvalidOpenFlags flags)"
    using assms(1,2)
    by (simp add: Open_call_def ecall_state_def args_3_def call_with_arg_3_regs decode_arg_3_def
        decode_open_flags_def encode_open_flags_def codec_defs crates_ok_def valid_open_flags_def split_beta)
  have code: "syscall_code_from_repr X (ur_a7 (registers ?s)) = Some SC_Open"
    using assms(1) syscall_abi.code_loaded [OF Open_abi]
    by (simp add: crates_ok_def ecall_state_def call_code)
  have trace: "trace_bit SC_Open ?s = trace_bit SC_Open s" "traced ?s = traced s"
    by (simp_all add: trace_bit_def ecall_state_def)
  have "syscall X H ?s = Returned () (?s\<lparr>trapframe := store_return (Ret2 usize_MAX (- 1)) (trapframe ?s),
      traced := traced s @ (if trace_bit SC_Open s then [Trace_Line SC_Open False True] else [])\<rparr>)"
    using code dec trace
    by (simp add: trace_call_def syscall_def dispatch_simps handle_def trace_before_def trace_after_def
        into_return_result_def Open_call_def returns_11_def encode_syscall_error_def codec_defs)
  moreover have "ret_decode (Open_call X) (usize_MAX, - 1) = Ok (Inl SE_Unknown)"
    using assms(1)
    by (simp add: Open_call_def returns_11_def decode_syscall_error_def codec_defs crates_ok_def
        usize_MAX_def)
  ultimately show ?thesis
    by (simp add: try_call_def store_return_def)
qed

theorem open_bad_flags_witness:
  "\<forall>H path. \<exists>s'. try_call (syscall crates_ref H) (Open_call crates_ref)
     (path, 0x800) ((private_of zero_registers)\<lparr>trace_mask := 0x2000\<rparr>) = Returned (Ok (Inl SE_Unknown)) s' \<and>
     traced s' = [Trace_Line SC_Open False True]"
proof -
  have "trace_bit SC_Open ((private_of zero_registers)\<lparr>trace_mask := 0x2000\<rparr>)"
    by (simp add: trace_bit_def private_of_def)
  moreover have "traced (private_of zero_registers) = []" by (simp add: private_of_def)
  ultimately show ?thesis
    by (simp add: open_bad_flags [OF crates_ref_ok open_flags_examples(2)])
qed

text \<open>
  C32. Any user program can make the kernel panic: \<^verbatim>\<open>sleep\<close> with seconds and nanoseconds whose sum is
  too large panics in \<^verbatim>\<open>Duration::new\<close> while the kernel decodes the argument registers.
\<close>

theorem sleep_overflow_panics:
  assumes "crates_ok X" and "ur_a7 (registers s) = syscall_code_repr SC_Sleep"
    and "unat (ur_a1 (registers s)) < 2 ^ 32"
    and "2 ^ 64 \<le> unat (ur_a0 (registers s)) + unat (ur_a1 (registers s)) div 1000000000"
  shows "syscall X H s = Panicked"
proof -
  have "syscall_code_from_repr X (ur_a7 (registers s)) = Some SC_Sleep"
    using assms(1,2) by (simp add: crates_ok_def)
  moreover have "arg_decode (Sleep_call X) (registers s) = Panic"
    using assms(3,4) by (simp add: Sleep_call_def args_2_def decode_arg_2_def tuple1_decode_def
        decode_duration_panic_iff obind_eq_Panic del: decode_duration.simps)
  ultimately show ?thesis
    by (simp only: syscall_def option.case dispatch_simps syscall_code.case handle_def)
      (simp add: trace_before_def)
qed

theorem sleep_overflow_panics_witness:
  "\<forall>H. syscall crates_ref H
     (private_of (zero_registers\<lparr>ur_a0 := 0xffffffffffffffff, ur_a1 := 1000000000, ur_a7 := 12\<rparr>)) = Panicked"
proof
  fix H
  show "syscall crates_ref H
      (private_of (zero_registers\<lparr>ur_a0 := 0xffffffffffffffff, ur_a1 := 1000000000, ur_a7 := 12\<rparr>)) = Panicked"
    by (rule sleep_overflow_panics [OF crates_ref_ok]) (simp_all add: private_of_def zero_registers_def)
qed

end
