(* ===== verification/Os_Path.thy ===== *)
theory Os_Path
  imports Prelude "HOL-Library.Sublist"
begin

text \<open>
  Paths: \<^verbatim>\<open>ov6_types/src/path/mod.rs\<close> and \<^verbatim>\<open>path_buf.rs\<close>. A path is the byte string of its
  \<^verbatim>\<open>OsStr\<close>. \<^verbatim>\<open>Components\<close> is a double-ended iterator over it, which every other operation is written
  with; the locale \<open>double_ended\<close> is the contract of such an iterator and \<open>path_items\<close> the sequence
  it promises.
\<close>

section \<open>Byte strings\<close>

type_synonym os_str = "u8 list"

definition SLASH :: u8 where "SLASH = 0x2f"
definition DOT :: u8 where "DOT = 0x2e"

text \<open>The slice operations of the standard library that the code uses.\<close>

fun split_once :: "('a \<Rightarrow> bool) \<Rightarrow> 'a list \<Rightarrow> ('a list \<times> 'a list) option" where
  "split_once P [] = None"
| "split_once P (x # xs) =
     (if P x then Some ([], xs) else map_option (\<lambda>(a, b). (x # a, b)) (split_once P xs))"

definition rsplit_once :: "('a \<Rightarrow> bool) \<Rightarrow> 'a list \<Rightarrow> ('a list \<times> 'a list) option" where
  "rsplit_once P xs = map_option (\<lambda>(a, b). (rev b, rev a)) (split_once P (rev xs))"

fun starts_with_slash :: "os_str \<Rightarrow> bool" where
  "starts_with_slash [] = False"
| "starts_with_slash (b # bs) = (b = SLASH)"

definition ends_with_slash :: "os_str \<Rightarrow> bool" where
  "ends_with_slash p = starts_with_slash (rev p)"

fun strip_prefix_slash :: "os_str \<Rightarrow> os_str option" where
  "strip_prefix_slash [] = None"
| "strip_prefix_slash (b # bs) = (if b = SLASH then Some bs else None)"

definition strip_suffix_slash :: "os_str \<Rightarrow> os_str option" where
  "strip_suffix_slash p = (if ends_with_slash p then Some (butlast p) else None)"

lemma strip_prefix_slash_less: "strip_prefix_slash p = Some q \<Longrightarrow> length q < length p"
  by (cases p) (auto split: if_splits)

lemma strip_suffix_slash_less: "strip_suffix_slash p = Some q \<Longrightarrow> length q < length p"
  by (cases p) (auto simp: strip_suffix_slash_def ends_with_slash_def split: if_splits)

section \<open>Components\<close>

datatype component = RootDir | CurDir | ParentDir | Normal os_str

fun component_as_os_str :: "component \<Rightarrow> os_str" where
  "component_as_os_str RootDir = [SLASH]"
| "component_as_os_str CurDir = [DOT]"
| "component_as_os_str ParentDir = [DOT, DOT]"
| "component_as_os_str (Normal p) = p"

record components =
  c_path :: os_str
  has_root_dir :: bool

definition is_absolute :: "os_str \<Rightarrow> bool" where
  "is_absolute p = starts_with_slash p"

definition is_relative :: "os_str \<Rightarrow> bool" where
  "is_relative p \<longleftrightarrow> \<not> is_absolute p"

function strip_leading :: "os_str \<Rightarrow> os_str" where
  "strip_leading path =
     (case strip_prefix_slash path of Some rest \<Rightarrow> strip_leading rest | None \<Rightarrow> path)"
  by pat_completeness auto
termination
  by (relation "measure length") (simp_all add: strip_prefix_slash_less)

definition trim_leading_slashes :: "components \<Rightarrow> components" where
  "trim_leading_slashes c = (if has_root_dir c then c else c\<lparr>c_path := strip_leading (c_path c)\<rparr>)"

function trim_trailing_slashes :: "components \<Rightarrow> components" where
  "trim_trailing_slashes c =
     (if \<not> has_root_dir c \<or> 1 < length (c_path c)
      then case strip_suffix_slash (c_path c) of
             None \<Rightarrow> c
           | Some path \<Rightarrow> trim_trailing_slashes (c\<lparr>c_path := path\<rparr>)
      else c)"
  by pat_completeness auto
termination
  by (relation "measure (\<lambda>c. length (c_path c))") (simp_all add: strip_suffix_slash_less)

declare strip_leading.simps [simp del] trim_trailing_slashes.simps [simp del]

definition components_new :: "os_str \<Rightarrow> components" where
  "components_new path =
     trim_trailing_slashes (trim_leading_slashes
       \<lparr>c_path = path, has_root_dir = starts_with_slash path\<rparr>)"

definition classify :: "os_str \<Rightarrow> component option" where
  "classify cstr =
     (if cstr = [DOT, DOT] then Some ParentDir
      else if cstr = [DOT] then Some CurDir
      else if cstr = [] then None
      else Some (Normal cstr))"

definition components_next :: "components \<Rightarrow> (component option \<times> components, unit) outcome" where
  "components_next c =
     (if c_path c = [] then Ok (None, c)
      else if has_root_dir c \<and> starts_with_slash (c_path c)
      then Ok (Some RootDir, trim_leading_slashes (c\<lparr>has_root_dir := False\<rparr>))
      else let (cstr, rest) = (case split_once (\<lambda>b. b = SLASH) (c_path c) of
                 Some p \<Rightarrow> p | None \<Rightarrow> (c_path c, []))
           in Ok (classify cstr, trim_leading_slashes (c\<lparr>c_path := rest\<rparr>)))"

definition components_next_back :: "components \<Rightarrow> (component option \<times> components, unit) outcome" where
  "components_next_back c =
     (if has_root_dir c \<and> c_path c = [SLASH]
      then Ok (Some RootDir, c\<lparr>has_root_dir := False, c_path := []\<rparr>)
      else if c_path c = [] then Ok (None, c)
      else let (rest, cstr) = (case rsplit_once (\<lambda>b. b = SLASH) (c_path c) of
                 Some p \<Rightarrow> p | None \<Rightarrow> ([], c_path c))
           in obind (if rest = [] \<and> has_root_dir c
                     then obind (require (starts_with_slash (c_path c)))
                            (\<lambda>_. Ok (c\<lparr>c_path := take 1 (c_path c)\<rparr>))
                     else Ok (c\<lparr>c_path := rest\<rparr>)) (\<lambda>c.
              Ok (classify cstr, trim_trailing_slashes c)))"

definition components_as_path :: "components \<Rightarrow> os_str" where
  "components_as_path c = c_path c"

text \<open>\<^verbatim>\<open>Iter\<close> yields the components as strings.\<close>

definition iter_next :: "components \<Rightarrow> (os_str option \<times> components, unit) outcome" where
  "iter_next it = obind (components_next it) (\<lambda>(x, it). Ok (map_option component_as_os_str x, it))"

definition iter_next_back :: "components \<Rightarrow> (os_str option \<times> components, unit) outcome" where
  "iter_next_back it =
     obind (components_next_back it) (\<lambda>(x, it). Ok (map_option component_as_os_str x, it))"

section \<open>Operations on paths\<close>

definition parent :: "os_str \<Rightarrow> (os_str option, unit) outcome" where
  "parent p =
     obind (components_next_back (components_new p)) (\<lambda>(x, comps).
     Ok (case x of
           None \<Rightarrow> None
         | Some RootDir \<Rightarrow> None
         | Some _ \<Rightarrow> Some (components_as_path comps)))"

definition ancestors_next :: "os_str option \<Rightarrow> (os_str option \<times> os_str option, unit) outcome" where
  "ancestors_next next =
     obind (case next of None \<Rightarrow> Ok None | Some p \<Rightarrow> parent p) (\<lambda>q. Ok (next, q))"

definition file_name :: "os_str \<Rightarrow> (os_str option, unit) outcome" where
  "file_name p =
     obind (components_next_back (components_new p)) (\<lambda>(x, comps).
     Ok (case x of Some (Normal q) \<Rightarrow> Some q | _ \<Rightarrow> None))"

text \<open>
  \<^verbatim>\<open>iter_after\<close> is generic in the two iterators; its loop runs until the prefix is exhausted, which is
  proved from the iterators' contract (\<open>None\<close> stands for a loop that does not end).
\<close>

partial_function (option) iter_after ::
  "('s \<Rightarrow> ('i option \<times> 's, 'e) outcome) \<Rightarrow> ('t \<Rightarrow> ('i option \<times> 't, 'e) outcome) \<Rightarrow>
     's \<Rightarrow> 't \<Rightarrow> ('s option, 'e) outcome option" where
  "iter_after next next_prefix iter pre =
     (case next iter of
        Panic \<Rightarrow> Some Panic
      | Err e \<Rightarrow> Some (Err e)
      | Ok (x, iter2) \<Rightarrow>
          (case next_prefix pre of
             Panic \<Rightarrow> Some Panic
           | Err e \<Rightarrow> Some (Err e)
           | Ok (y, pre2) \<Rightarrow>
               (case y of
                  None \<Rightarrow> Some (Ok (Some iter))
                | Some b \<Rightarrow>
                    if x = Some b then iter_after next next_prefix iter2 pre2
                    else Some (Ok None))))"

definition path_strip_prefix :: "os_str \<Rightarrow> os_str \<Rightarrow> (os_str option, unit) outcome option" where
  "path_strip_prefix p base =
     map_option (\<lambda>r. obind r (\<lambda>it. Ok (map_option components_as_path it)))
       (iter_after components_next components_next (components_new p) (components_new base))"

definition path_starts_with :: "os_str \<Rightarrow> os_str \<Rightarrow> (bool, unit) outcome option" where
  "path_starts_with p base =
     map_option (\<lambda>r. obind r (\<lambda>it. Ok (it \<noteq> None)))
       (iter_after components_next components_next (components_new p) (components_new base))"

definition path_ends_with :: "os_str \<Rightarrow> os_str \<Rightarrow> (bool, unit) outcome option" where
  "path_ends_with p child =
     map_option (\<lambda>r. obind r (\<lambda>it. Ok (it \<noteq> None)))
       (iter_after components_next_back components_next_back (components_new p) (components_new child))"

definition rsplit_file_at_dot :: "os_str \<Rightarrow> os_str option \<times> os_str option" where
  "rsplit_file_at_dot file =
     (if file = [DOT, DOT] then (Some file, None)
      else let (after, before) = (case rsplit_once (\<lambda>b. b = DOT) file of
                 Some (b, a) \<Rightarrow> (Some a, Some b) | None \<Rightarrow> (Some file, None))
           in if before = Some [] then (Some file, None) else (before, after))"

definition split_file_at_dot :: "os_str \<Rightarrow> (os_str \<times> os_str option, unit) outcome" where
  "split_file_at_dot file =
     (if file = [DOT, DOT] then Ok (file, None)
      else obind (require (file \<noteq> [])) (\<lambda>_.
        case split_once (\<lambda>b. b = DOT) (tl file) of
          None \<Rightarrow> Ok (file, None)
        | Some (a, after) \<Rightarrow> Ok (take (length a + 1) file, Some after)))"

definition path_file_stem :: "os_str \<Rightarrow> (os_str option, unit) outcome" where
  "path_file_stem p =
     obind (file_name p) (\<lambda>f. Ok (case map_option rsplit_file_at_dot f of
       None \<Rightarrow> None | Some (before, after) \<Rightarrow> if before = None then after else before))"

definition path_file_prefix :: "os_str \<Rightarrow> (os_str option, unit) outcome" where
  "path_file_prefix p =
     obind (file_name p) (\<lambda>f. case f of
       None \<Rightarrow> Ok None | Some n \<Rightarrow> obind (split_file_at_dot n) (\<lambda>(before, after). Ok (Some before)))"

definition path_extension :: "os_str \<Rightarrow> (os_str option, unit) outcome" where
  "path_extension p =
     obind (file_name p) (\<lambda>f. Ok (case map_option rsplit_file_at_dot f of
       None \<Rightarrow> None | Some (before, after) \<Rightarrow> if before = None then None else after))"

section \<open>Path buffers\<close>

definition pb_push :: "os_str \<Rightarrow> os_str \<Rightarrow> os_str" where
  "pb_push buf path =
     (if is_absolute path then path
      else (if \<not> ends_with_slash buf then buf @ [SLASH] else buf) @ path)"

definition pb_pop :: "os_str \<Rightarrow> (bool \<times> os_str, unit) outcome" where
  "pb_pop buf =
     obind (parent buf) (\<lambda>q. Ok (case map_option length q of
       Some len \<Rightarrow> (True, take len buf) | None \<Rightarrow> (False, buf)))"

definition pb_set_file_name :: "os_str \<Rightarrow> os_str \<Rightarrow> (os_str, unit) outcome" where
  "pb_set_file_name buf name =
     obind (file_name buf) (\<lambda>f.
     obind (if f \<noteq> None then obind (pb_pop buf) (\<lambda>(popped, buf). Ok buf) else Ok buf) (\<lambda>buf.
     Ok (pb_push buf name)))"

text \<open>
  The two operations on the extension cut the buffer at the address where the file stem or the file
  name ends. Both are slices of the components' path, which starts where the buffer starts and ends
  where the file name ends.
\<close>

definition pb_set_extension :: "os_str \<Rightarrow> os_str \<Rightarrow> (bool \<times> os_str, unit) outcome" where
  "pb_set_extension buf new =
     obind (path_file_stem buf) (\<lambda>stem.
     obind (file_name buf) (\<lambda>name.
     case stem of
       None \<Rightarrow> Ok (False, buf)
     | Some file_stem \<Rightarrow>
         let start = length (c_path (components_new buf)) - length (the name);
             buf = take (start + length file_stem) buf
         in Ok (True, if new \<noteq> [] then buf @ [DOT] @ new else buf)))"

definition pb_add_extension :: "os_str \<Rightarrow> os_str \<Rightarrow> (bool \<times> os_str, unit) outcome" where
  "pb_add_extension buf new =
     obind (file_name buf) (\<lambda>name.
     case name of
       None \<Rightarrow> Ok (False, buf)
     | Some f \<Rightarrow>
         Ok (True, if new \<noteq> []
                   then take (length (c_path (components_new buf))) buf @ [DOT] @ new else buf))"

section \<open>What the iterator promises\<close>

text \<open>The names between slashes; empty ones are dropped.\<close>

fun segs :: "os_str \<Rightarrow> os_str list" where
  "segs [] = [[]]"
| "segs (b # bs) = (if b = SLASH then [] # segs bs else (b # hd (segs bs)) # tl (segs bs))"

definition names :: "os_str \<Rightarrow> os_str list" where
  "names p = filter (\<lambda>s. s \<noteq> []) (segs p)"

definition name_component :: "os_str \<Rightarrow> component" where
  "name_component s = (if s = [DOT, DOT] then ParentDir else if s = [DOT] then CurDir else Normal s)"

definition path_items :: "components \<Rightarrow> component list" where
  "path_items c = (if has_root_dir c then [RootDir] else []) @ map name_component (names (c_path c))"

definition components_wf :: "components \<Rightarrow> bool" where
  "components_wf c \<longleftrightarrow>
     (has_root_dir c \<longleftrightarrow> starts_with_slash (c_path c)) \<and>
     (ends_with_slash (c_path c) \<longrightarrow> c_path c = [SLASH])"

section \<open>Facts about names and slashes\<close>

lemma segs_Nil [simp]: "segs p \<noteq> []"
  by (cases p) simp_all

lemma segs_append: "segs (a @ SLASH # b) = segs a @ segs b"
  by (induction a) simp_all

lemma segs_free: "SLASH \<notin> set a \<Longrightarrow> segs a = [a]"
  by (induction a) auto

lemma names_append: "names (a @ SLASH # b) = names a @ names b"
  by (simp add: names_def segs_append)

lemma names_free: "SLASH \<notin> set a \<Longrightarrow> names a = (if a = [] then [] else [a])"
  by (simp add: names_def segs_free)

lemma names_Nil [simp]: "names [] = []"
  by (simp add: names_def)

lemma names_slash [simp]: "names (SLASH # p) = names p"
  by (simp add: names_def)

lemma names_snoc_slash [simp]: "names (p @ [SLASH]) = names p"
  using names_append [of p "[]"] by simp

lemma names_eq_Nil: "names p = [] \<Longrightarrow> \<not> starts_with_slash p \<Longrightarrow> p = []"
  by (cases p) (simp_all add: names_def)

lemma split_once_None: "split_once P xs = None \<longleftrightarrow> (\<forall>x\<in>set xs. \<not> P x)"
  by (induction xs) auto

lemma split_once_Some:
  "split_once P xs = Some (a, b) \<Longrightarrow> \<exists>x. xs = a @ x # b \<and> P x \<and> (\<forall>y\<in>set a. \<not> P y)"
  by (induction xs arbitrary: a) (auto split: if_splits)

lemma rsplit_once_None: "rsplit_once P xs = None \<longleftrightarrow> (\<forall>x\<in>set xs. \<not> P x)"
  by (simp add: rsplit_once_def split_once_None)

lemma rsplit_once_Some:
  assumes "rsplit_once P xs = Some (a, b)"
  shows "\<exists>x. xs = a @ x # b \<and> P x \<and> (\<forall>y\<in>set b. \<not> P y)"
proof -
  obtain c d where "split_once P (rev xs) = Some (c, d)" and ab: "a = rev d" "b = rev c"
    using assms by (auto simp: rsplit_once_def)
  then obtain x where "rev xs = c @ x # d" "P x" "\<forall>y\<in>set c. \<not> P y"
    using split_once_Some by blast
  then show ?thesis
    using ab by (auto simp: rev_swap)
qed

lemma split_slash:
  "split_once (\<lambda>b. b = SLASH) p = Some (a, b) \<Longrightarrow> p = a @ SLASH # b \<and> SLASH \<notin> set a"
  "rsplit_once (\<lambda>b. b = SLASH) p = Some (a, b) \<Longrightarrow> p = a @ SLASH # b \<and> SLASH \<notin> set b"
  by (auto dest!: split_once_Some rsplit_once_Some)

lemma strip_leading_dropWhile: "strip_leading p = dropWhile (\<lambda>b. b = SLASH) p"
  by (induction p) (simp_all add: strip_leading.simps [of "_ # _"] strip_leading.simps [of "[]"])

lemma names_strip_leading [simp]: "names (strip_leading p) = names p"
  unfolding strip_leading_dropWhile by (induction p) auto

lemma strip_leading_starts [simp]: "\<not> starts_with_slash (strip_leading p)"
  unfolding strip_leading_dropWhile by (induction p) auto

lemma ends_with_slash_Nil [simp]: "\<not> ends_with_slash []"
  by (simp add: ends_with_slash_def)

lemma ends_with_slash_snoc [simp]: "ends_with_slash (p @ [b]) \<longleftrightarrow> b = SLASH"
  by (simp add: ends_with_slash_def)

lemma ends_with_slash_append [simp]: "b \<noteq> [] \<Longrightarrow> ends_with_slash (a @ b) \<longleftrightarrow> ends_with_slash b"
  by (cases b rule: rev_cases) (simp_all add: ends_with_slash_def)

lemma ends_with_slash_Cons:
  "ends_with_slash (b # p) \<longleftrightarrow> (if p = [] then b = SLASH else ends_with_slash p)"
  using ends_with_slash_append [of p "[b]"] by (simp add: ends_with_slash_def)

lemma strip_leading_Cons [simp]:
  "strip_leading [] = []" "strip_leading (SLASH # p) = strip_leading p"
  by (simp_all add: strip_leading_dropWhile)

lemma ends_strip_leading: "ends_with_slash (strip_leading p) \<Longrightarrow> ends_with_slash p"
  unfolding strip_leading_dropWhile
  by (metis ends_with_slash_Nil ends_with_slash_append takeWhile_dropWhile_id)

lemma starts_with_slash_append [simp]: "a \<noteq> [] \<Longrightarrow> starts_with_slash (a @ b) \<longleftrightarrow> starts_with_slash a"
  by (cases a) simp_all

lemma trim_leading_slashes_sel [simp]:
  "has_root_dir (trim_leading_slashes c) = has_root_dir c"
  "c_path (trim_leading_slashes c) = (if has_root_dir c then c_path c else strip_leading (c_path c))"
  by (simp_all add: trim_leading_slashes_def)

lemma strip_suffix_slash_Some: "strip_suffix_slash p = Some q \<longleftrightarrow> p = q @ [SLASH]"
  by (cases p rule: rev_cases) (auto simp: strip_suffix_slash_def)

lemma strip_suffix_slash_None: "strip_suffix_slash p = None \<longleftrightarrow> \<not> ends_with_slash p"
  by (simp add: strip_suffix_slash_def)

lemma trim_trailing_slashes_spec:
  assumes "has_root_dir c \<Longrightarrow> starts_with_slash (c_path c)"
  shows "has_root_dir (trim_trailing_slashes c) = has_root_dir c \<and>
    names (c_path (trim_trailing_slashes c)) = names (c_path c) \<and>
    (ends_with_slash (c_path (trim_trailing_slashes c)) \<longrightarrow>
       has_root_dir c \<and> c_path (trim_trailing_slashes c) = [SLASH]) \<and>
    (starts_with_slash (c_path (trim_trailing_slashes c)) \<longrightarrow> starts_with_slash (c_path c)) \<and>
    (has_root_dir c \<longrightarrow> starts_with_slash (c_path (trim_trailing_slashes c))) \<and>
    (\<exists>n. c_path c = c_path (trim_trailing_slashes c) @ replicate n SLASH)"
  using assms
proof (induction c rule: trim_trailing_slashes.induct)
  case (1 c)
  show ?case
  proof (cases "(\<not> has_root_dir c \<or> 1 < length (c_path c)) \<and> ends_with_slash (c_path c)")
    case True
    then obtain q where q: "c_path c = q @ [SLASH]"
      using strip_suffix_slash_None strip_suffix_slash_Some by blast
    then have step: "trim_trailing_slashes c = trim_trailing_slashes (c\<lparr>c_path := q\<rparr>)"
      using True by (subst trim_trailing_slashes.simps) (simp add: strip_suffix_slash_Some [THEN iffD2])
    have "starts_with_slash q" if "has_root_dir c"
      using 1(2) [OF that] that q True by (cases q) auto
    then show ?thesis
      using 1(1) [of q] True q
      by (simp add: step strip_suffix_slash_Some) (metis append.assoc replicate_append_same starts_with_slash.simps(1) starts_with_slash_append replicate_Suc)
  next
    case False
    then have "trim_trailing_slashes c = c"
      by (subst trim_trailing_slashes.simps) (auto simp: strip_suffix_slash_None [THEN iffD2] split: option.split)
    moreover have "c_path c = [SLASH]" if "ends_with_slash (c_path c)"
      using False that 1(2) by (cases "c_path c") auto
    ultimately show ?thesis
      using False 1(2) by (auto intro: exI [of _ 0])
  qed
qed

lemmas trim_trailing =
  trim_trailing_slashes_spec [THEN conjunct1]
  trim_trailing_slashes_spec [THEN conjunct2, THEN conjunct1]
  trim_trailing_slashes_spec [THEN conjunct2, THEN conjunct2, THEN conjunct1]
  trim_trailing_slashes_spec [THEN conjunct2, THEN conjunct2, THEN conjunct2, THEN conjunct1]
  trim_trailing_slashes_spec [THEN conjunct2, THEN conjunct2, THEN conjunct2, THEN conjunct2, THEN conjunct1]

lemma trim_trailing_items:
  assumes "has_root_dir c \<longleftrightarrow> starts_with_slash (c_path c)"
  shows "components_wf (trim_trailing_slashes c)" and "path_items (trim_trailing_slashes c) = path_items c"
  using trim_trailing_slashes_spec [of c] assms by (auto simp: components_wf_def path_items_def)

lemma components_new_wf: "components_wf (components_new p)"
  unfolding components_new_def by (rule trim_trailing_items) simp

lemma components_new_items:
  "path_items (components_new p) =
     (if is_absolute p then [RootDir] else []) @ map name_component (names p)"
proof -
  have "path_items (components_new p) =
      path_items (trim_leading_slashes \<lparr>c_path = p, has_root_dir = starts_with_slash p\<rparr>)"
    unfolding components_new_def by (rule trim_trailing_items) simp
  then show ?thesis
    by (simp add: path_items_def is_absolute_def)
qed

lemma classify_name: "SLASH \<notin> set s \<Longrightarrow> s \<noteq> [] \<Longrightarrow> classify s = Some (name_component s)"
  by (simp add: classify_def name_component_def)

lemma components_next_root:
  assumes wf: "components_wf c" and root: "has_root_dir c"
  shows "\<exists>c'. components_next c = Ok (Some RootDir, c') \<and> components_wf c' \<and>
    path_items c = RootDir # path_items c'"
proof -
  obtain p where p: "c_path c = SLASH # p"
    using wf root by (cases "c_path c") (auto simp: components_wf_def)
  let ?c = "trim_leading_slashes (c\<lparr>has_root_dir := False\<rparr>)"
  have "components_next c = Ok (Some RootDir, ?c)"
    using p root by (simp add: components_next_def)
  moreover have "components_wf ?c"
    using wf p ends_strip_leading [of p]
    by (auto simp: components_wf_def ends_with_slash_Cons split: if_splits)
  moreover have "path_items c = RootDir # path_items ?c"
    using root p by (simp add: path_items_def)
  ultimately show ?thesis by blast
qed

lemma components_next_name:
  assumes wf: "components_wf c" and root: "\<not> has_root_dir c" and ne: "c_path c \<noteq> []"
  shows "\<exists>x c'. components_next c = Ok (Some x, c') \<and> components_wf c' \<and>
    path_items c = x # path_items c'"
proof (cases "split_once (\<lambda>b. b = SLASH) (c_path c)")
  case None
  then have "SLASH \<notin> set (c_path c)" by (auto simp: split_once_None)
  then show ?thesis
    using root ne None
    by (simp add: components_next_def components_wf_def path_items_def names_free classify_name)
next
  case (Some ab)
  obtain a b where ab: "ab = (a, b)" by fastforce
  then have p: "c_path c = a @ SLASH # b" and free: "SLASH \<notin> set a"
    using Some split_slash(1) by auto
  let ?c = "trim_leading_slashes (c\<lparr>c_path := b\<rparr>)"
  have a: "a \<noteq> []"
    using wf root p by (cases a) (auto simp: components_wf_def)
  have "components_next c = Ok (Some (name_component a), ?c)"
    using Some ab root ne free a by (simp add: components_next_def classify_name)
  moreover have "\<not> ends_with_slash b"
    using wf root p by (auto simp: components_wf_def ends_with_slash_Cons split: if_splits)
  then have "components_wf ?c"
    using root ends_strip_leading [of b] by (auto simp: components_wf_def)
  moreover have "path_items c = name_component a # path_items ?c"
    using root p free a by (simp add: path_items_def names_append names_free)
  ultimately show ?thesis by blast
qed

lemma components_next_back_root:
  assumes "components_wf c" and "has_root_dir c" and "c_path c = [SLASH]"
  shows "\<exists>c'. components_next_back c = Ok (Some RootDir, c') \<and> components_wf c' \<and>
    path_items c = path_items c' @ [RootDir]"
  using assms by (simp add: components_next_back_def components_wf_def path_items_def)

lemma components_next_back_name:
  assumes "components_wf c" and "c_path c \<noteq> []" and "c_path c \<noteq> [SLASH]"
  shows "\<exists>x c'. components_next_back c = Ok (Some x, c') \<and> components_wf c' \<and>
    path_items c = path_items c' @ [x]"
proof (cases "rsplit_once (\<lambda>b. b = SLASH) (c_path c)")
  case None
  then have free: "SLASH \<notin> set (c_path c)" by (auto simp: rsplit_once_None)
  then have "\<not> has_root_dir c"
    using assms by (cases "c_path c") (auto simp: components_wf_def)
  then show ?thesis
    using assms None free trim_trailing_items [of "c\<lparr>c_path := []\<rparr>"]
    by (simp add: components_next_back_def path_items_def names_free classify_name)
next
  case (Some ab)
  obtain a b where ab: "ab = (a, b)" by fastforce
  then have p: "c_path c = a @ SLASH # b" "SLASH \<notin> set b"
    using Some split_slash(2) by auto
  moreover have b: "b \<noteq> []"
    using assms p by (auto simp: components_wf_def ends_with_slash_Cons)
  show ?thesis
  proof (cases "a = [] \<and> has_root_dir c")
    case True
    let ?c = "trim_trailing_slashes (c\<lparr>c_path := [SLASH]\<rparr>)"
    have "components_next_back c = Ok (Some (name_component b), ?c)"
      using assms Some ab p b True by (simp add: components_next_back_def classify_name)
    moreover have "path_items ?c = [RootDir]" "components_wf ?c"
      using True trim_trailing_items [of "c\<lparr>c_path := [SLASH]\<rparr>"]
      by (simp_all add: path_items_def [of "c\<lparr>c_path := _\<rparr>"])
    moreover have "path_items c = [RootDir, name_component b]"
      using True p b by (simp add: path_items_def names_free)
    ultimately show ?thesis
      by (intro exI [of _ "name_component b"] exI [of _ ?c]) simp
  next
    case False
    let ?c = "trim_trailing_slashes (c\<lparr>c_path := a\<rparr>)"
    have "components_next_back c = Ok (Some (name_component b), ?c)"
      using assms Some ab p b False by (auto simp: components_next_back_def classify_name)
    moreover have "has_root_dir c \<longleftrightarrow> starts_with_slash a"
      using assms p False by (cases a) (auto simp: components_wf_def)
    then have "path_items ?c = path_items (c\<lparr>c_path := a\<rparr>)" "components_wf ?c"
      using trim_trailing_items [of "c\<lparr>c_path := a\<rparr>"] by simp_all
    moreover have "path_items c = path_items (c\<lparr>c_path := a\<rparr>) @ [name_component b]"
      using p b by (simp add: path_items_def names_append names_free)
    ultimately show ?thesis
      by (intro exI [of _ "name_component b"] exI [of _ ?c]) simp
  qed
qed

section \<open>The contract of an iterator\<close>

locale iterator =
  fixes nxt :: "'s \<Rightarrow> ('i option \<times> 's, 'e) outcome"
    and inv :: "'s \<Rightarrow> bool"
    and items :: "'s \<Rightarrow> 'i list"
  assumes nxt_None: "inv s \<Longrightarrow> items s = [] \<Longrightarrow> \<exists>s'. nxt s = Ok (None, s') \<and> inv s' \<and> items s' = []"
    and nxt_Some: "inv s \<Longrightarrow> items s = x # xs \<Longrightarrow>
      \<exists>s'. nxt s = Ok (Some x, s') \<and> inv s' \<and> items s' = xs"

text \<open>Comparing two iterators ends, and tells whether the second one's items come first.\<close>

locale iterator_pair = it: iterator nxt inv items + pre: iterator nxt' inv' items'
  for nxt :: "'s \<Rightarrow> ('i option \<times> 's, 'e) outcome" and inv items
    and nxt' :: "'t \<Rightarrow> ('i option \<times> 't, 'e) outcome" and inv' items'
begin

lemma iter_after_spec:
  "inv s \<Longrightarrow> inv' t \<Longrightarrow>
    (if prefix (items' t) (items s)
     then \<exists>s'. iter_after nxt nxt' s t = Some (Ok (Some s')) \<and> inv s' \<and> items s = items' t @ items s'
     else iter_after nxt nxt' s t = Some (Ok None))"
proof (induction "items' t" arbitrary: s t)
  case Nil
  obtain t' where t: "nxt' t = Ok (None, t')"
    using pre.nxt_None [of t] Nil by auto
  obtain x s' where "nxt s = Ok (x, s')"
    using it.nxt_None [of s] it.nxt_Some [of s] Nil by (cases "items s") blast+
  then have "iter_after nxt nxt' s t = Some (Ok (Some s))"
    using t by (simp add: iter_after.simps [of nxt nxt' s t])
  then show ?case
    using Nil by simp
next
  case (Cons y ys)
  have pre: "items' t = y # ys" using Cons.hyps(2) by simp
  then obtain t' where t: "nxt' t = Ok (Some y, t')" "inv' t'" "items' t' = ys"
    using pre.nxt_Some Cons.prems(2) by blast
  show ?case
  proof (cases "items s")
    case Nil
    then obtain s' where "nxt s = Ok (None, s')"
      using it.nxt_None Cons.prems(1) by blast
    then have "iter_after nxt nxt' s t = Some (Ok None)"
      using t by (simp add: iter_after.simps [of nxt nxt' s t])
    then show ?thesis
      using Nil pre by simp
  next
    case s: (Cons x xs)
    then obtain s' where s': "nxt s = Ok (Some x, s')" "inv s'" "items s' = xs"
      using it.nxt_Some Cons.prems(1) by blast
    have step: "iter_after nxt nxt' s t =
        (if x = y then iter_after nxt nxt' s' t' else Some (Ok None))"
      using t s' by (simp add: iter_after.simps [of nxt nxt' s t])
    have IH: "if prefix ys xs
      then \<exists>r. iter_after nxt nxt' s' t' = Some (Ok (Some r)) \<and> inv r \<and> xs = ys @ items r
      else iter_after nxt nxt' s' t' = Some (Ok None)"
      using Cons.hyps(1) [OF t(3) [symmetric] s'(2) t(2)] unfolding s'(3) t(3) .
    show ?thesis
      using IH unfolding step s pre by (cases "x = y") (simp_all split: if_splits)
  qed
qed

end

text \<open>A double-ended iterator gives the same items from the back.\<close>

locale double_ended = front: iterator nxt inv items + rear: iterator nxt_back inv "\<lambda>s. rev (items s)"
  for nxt :: "'s \<Rightarrow> ('i option \<times> 's, 'e) outcome" and nxt_back inv items
begin

lemma nxt_back_Some: "inv s \<Longrightarrow> items s = xs @ [x] \<Longrightarrow>
   \<exists>s'. nxt_back s = Ok (Some x, s') \<and> inv s' \<and> items s' = xs"
  using rear.nxt_Some [of s x "rev xs"] by auto

end

lemma components_next_Nil:
  assumes "components_wf c" and "path_items c = []"
  shows "components_next c = Ok (None, c)" and "components_next_back c = Ok (None, c)"
proof -
  have "c_path c = []" and "\<not> has_root_dir c"
    using assms names_eq_Nil [of "c_path c"] by (auto simp: components_wf_def path_items_def split: if_splits)
  then show "components_next c = Ok (None, c)" and "components_next_back c = Ok (None, c)"
    by (simp_all add: components_next_def components_next_back_def)
qed

lemma components_iterator:
  "iterator components_next components_wf path_items"
proof
  fix c :: components and x xs
  assume wf: "components_wf c"
  show "path_items c = [] \<Longrightarrow> \<exists>c'. components_next c = Ok (None, c') \<and>
      components_wf c' \<and> path_items c' = []"
    using wf components_next_Nil by blast
  assume items: "path_items c = x # xs"
  have "\<exists>y c'. components_next c = Ok (Some y, c') \<and> components_wf c' \<and>
      path_items c = y # path_items c'"
  proof (cases "has_root_dir c")
    case True
    then show ?thesis using components_next_root [OF wf True] by blast
  next
    case False
    then have "c_path c \<noteq> []" using items by (auto simp: path_items_def)
    then show ?thesis using components_next_name [OF wf False] by blast
  qed
  then show "\<exists>c'. components_next c = Ok (Some x, c') \<and> components_wf c' \<and>
      path_items c' = xs"
    using items by auto
qed

lemma components_iterator_back:
  "iterator components_next_back components_wf (\<lambda>c. rev (path_items c))"
proof
  fix c :: components and x xs
  assume wf: "components_wf c"
  show "rev (path_items c) = [] \<Longrightarrow> \<exists>c'. components_next_back c = Ok (None, c') \<and>
      components_wf c' \<and> rev (path_items c') = []"
    using wf components_next_Nil(2) [OF wf] by (intro exI [of _ c]) simp
  assume "rev (path_items c) = x # xs"
  then have items: "path_items c = rev xs @ [x]" by (simp add: rev_swap)
  then have ne: "c_path c \<noteq> []"
    using wf by (auto simp: path_items_def components_wf_def)
  have "\<exists>y c'. components_next_back c = Ok (Some y, c') \<and> components_wf c' \<and>
      path_items c = path_items c' @ [y]"
  proof (cases "c_path c = [SLASH]")
    case True
    then have "has_root_dir c" using wf by (simp add: components_wf_def)
    then show ?thesis using components_next_back_root [OF wf _ True] by blast
  next
    case False
    then show ?thesis using components_next_back_name [OF wf ne] by blast
  qed
  then obtain y c' where "components_next_back c = Ok (Some y, c')" "components_wf c'"
    "path_items c = path_items c' @ [y]" by blast
  then show "\<exists>c'. components_next_back c = Ok (Some x, c') \<and> components_wf c' \<and>
      rev (path_items c') = xs"
    using items by (intro exI [of _ c']) (auto simp: rev_swap)
qed

interpretation comps: double_ended components_next components_next_back components_wf path_items
  by (intro double_ended.intro components_iterator components_iterator_back)

interpretation comps_after: iterator_pair components_next components_wf path_items
    components_next components_wf path_items
  by (intro iterator_pair.intro components_iterator)

interpretation comps_back_after: iterator_pair
    components_next_back components_wf "\<lambda>c. rev (path_items c)"
    components_next_back components_wf "\<lambda>c. rev (path_items c)"
  by (intro iterator_pair.intro components_iterator_back)

lemma map_iterator:
  assumes "iterator nxt I items"
  shows "iterator (\<lambda>s. obind (nxt s) (\<lambda>(x, s). Ok (map_option f x, s))) I (\<lambda>s. map f (items s))"
proof
  fix s x xs
  assume I: "I s"
  show "map f (items s) = [] \<Longrightarrow>
      \<exists>s'. obind (nxt s) (\<lambda>(x, s). Ok (map_option f x, s)) = Ok (None, s') \<and> I s' \<and> map f (items s') = []"
    using iterator.nxt_None [OF assms I] by auto
  assume "map f (items s) = x # xs"
  then obtain y ys where "items s = y # ys" "x = f y" "xs = map f ys" by auto
  then show "\<exists>s'. obind (nxt s) (\<lambda>(x, s). Ok (map_option f x, s)) = Ok (Some x, s') \<and> I s' \<and>
      map f (items s') = xs"
    using iterator.nxt_Some [OF assms I] by fastforce
qed

interpretation iter_os: double_ended iter_next iter_next_back components_wf
    "\<lambda>c. map component_as_os_str (path_items c)"
  using map_iterator [OF components_iterator, of component_as_os_str]
    map_iterator [OF components_iterator_back, of component_as_os_str]
  by (intro double_ended.intro) (simp_all add: iter_next_def [abs_def] iter_next_back_def [abs_def] rev_map)

section \<open>The operations in terms of the components\<close>

definition comps_of :: "os_str \<Rightarrow> component list" where
  "comps_of p = path_items (components_new p)"

lemma comps_of_eq: "comps_of p = (if is_absolute p then [RootDir] else []) @ map name_component (names p)"
  by (simp add: comps_of_def components_new_items)

lemma comps_of_path: "components_wf c \<Longrightarrow> comps_of (c_path c) = path_items c"
  by (simp add: comps_of_eq is_absolute_def components_wf_def path_items_def)

lemma name_component_RootDir [simp]: "name_component s \<noteq> RootDir"
  by (simp add: name_component_def)

text \<open>Items taken from both ends, in the order of a list of directions.\<close>

fun drain :: "bool list \<Rightarrow> components \<Rightarrow> (component list \<times> component list \<times> components, unit) outcome" where
  "drain [] c = Ok ([], [], c)"
| "drain (True # ds) c =
     obind (components_next c) (\<lambda>(x, c). obind (drain ds c) (\<lambda>(fs, bs, c). Ok (case_option [] (\<lambda>x. [x]) x @ fs, bs, c)))"
| "drain (False # ds) c =
     obind (components_next_back c) (\<lambda>(x, c). obind (drain ds c) (\<lambda>(fs, bs, c). Ok (fs, case_option [] (\<lambda>x. [x]) x @ bs, c)))"

lemma drain_spec:
  "components_wf c \<Longrightarrow> \<exists>fs bs c'. drain ds c = Ok (fs, bs, c') \<and> components_wf c' \<and>
     path_items c = fs @ path_items c' @ rev bs \<and>
     length fs + length bs = min (length ds) (length (path_items c))"
proof (induction ds arbitrary: c)
  case Nil
  then show ?case by simp
next
  case (Cons d ds)
  show ?case
  proof (cases "path_items c = []")
    case True
    then show ?thesis
      using Cons components_next_Nil [OF Cons.prems] by (cases d) fastforce+
  next
    case False
    show ?thesis
    proof (cases d)
      case True
      obtain x xs where xs: "path_items c = x # xs" using False by (cases "path_items c") auto
      obtain c1 where c1: "components_next c = Ok (Some x, c1)" "components_wf c1" "path_items c1 = xs"
        using comps.front.nxt_Some [OF Cons.prems xs] by blast
      obtain fs bs c' where "drain ds c1 = Ok (fs, bs, c')" "components_wf c'"
        "xs = fs @ path_items c' @ rev bs" "length fs + length bs = min (length ds) (length xs)"
        using Cons.IH [OF c1(2)] c1(3) by metis
      then show ?thesis using True c1 xs by simp
    next
      case d: False
      obtain x xs where xs: "path_items c = xs @ [x]" using False by (cases "path_items c" rule: rev_cases) auto
      obtain c1 where c1: "components_next_back c = Ok (Some x, c1)" "components_wf c1" "path_items c1 = xs"
        using comps.nxt_back_Some [OF Cons.prems xs] by blast
      obtain fs bs c' where "drain ds c1 = Ok (fs, bs, c')" "components_wf c'"
        "xs = fs @ path_items c' @ rev bs" "length fs + length bs = min (length ds) (length xs)"
        using Cons.IH [OF c1(2)] c1(3) by metis
      then show ?thesis using d c1 xs by simp
    qed
  qed
qed


lemma parent_eq:
  "\<exists>q. parent p = Ok q \<and> (case q of
     None \<Rightarrow> comps_of p = [] \<or> comps_of p = [RootDir]
   | Some q \<Rightarrow> comps_of p \<noteq> [] \<and> comps_of p \<noteq> [RootDir] \<and> comps_of q = butlast (comps_of p))"
proof (cases "comps_of p" rule: rev_cases)
  case Nil
  then show ?thesis
    using components_next_Nil(2) [OF components_new_wf] by (simp add: parent_def comps_of_def)
next
  case (snoc xs x)
  obtain c where c: "components_next_back (components_new p) = Ok (Some x, c)" "components_wf c"
      "path_items c = xs"
    using comps.nxt_back_Some [OF components_new_wf snoc [unfolded comps_of_def]] by blast
  have "x = RootDir \<longleftrightarrow> xs = []" if "is_absolute p"
    using snoc that by (cases "names p" rule: rev_cases) (auto simp: comps_of_eq)
  moreover have "x \<noteq> RootDir" if "\<not> is_absolute p"
    using snoc that by (cases "names p" rule: rev_cases) (auto simp: comps_of_eq)
  moreover have "comps_of (c_path c) = xs"
    using comps_of_path [OF c(2)] c(3) by simp
  ultimately show ?thesis
    using snoc c(1) by (cases x) (auto simp: parent_def components_as_path_def)
qed

lemma file_name_eq:
  "file_name p = Ok (case rev (comps_of p) of Normal f # _ \<Rightarrow> Some f | _ \<Rightarrow> None)"
proof (cases "comps_of p" rule: rev_cases)
  case Nil
  then show ?thesis
    using components_next_Nil(2) [OF components_new_wf] by (simp add: file_name_def comps_of_def)
next
  case (snoc xs x)
  then show ?thesis
    using comps.nxt_back_Some [OF components_new_wf snoc [unfolded comps_of_def]]
    by (cases x) (auto simp: file_name_def)
qed

lemma path_after_eq:
  "if prefix (comps_of base) (comps_of p)
   then \<exists>q. path_strip_prefix p base = Some (Ok (Some q)) \<and> comps_of p = comps_of base @ comps_of q
   else path_strip_prefix p base = Some (Ok None)"
  using comps_after.iter_after_spec [OF components_new_wf components_new_wf, of base p]
  by (auto simp: path_strip_prefix_def comps_of_def [of p] comps_of_def [of base] components_as_path_def
      comps_of_path)

lemma path_starts_with_eq: "path_starts_with p base = Some (Ok (prefix (comps_of base) (comps_of p)))"
  using comps_after.iter_after_spec [OF components_new_wf components_new_wf, of base p]
  by (auto simp: path_starts_with_def comps_of_def split: if_splits)

lemma path_ends_with_eq: "path_ends_with p child = Some (Ok (suffix (comps_of child) (comps_of p)))"
  using comps_back_after.iter_after_spec [OF components_new_wf components_new_wf, of child p]
  by (auto simp: path_ends_with_def comps_of_def suffix_to_prefix split: if_splits)

lemma rsplit_dot_cases:
  "rsplit_once (\<lambda>b. b = DOT) f = None \<and> DOT \<notin> set f \<or>
   (\<exists>a b. rsplit_once (\<lambda>b. b = DOT) f = Some (a, b) \<and> f = a @ DOT # b \<and> DOT \<notin> set b)"
proof (cases "rsplit_once (\<lambda>b. b = DOT) f")
  case None
  then show ?thesis by (auto simp: rsplit_once_None)
next
  case (Some ab)
  then show ?thesis using rsplit_once_Some [of _ f "fst ab" "snd ab"] by (cases ab) auto
qed

lemma stem_extension_split:
  assumes "path_file_stem p = Ok (Some stem)" and "path_extension p = Ok (Some ext)"
  shows "file_name p = Ok (Some (stem @ DOT # ext)) \<and> DOT \<notin> set ext \<and> stem \<noteq> []"
proof -
  obtain f where f: "file_name p = Ok (Some f)"
    using assms by (auto simp: path_file_stem_def split: option.splits)
  then show ?thesis
    using assms rsplit_dot_cases [of f]
    by (auto simp: path_file_stem_def path_extension_def rsplit_file_at_dot_def split: if_splits option.splits)
qed

lemma names_no_slash: "s \<in> set (names p) \<Longrightarrow> s \<noteq> [] \<and> SLASH \<notin> set s"
proof -
  have "\<forall>s \<in> set (segs p). SLASH \<notin> set s"
    by (induction p) (auto dest!: list.set_sel [rotated] simp: Ball_def list.set_sel)
  then show "s \<in> set (names p) \<Longrightarrow> s \<noteq> [] \<and> SLASH \<notin> set s"
    by (auto simp: names_def)
qed

lemma comps_of_Normal: "Normal f \<in> set (comps_of p) \<Longrightarrow> f \<in> set (names p) \<and> f \<noteq> [DOT] \<and> f \<noteq> [DOT, DOT]"
  by (auto simp: comps_of_eq name_component_def split: if_splits)

lemma file_name_Some:
  "file_name p = Ok (Some f) \<Longrightarrow> Normal f \<in> set (comps_of p) \<and> f \<noteq> [] \<and> SLASH \<notin> set f"
proof -
  assume "file_name p = Ok (Some f)"
  then have "Normal f \<in> set (rev (comps_of p))"
    by (auto simp: file_name_eq split: list.splits component.splits)
  then show ?thesis
    using comps_of_Normal names_no_slash by (metis set_rev)
qed

lemma path_file_prefix_total: "path_file_prefix p \<noteq> Panic"
proof -
  have "split_file_at_dot f \<noteq> Panic" if "f \<noteq> []" for f
    using that by (auto simp: split_file_at_dot_def obind_eq_Panic split: option.splits)
  then show ?thesis
    using file_name_Some [of p]
    by (auto simp: path_file_prefix_def obind_eq_Panic file_name_eq split: option.splits)
qed

lemma pb_push_comps:
  assumes "buf \<noteq> []" and "is_relative path"
  shows "comps_of (pb_push buf path) = comps_of buf @ comps_of path"
proof (cases "ends_with_slash buf")
  case True
  then obtain b where b: "buf = b @ [SLASH]"
    using strip_suffix_slash_None strip_suffix_slash_Some by blast
  have "is_absolute (b @ SLASH # path) = is_absolute (b @ [SLASH])"
    by (cases b) (simp_all add: is_absolute_def)
  then show ?thesis
    using assms(2) True by (simp add: b pb_push_def comps_of_eq is_relative_def names_append)
next
  case False
  then show ?thesis
    using assms by (simp add: pb_push_def comps_of_eq is_relative_def is_absolute_def names_append)
qed

lemma components_new_prefix: "\<exists>n. p = c_path (components_new p) @ replicate n SLASH"
proof -
  let ?c = "trim_leading_slashes \<lparr>c_path = p, has_root_dir = starts_with_slash p\<rparr>"
  have "c_path ?c = p"
    by (cases p) (simp_all add: strip_leading_dropWhile)
  then show ?thesis
    using trim_trailing_slashes_spec [of ?c] by (auto simp: components_new_def)
qed

lemma file_name_position:
  assumes "file_name p = Ok (Some f)"
  shows "\<exists>pre n. c_path (components_new p) = pre @ f \<and> p = pre @ f @ replicate n SLASH \<and>
    (pre = [] \<or> ends_with_slash pre)"
proof -
  let ?c = "components_new p"
  obtain x c' where "components_next_back ?c = Ok (x, c')"
      and "(case x of Some (Normal q) \<Rightarrow> Some q | _ \<Rightarrow> None) = Some f"
    using assms by (auto simp: file_name_def)
  then have "components_next_back ?c = Ok (Some (Normal f), c')"
    by (auto split: option.splits component.splits)
  then have "\<exists>pre. c_path ?c = pre @ f \<and> (pre = [] \<or> ends_with_slash pre)"
    using split_slash(2) [of "c_path ?c"]
    by (auto simp: components_next_back_def classify_def Let_def ends_with_slash_Cons split: if_splits option.splits prod.splits
        intro: exI [of _ "_ @ [SLASH]"])
  then show ?thesis
    using components_new_prefix [of p] by (metis append.assoc)
qed

lemma file_name_append:
  assumes "pre = [] \<or> ends_with_slash pre" and "f \<noteq> []" and "SLASH \<notin> set f"
    and "f \<noteq> [DOT]" and "f \<noteq> [DOT, DOT]"
  shows "file_name (pre @ f) = Ok (Some f)"
proof -
  have "names (pre @ f) = names pre @ [f]"
    using assms(1)
  proof
    assume "ends_with_slash pre"
    then obtain b where "pre = b @ [SLASH]"
      using strip_suffix_slash_None strip_suffix_slash_Some by blast
    then show ?thesis using assms by (simp add: names_append names_free)
  qed (use assms in \<open>simp add: names_free\<close>)
  then show ?thesis
    using assms by (simp add: file_name_eq comps_of_eq name_component_def)
qed

lemma path_file_stem_prefix:
  assumes "file_name p = Ok (Some f)"
  shows "\<exists>stem rest. path_file_stem p = Ok (Some stem) \<and> f = stem @ rest \<and> stem \<noteq> []"
proof -
  have f: "f \<noteq> []" "f \<noteq> [DOT, DOT]"
    using file_name_Some [OF assms] comps_of_Normal [of f p] by auto
  from rsplit_dot_cases [of f] show ?thesis
  proof (elim disjE exE conjE)
    fix a b assume "rsplit_once (\<lambda>b. b = DOT) f = Some (a, b)" "f = a @ DOT # b"
    then show ?thesis
      using assms f by (cases "a = []") (auto simp: path_file_stem_def rsplit_file_at_dot_def)
  qed (use assms f in \<open>simp add: path_file_stem_def rsplit_file_at_dot_def\<close>)
qed

lemma pb_set_extension_eq:
  assumes f: "file_name p = Ok (Some f)" and new: "SLASH \<notin> set new" "DOT \<notin> set new"
  shows "\<exists>pre stem rest k. p = pre @ f @ replicate k SLASH \<and> f = stem @ rest \<and> path_file_stem p = Ok (Some stem) \<and>
    pb_set_extension p new = Ok (True, if new = [] then pre @ stem else pre @ stem @ DOT # new) \<and>
    (new = [] \<longrightarrow> stem \<noteq> [DOT] \<longrightarrow> stem \<noteq> [DOT, DOT] \<longrightarrow> file_name (pre @ stem) = Ok (Some stem)) \<and>
    (new \<noteq> [] \<longrightarrow> path_extension (pre @ stem @ DOT # new) = Ok (Some new) \<and> path_file_stem (pre @ stem @ DOT # new) = Ok (Some stem))"
proof -
  obtain stem rest where stem: "path_file_stem p = Ok (Some stem)" "f = stem @ rest" "stem \<noteq> []"
    using path_file_stem_prefix [OF f] by blast
  obtain pre n where pre: "c_path (components_new p) = pre @ f" "p = pre @ f @ replicate n SLASH"
      "pre = [] \<or> ends_with_slash pre"
    using file_name_position [OF f] by blast
  let ?q = "pre @ stem @ DOT # new"
  have sl: "SLASH \<notin> set stem" using file_name_Some [OF f] stem(2) by simp
  have set: "pb_set_extension p new = Ok (True, if new = [] then pre @ stem else ?q)"
    using stem f pre by (simp add: pb_set_extension_def)
  have cut: "file_name (pre @ stem) = Ok (Some stem)" if "stem \<noteq> [DOT]" "stem \<noteq> [DOT, DOT]"
    using file_name_append [OF pre(3) stem(3) sl that] .
  have ext: "path_extension ?q = Ok (Some new) \<and> path_file_stem ?q = Ok (Some stem)" if "new \<noteq> []"
  proof -
    have "file_name ?q = Ok (Some (stem @ DOT # new))"
      using file_name_append [of pre "stem @ DOT # new"] pre(3) stem new that sl
      by (auto simp: SLASH_def DOT_def append_eq_Cons_conv)
    moreover have "rsplit_once (\<lambda>b. b = DOT) (stem @ DOT # new) = Some (stem, new)"
      using rsplit_dot_cases [of "stem @ DOT # new"] new(2) by (auto simp: append_eq_append_conv2 append_eq_Cons_conv Cons_eq_append_conv)
    ultimately show ?thesis
      using stem new that by (auto simp: path_file_stem_def path_extension_def rsplit_file_at_dot_def append_eq_Cons_conv)
  qed
  show ?thesis using pre(2) stem(1,2) set cut ext by blast
qed

lemma pb_pop_name:
  assumes "f \<noteq> []" and "SLASH \<notin> set f" and "f \<noteq> [DOT]" and "f \<noteq> [DOT, DOT]"
  shows "pb_pop f = Ok (True, [])"
proof -
  have abs: "\<not> is_absolute f"
    using assms(1,2) by (cases f) (auto simp: is_absolute_def)
  then have comps: "comps_of f = [Normal f]"
    using assms by (simp add: comps_of_eq names_free name_component_def)
  obtain q where q: "parent f = Ok (Some q)" "comps_of q = []"
    using parent_eq [of f] comps by (auto split: option.splits)
  then have "q = []"
    using names_eq_Nil [of q] by (auto simp: comps_of_eq is_absolute_def split: if_splits)
  then show ?thesis
    using q by (simp add: pb_pop_def)
qed

section \<open>Properties\<close>

text \<open>
  C11. The components of a path are the root directory of an absolute path followed by the names
  between the slashes, and the iterator yields them from either end in any interleaving: the items
  taken from the front, what is left, and the items taken from the back in reverse are always the
  whole sequence, each call takes one item while there is one, and no call panics.
\<close>

theorem components_both_ends:
  "\<exists>fs bs c. drain ds (components_new p) = Ok (fs, bs, c) \<and>
     fs @ path_items c @ rev bs =
       (if is_absolute p then [RootDir] else []) @ map name_component (names p) \<and>
     length fs + length bs = min (length ds) (length (path_items (components_new p)))"
  using drain_spec [OF components_new_wf] by (metis components_new_items)

text \<open>
  C27. \<^verbatim>\<open>Path::parent\<close> is \<^verbatim>\<open>None\<close> exactly for the empty path and the root, and otherwise the path whose
  components are all but the last.
\<close>

theorem parent_drops_last:
  "\<exists>q. parent p = Ok q \<and> (case q of
     None \<Rightarrow> comps_of p = [] \<or> comps_of p = [RootDir]
   | Some q \<Rightarrow> comps_of p \<noteq> [] \<and> comps_of p \<noteq> [RootDir] \<and> comps_of q = butlast (comps_of p))"
  by (rule parent_eq)

text \<open>
  C25. \<^verbatim>\<open>starts_with\<close> and \<^verbatim>\<open>ends_with\<close> end and decide the prefix and the suffix relation of the
  components; \<^verbatim>\<open>strip_prefix\<close> succeeds exactly on a prefix and gives the remaining components.
\<close>

theorem path_prefix_suffix:
  "path_starts_with p base = Some (Ok (prefix (comps_of base) (comps_of p))) \<and>
   path_ends_with p base = Some (Ok (suffix (comps_of base) (comps_of p))) \<and>
   (if prefix (comps_of base) (comps_of p)
    then \<exists>q. path_strip_prefix p base = Some (Ok (Some q)) \<and> comps_of p = comps_of base @ comps_of q
    else path_strip_prefix p base = Some (Ok None))"
  by (intro conjI path_starts_with_eq path_ends_with_eq path_after_eq)

text \<open>
  C24. \<^verbatim>\<open>set_extension\<close> with an extension without dot and slash, on every path. A path without a file name is left as it is, and the result
  is \<^verbatim>\<open>false\<close>. Otherwise the result is \<^verbatim>\<open>true\<close> and the path is cut after its file stem, the slashes at its end included. The empty
  extension adds nothing, and the stem is then the file name unless it is one or two dots; another extension follows after a dot, and the path
  has that extension and the file stem it had before.
\<close>

theorem set_extension_sets:
  assumes "SLASH \<notin> set new" and "DOT \<notin> set new"
  shows "\<exists>name. file_name p = Ok name \<and> (case name of
      None \<Rightarrow> pb_set_extension p new = Ok (False, p)
    | Some f \<Rightarrow> \<exists>pre stem rest k. p = pre @ f @ replicate k SLASH \<and> f = stem @ rest \<and> path_file_stem p = Ok (Some stem) \<and>
        pb_set_extension p new = Ok (True, if new = [] then pre @ stem else pre @ stem @ DOT # new) \<and>
        (new = [] \<longrightarrow> stem \<noteq> [DOT] \<longrightarrow> stem \<noteq> [DOT, DOT] \<longrightarrow> file_name (pre @ stem) = Ok (Some stem)) \<and>
        (new \<noteq> [] \<longrightarrow> path_extension (pre @ stem @ DOT # new) = Ok (Some new) \<and> path_file_stem (pre @ stem @ DOT # new) = Ok (Some stem)))"
proof -
  obtain name where name: "file_name p = Ok name" by (simp add: file_name_eq)
  show ?thesis
  proof (cases name)
    case None
    then show ?thesis using name by (simp add: pb_set_extension_def path_file_stem_def)
  next
    case (Some f)
    then show ?thesis using name pb_set_extension_eq [of p f, OF _ assms] by simp
  qed
qed

theorem set_extension_sets_witness:
  "\<exists>q. pb_set_extension [0x2f, 0x61, 0x2e, 0x62, 0x2f] [0x63] = Ok (True, q) \<and>
     path_extension q = Ok (Some [0x63]) \<and> path_file_stem q = path_file_stem [0x2f, 0x61, 0x2e, 0x62, 0x2f]"
proof -
  have "file_name [0x2f, 0x61, 0x2e, 0x62, 0x2f] = Ok (Some [0x61, 0x2e, 0x62])"
    by (simp add: file_name_eq comps_of_eq names_def SLASH_def DOT_def name_component_def)
  moreover have "SLASH \<notin> set [0x63]" "DOT \<notin> set [0x63]" by (simp_all add: SLASH_def DOT_def)
  ultimately show ?thesis
    using set_extension_sets [of "[0x63]" "[0x2f, 0x61, 0x2e, 0x62, 0x2f]"] by auto
qed

text \<open>
  C26. The file stem and the extension, when a path has both, are the two parts of its file name
  around the last dot; the stem is not empty.
\<close>

theorem stem_and_extension:
  assumes "path_file_stem p = Ok (Some stem)" and "path_extension p = Ok (Some ext)"
  shows "file_name p = Ok (Some (stem @ DOT # ext)) \<and> DOT \<notin> set ext \<and> stem \<noteq> []"
  using assms by (rule stem_extension_split)

theorem stem_and_extension_witness:
  "file_name [0x61, 0x2e, 0x62] = Ok (Some ([0x61] @ DOT # [0x62])) \<and> DOT \<notin> set [0x62] \<and> [0x61 :: u8] \<noteq> []"
proof (rule stem_and_extension)
  have f: "file_name [0x61, 0x2e, 0x62] = Ok (Some [0x61, 0x2e, 0x62])"
    by (simp add: file_name_eq comps_of_eq names_def SLASH_def DOT_def name_component_def is_absolute_def)
  show "path_file_stem [0x61, 0x2e, 0x62] = Ok (Some [0x61])"
    by (simp add: path_file_stem_def f rsplit_file_at_dot_def rsplit_once_def DOT_def)
  show "path_extension [0x61, 0x2e, 0x62] = Ok (Some [0x62])"
    by (simp add: path_extension_def f rsplit_file_at_dot_def rsplit_once_def DOT_def)
qed

text \<open>
  C33. \<^verbatim>\<open>set_file_name\<close> (and \<^verbatim>\<open>with_file_name\<close>) of a relative path that is one name gives an absolute
  path: \<^verbatim>\<open>pop\<close> leaves the empty buffer, and \<^verbatim>\<open>push\<close> puts a slash after it.
\<close>

theorem set_file_name_becomes_absolute:
  assumes "f \<noteq> []" and "SLASH \<notin> set f" and "f \<noteq> [DOT]" and "f \<noteq> [DOT, DOT]" and "is_relative new"
  shows "is_relative f \<and> pb_set_file_name f new = Ok (SLASH # new) \<and> is_absolute (SLASH # new)"
proof -
  have "is_relative f"
    using assms(1,2) by (cases f) (auto simp: is_relative_def is_absolute_def)
  moreover have "file_name f = Ok (Some f)"
    using file_name_append [of "[]" f] assms by simp
  ultimately show ?thesis
    using pb_pop_name [OF assms(1-4)] assms(5)
    by (simp add: pb_set_file_name_def pb_push_def is_relative_def is_absolute_def)
qed

theorem set_file_name_becomes_absolute_witness:
  "is_relative [0x61] \<and> pb_set_file_name [0x61] [0x62] = Ok (SLASH # [0x62]) \<and> is_absolute (SLASH # [0x62])"
  by (rule set_file_name_becomes_absolute) (simp_all add: SLASH_def DOT_def is_relative_def is_absolute_def)

end
