(* ===== verification/Mem_Addr.thy ===== *)
theory Mem_Addr
  imports Kernel_Error
begin

text \<open>
  Addresses and pages: \<^verbatim>\<open>ov6_kernel/src/memory/addr.rs\<close> and the page size of \<^verbatim>\<open>memory/mod.rs\<close>.
  Arithmetic wraps as in the release build; the \<^verbatim>\<open>assert!\<close>s are panics.
\<close>

section \<open>Rounding to pages\<close>

definition PAGE_SIZE :: usize where "PAGE_SIZE = 4096"
definition PAGE_SHIFT :: nat where "PAGE_SHIFT = 12"

definition level_page_size :: "nat \<Rightarrow> (usize, 'e) outcome" where
  "level_page_size level = obind (require (level \<le> 2)) (\<lambda>_. Ok (push_bit (level * 9) PAGE_SIZE))"

definition page_roundup :: "usize \<Rightarrow> usize" where
  "page_roundup addr = (addr + PAGE_SIZE - 1) AND NOT (PAGE_SIZE - 1)"

definition page_rounddown :: "usize \<Rightarrow> usize" where
  "page_rounddown addr = addr AND NOT (PAGE_SIZE - 1)"

definition is_page_aligned :: "usize \<Rightarrow> bool" where
  "is_page_aligned addr \<longleftrightarrow> addr mod PAGE_SIZE = 0"

definition level_page_roundup :: "usize \<Rightarrow> nat \<Rightarrow> (usize, 'e) outcome" where
  "level_page_roundup addr level =
     obind (level_page_size level) (\<lambda>page_size. Ok ((addr + page_size - 1) AND NOT (page_size - 1)))"

definition level_page_rounddown :: "usize \<Rightarrow> nat \<Rightarrow> (usize, 'e) outcome" where
  "level_page_rounddown addr level =
     obind (level_page_size level) (\<lambda>page_size. Ok (addr AND NOT (page_size - 1)))"

definition is_level_page_aligned :: "usize \<Rightarrow> nat \<Rightarrow> (bool, 'e) outcome" where
  "is_level_page_aligned addr level =
     obind (level_page_size level) (\<lambda>page_size. Ok (addr mod page_size = 0))"

section \<open>Virtual addresses\<close>

type_synonym virt_addr = usize

definition VA_MAX :: virt_addr where "VA_MAX = push_bit (9 * 3 + PAGE_SHIFT - 1) 1"
definition VA_MIN_AVA :: virt_addr where "VA_MIN_AVA = 4096"
definition VA_ZERO :: virt_addr where "VA_ZERO = 0"

definition va_new :: "usize \<Rightarrow> (virt_addr, kernel_error) outcome" where
  "va_new addr = (if VA_MAX < addr then Err (TooLargeVirtualAddress addr) else Ok addr)"

definition with_level_idx :: "virt_addr \<Rightarrow> nat \<Rightarrow> usize \<Rightarrow> (virt_addr, kernel_error) outcome" where
  "with_level_idx va level idx =
     obind (require (level \<le> 2)) (\<lambda>_.
     obind (require (idx < 512)) (\<lambda>_.
     let shift = 9 * level + PAGE_SHIFT;
         mask = push_bit shift 0x1ff
     in Ok (va AND NOT mask OR push_bit shift idx)))"

definition level_idx :: "virt_addr \<Rightarrow> nat \<Rightarrow> (usize, kernel_error) outcome" where
  "level_idx va level =
     obind (require (level \<le> 2)) (\<lambda>_.
     let shift = 9 * level + PAGE_SHIFT
     in Ok (drop_bit shift va AND 0x1ff))"

definition va_byte_add :: "virt_addr \<Rightarrow> usize \<Rightarrow> (virt_addr, kernel_error) outcome" where
  "va_byte_add va offset =
     (case checked_add va offset of
        None \<Rightarrow> Err (TooLargeVirtualAddress (- 1))
      | Some addr \<Rightarrow> va_new addr)"

definition va_byte_sub :: "virt_addr \<Rightarrow> usize \<Rightarrow> (virt_addr, kernel_error) outcome" where
  "va_byte_sub va offset =
     (case checked_sub va offset of
        None \<Rightarrow> Err VirtualAddressUnderflow
      | Some addr \<Rightarrow> va_new addr)"

datatype va_bound = Included virt_addr | Excluded virt_addr | Unbounded

fun ok :: "('a, 'e) outcome \<Rightarrow> 'a option" where
  "ok (Ok x) = Some x"
| "ok _ = None"

definition va_range_inclusive :: "va_bound \<Rightarrow> va_bound \<Rightarrow> (virt_addr \<times> virt_addr) option" where
  "va_range_inclusive lo hi =
     Option.bind (case lo of
         Included va \<Rightarrow> Some va
       | Excluded va \<Rightarrow> ok (va_byte_add va 1)
       | Unbounded \<Rightarrow> Some VA_ZERO) (\<lambda>min_va.
     Option.bind (case hi of
         Included va \<Rightarrow> Some va
       | Excluded va \<Rightarrow> ok (va_byte_sub va 1)
       | Unbounded \<Rightarrow> ok (va_byte_sub VA_MAX 1)) (\<lambda>max_va.
     if max_va < min_va then None else Some (min_va, max_va)))"

section \<open>Physical addresses\<close>

type_synonym phys_addr = usize
type_synonym phys_page_num = usize

definition ppn_phys_addr :: "phys_page_num \<Rightarrow> phys_addr" where
  "ppn_phys_addr ppn = push_bit PAGE_SHIFT ppn"

definition phys_page_num :: "phys_addr \<Rightarrow> phys_page_num" where
  "phys_page_num pa = drop_bit PAGE_SHIFT pa"

definition as_non_null :: "phys_addr \<Rightarrow> (usize, 'e) outcome" where
  "as_non_null pa = obind (require (pa \<noteq> 0)) (\<lambda>_. Ok pa)"

section \<open>Facts\<close>

lemma page_mask: "PAGE_SIZE - 1 = mask 12"
  by (simp add: PAGE_SIZE_def mask_eq_exp_minus_1)

lemma and_not_mask: "(w :: usize) AND NOT (mask n) = push_bit n (drop_bit n w)"
  by (rule bit_word_eqI) (auto simp: bit_simps)

lemma unat_and_not_mask:
  assumes "n < 64"
  shows "unat ((w :: usize) AND NOT (mask n)) = unat w div 2 ^ n * 2 ^ n"
proof -
  have "unat w div 2 ^ n * 2 ^ n \<le> unat w" by simp
  then have "unat w div 2 ^ n * 2 ^ n < 2 ^ LENGTH(64)"
    using unat_lt_width [of w] by (rule le_less_trans)
  moreover have "unat (2 ^ n :: usize) = 2 ^ n"
    using assms by (simp add: unat_power_two)
  ultimately show ?thesis
    unfolding and_not_mask push_bit_eq_mult drop_bit_eq_div
    by (simp only: unat_word_ariths(2) unat_div mod_less)
qed

lemma unat_page_rounddown: "unat (page_rounddown a) = unat a div 4096 * 4096"
  unfolding page_rounddown_def page_mask using unat_and_not_mask [of 12 a] by simp

lemma unat_page_roundup:
  assumes "unat a + 4095 < 2 ^ 64"
  shows "unat (page_roundup a) = (unat a + 4095) div 4096 * 4096"
proof -
  have eq: "a + PAGE_SIZE - 1 = a + 4095" by (simp add: PAGE_SIZE_def)
  have "unat (a + 4095) = unat a + 4095"
    using assms unat_add_small [of a 4095] by simp
  then show ?thesis
    unfolding page_roundup_def page_mask eq
    using unat_and_not_mask [of 12 "a + 4095"] by simp
qed

lemma is_page_aligned_iff: "is_page_aligned a \<longleftrightarrow> unat a mod 4096 = 0"
proof -
  have "unat (a mod PAGE_SIZE) = unat a mod 4096"
    by (simp only: unat_mod PAGE_SIZE_def) simp
  then show ?thesis
    by (metis is_page_aligned_def unat_zero_iff)
qed

lemma ppn_roundtrip: "ppn_phys_addr (phys_page_num pa) = page_rounddown pa"
  by (simp only: ppn_phys_addr_def phys_page_num_def page_rounddown_def page_mask and_not_mask PAGE_SHIFT_def)

lemma bit_below: "(idx :: usize) < 512 \<Longrightarrow> bit idx n \<Longrightarrow> n < 9"
proof -
  assume "idx < 512" and b: "bit idx n"
  then have "unat idx < 2 ^ 9" by (simp add: word_less_nat_alt)
  moreover have "bit (unat idx) n" using b by (simp add: bit_unsigned_iff)
  ultimately show "n < 9"
    by (metis bit_take_bit_iff take_bit_nat_eq_self)
qed

lemma idx_mask: "(0x1ff :: usize) = mask 9"
  by (simp add: mask_eq_exp_minus_1)

definition level_shift :: "nat \<Rightarrow> nat" where
  "level_shift level = 9 * level + PAGE_SHIFT"

lemma level_shift_apart:
  "level' < level \<Longrightarrow> level_shift level' + 9 \<le> level_shift level"
  by (simp add: level_shift_def)

lemma set_get_idx:
  assumes "(idx :: usize) < 512" and "shift + 9 \<le> 64"
  shows "drop_bit shift (va AND NOT (push_bit shift 0x1ff) OR push_bit shift idx) AND 0x1ff = idx"
proof (rule bit_word_eqI)
  fix n assume "n < LENGTH(64)"
  then show "bit (drop_bit shift (va AND NOT (push_bit shift 0x1ff) OR push_bit shift idx) AND 0x1ff) n =
      bit idx n"
    unfolding idx_mask using assms bit_below [OF assms(1), of n]
    by (cases "n < 9") (auto simp: bit_simps)
qed

lemma set_get_other:
  assumes "(idx :: usize) < 512" and "shift + 9 \<le> shift' \<or> shift' + 9 \<le> shift" and "shift' + 9 \<le> 64"
  shows "drop_bit shift' (va AND NOT (push_bit shift 0x1ff) OR push_bit shift idx) AND 0x1ff =
    drop_bit shift' va AND 0x1ff"
proof (rule bit_word_eqI)
  fix n assume "n < LENGTH(64)"
  then show "bit (drop_bit shift' (va AND NOT (push_bit shift 0x1ff) OR push_bit shift idx) AND 0x1ff) n =
      bit (drop_bit shift' va AND 0x1ff) n"
    unfolding idx_mask using assms bit_below [OF assms(1), of "shift' + n - shift"]
    by (cases "n < 9") (auto simp: bit_simps)
qed

lemma with_level_idx_eq:
  assumes "level \<le> 2" and "idx < 512" and "level' \<le> 2"
  shows "obind (with_level_idx va level idx) (\<lambda>va. level_idx va level') =
    (if level' = level then Ok idx else level_idx va level')"
proof -
  have "level_shift level' + 9 \<le> 64" "level_shift level + 9 \<le> 64"
    using assms by (simp_all add: level_shift_def PAGE_SHIFT_def)
  moreover have "level_shift level + 9 \<le> level_shift level' \<or> level_shift level' + 9 \<le> level_shift level"
      if "level' \<noteq> level"
    using that level_shift_apart by (metis linorder_neqE_nat)
  ultimately show ?thesis
    using assms set_get_idx [OF assms(2), of "level_shift level" va]
      set_get_other [OF assms(2), of "level_shift level" "level_shift level'" va]
    by (simp add: with_level_idx_def level_idx_def Let_def flip: level_shift_def)
qed

text \<open>The fields of a virtual address.\<close>

lemma va_fields:
  assumes "va \<le> VA_MAX"
  shows "va = push_bit 30 (drop_bit 30 va AND 0x1ff) OR push_bit 21 (drop_bit 21 va AND 0x1ff) OR
    push_bit 12 (drop_bit 12 va AND 0x1ff) OR (va AND mask 12)"
proof -
  have "unat va \<le> 2 ^ 38"
    using assms by (simp add: word_le_nat_alt VA_MAX_def PAGE_SHIFT_def)
  then have "unat va < 2 ^ 39" by simp
  moreover have "bit (unat va) n" if "bit va n" for n using that by (simp add: bit_unsigned_iff)
  ultimately have "n < 39" if "bit va n" for n
    using that by (metis bit_take_bit_iff take_bit_nat_eq_self)
  then have below: "bit va n \<Longrightarrow> n < 39" for n .
  show ?thesis
    unfolding idx_mask
  proof (rule bit_word_eqI)
    fix n assume "n < LENGTH(64)"
    consider "n < 12" | "12 \<le> n" "n < 21" | "21 \<le> n" "n < 30" | "30 \<le> n" "n < 39" | "39 \<le> n"
      by linarith
    then show "bit va n = bit (push_bit 30 (drop_bit 30 va AND mask 9) OR
        push_bit 21 (drop_bit 21 va AND mask 9) OR push_bit 12 (drop_bit 12 va AND mask 9) OR
        (va AND mask 12)) n"
      using below [of n] \<open>n < LENGTH(64)\<close> by cases (auto simp: bit_simps)
  qed
qed

lemma va_byte_add_bound: "va_byte_add va off = Ok va' \<Longrightarrow> va' \<le> VA_MAX \<and> unat va' = unat va + unat off"
  by (auto simp: va_byte_add_def va_new_def dest: checked_add_SomeD split: option.splits if_splits)

lemma va_byte_sub_bound: "va_byte_sub va off = Ok va' \<Longrightarrow> va' \<le> VA_MAX \<and> unat va' + unat off = unat va"
  by (auto simp: va_byte_sub_def va_new_def checked_sub_def unat_sub word_le_nat_alt not_less
      split: option.splits if_splits)

section \<open>Properties\<close>

text \<open>
  C34. \<^verbatim>\<open>page_rounddown\<close> gives the largest page-aligned address not above its argument, and, when the
  addition does not wrap, \<^verbatim>\<open>page_roundup\<close> the smallest one not below it.
\<close>

theorem page_rounding:
  assumes "unat a + 4095 < 2 ^ 64"
  shows "is_page_aligned (page_rounddown a) \<and> is_page_aligned (page_roundup a) \<and>
    page_rounddown a \<le> a \<and> a \<le> page_roundup a \<and>
    (is_page_aligned b \<longrightarrow> b \<le> a \<longrightarrow> b \<le> page_rounddown a) \<and>
    (is_page_aligned b \<longrightarrow> a \<le> b \<longrightarrow> page_roundup a \<le> b)"
proof -
  note down = unat_page_rounddown [of a] and up = unat_page_roundup [OF assms]
  have below: "unat b \<le> unat a div 4096 * 4096" if al: "unat b mod 4096 = 0" and le: "unat b \<le> unat a"
  proof -
    obtain k where k: "unat b = 4096 * k"
      by (rule dvdE [OF mod_0_imp_dvd [OF al]])
    then have "4096 * k div 4096 \<le> unat a div 4096"
      using le by (intro div_le_mono) simp
    then show ?thesis using k by simp
  qed
  have above: "(unat a + 4095) div 4096 * 4096 \<le> unat b" if al: "unat b mod 4096 = 0" and le: "unat a \<le> unat b"
  proof -
    obtain k where k: "unat b = 4096 * k"
      by (rule dvdE [OF mod_0_imp_dvd [OF al]])
    then have "(unat a + 4095) div 4096 \<le> (4096 * k + 4095) div 4096"
      using le by (intro div_le_mono) simp
    then show ?thesis using k by simp
  qed
  have "unat a \<le> (unat a + 4095) div 4096 * 4096"
    using div_mult_mod_eq [of "unat a + 4095" 4096] mod_less_divisor [of 4096 "unat a + 4095"] by linarith
  then show ?thesis
    unfolding is_page_aligned_iff word_le_nat_alt down up
    using below above by (intro conjI impI) simp_all
qed

theorem page_rounding_witness:
  "is_page_aligned (page_rounddown 5000) \<and> is_page_aligned (page_roundup 5000) \<and>
    page_rounddown 5000 \<le> 5000 \<and> 5000 \<le> page_roundup 5000 \<and>
    4096 \<le> page_rounddown 5000 \<and> page_roundup 5000 \<le> 8192"
proof -
  have "is_page_aligned 4096" "is_page_aligned 8192"
    by (simp_all add: is_page_aligned_def PAGE_SIZE_def)
  then show ?thesis
    using page_rounding [of 5000 4096] page_rounding [of 5000 8192] by simp
qed

text \<open>
  C22. Setting the index of one level of a virtual address is read back at that level and leaves the
  index of every other level as it was; an address up to \<^verbatim>\<open>VirtAddr::MAX\<close> is put together by its
  three indices and the offset in the page.
\<close>

theorem level_idx_fields:
  assumes "level \<le> 2" and "idx < 512" and "level' \<le> 2" and "va \<le> VA_MAX"
  shows "obind (with_level_idx va level idx) (\<lambda>va. level_idx va level') =
      (if level' = level then Ok idx else level_idx va level') \<and>
    (\<exists>i2 i1 i0. level_idx va 2 = Ok i2 \<and> level_idx va 1 = Ok i1 \<and> level_idx va 0 = Ok i0 \<and>
       va = push_bit 30 i2 OR push_bit 21 i1 OR push_bit 12 i0 OR (va AND mask 12))"
proof -
  have "level_idx va 2 = Ok (drop_bit 30 va AND 0x1ff)" "level_idx va 1 = Ok (drop_bit 21 va AND 0x1ff)"
      "level_idx va 0 = Ok (drop_bit 12 va AND 0x1ff)"
    by (simp_all add: level_idx_def PAGE_SHIFT_def)
  then show ?thesis
    using with_level_idx_eq [OF assms(1-3), of va] va_fields [OF assms(4)] by blast
qed

theorem level_idx_fields_witness:
  "obind (with_level_idx 0x12345678 1 7) (\<lambda>va. level_idx va 2) =
      (if (2 :: nat) = 1 then Ok 7 else level_idx 0x12345678 2) \<and>
    (\<exists>i2 i1 i0. level_idx 0x12345678 2 = Ok i2 \<and> level_idx 0x12345678 1 = Ok i1 \<and>
       level_idx 0x12345678 0 = Ok i0 \<and>
       (0x12345678 :: usize) =
         push_bit 30 i2 OR push_bit 21 i1 OR push_bit 12 i0 OR (0x12345678 AND mask 12))"
  by (rule level_idx_fields) (simp_all add: VA_MAX_def PAGE_SHIFT_def)

end
