(* ===== verification/Pod.thy ===== *)
theory Pod
  imports Prelude
begin

text \<open>
  Plain data as bytes: words in the little-endian byte order of the target, byte memory, and the
  contract of a \<^verbatim>\<open>Pod\<close> type, a fixed-size codec between values and byte strings.
\<close>

section \<open>Little-endian words\<close>

definition le_bytes :: "'n::len word \<Rightarrow> u8 list" where
  "le_bytes w = map (\<lambda>i. ucast (drop_bit (8 * i) w)) [0..<LENGTH('n) div 8]"

primrec le_word :: "u8 list \<Rightarrow> 'n::len word" where
  "le_word [] = 0"
| "le_word (b # bs) = ucast b OR push_bit 8 (le_word bs)"

lemma length_le_bytes [simp]: "length (le_bytes (w :: 'n::len word)) = LENGTH('n) div 8"
  by (simp add: le_bytes_def)

lemma bit_le_word:
  "bit (le_word bs :: 'n::len word) i \<longleftrightarrow>
     i < LENGTH('n) \<and> i < 8 * length bs \<and> bit (bs ! (i div 8)) (i mod 8)"
proof (induction bs arbitrary: i)
  case (Cons b bs)
  show ?case
  proof (cases "i < 8")
    case True
    then show ?thesis
      by (auto simp: bit_simps dest: bit_imp_le_length)
  next
    case False
    then have "i div 8 = Suc ((i - 8) div 8)" "i mod 8 = (i - 8) mod 8"
      by (simp_all add: div_if mod_if)
    then show ?thesis
      using False Cons [of "i - 8"] by (auto simp: bit_simps dest: bit_imp_le_length)
  qed
qed simp

lemma le_word_le_bytes:
  assumes "8 dvd LENGTH('n::len)"
  shows "le_word (le_bytes (w :: 'n word)) = w"
proof (rule bit_word_eqI)
  fix i assume "i < LENGTH('n)"
  moreover have "i div 8 < LENGTH('n) div 8"
    using assms calculation by (auto simp: dvd_def)
  ultimately show "bit (le_word (le_bytes w) :: 'n word) i \<longleftrightarrow> bit w i"
    using assms by (auto simp: bit_le_word le_bytes_def bit_simps dvd_def)
qed

lemma le_bytes_le_word:
  assumes "8 * length bs = LENGTH('n::len)"
  shows "le_bytes (le_word bs :: 'n word) = bs"
proof (rule nth_equalityI)
  show "length (le_bytes (le_word bs :: 'n word)) = length bs"
    using assms by simp
  fix i assume "i < length (le_bytes (le_word bs :: 'n word))"
  then have i: "i < length bs" using assms by simp
  show "le_bytes (le_word bs :: 'n word) ! i = bs ! i"
  proof (rule bit_word_eqI)
    fix j assume "j < LENGTH(8)"
    then have "(8 * i + j) div 8 = i" "(8 * i + j) mod 8 = j" "8 * i + j < 8 * length bs"
      using i by simp_all
    then show "bit (le_bytes (le_word bs :: 'n word) ! i) j = bit (bs ! i) j"
      using i assms [symmetric] \<open>j < LENGTH(8)\<close>
      by (simp add: le_bytes_def bit_simps bit_le_word add.commute)
  qed
qed

section \<open>Byte memory\<close>

type_synonym memory = "usize \<Rightarrow> u8"

definition mem_read :: "memory \<Rightarrow> usize \<Rightarrow> nat \<Rightarrow> u8 list" where
  "mem_read m p n = map (\<lambda>i. m (p + of_nat i)) [0..<n]"

definition mem_write :: "memory \<Rightarrow> usize \<Rightarrow> u8 list \<Rightarrow> memory" where
  "mem_write m p bs = (\<lambda>a. if unat (a - p) < length bs then bs ! unat (a - p) else m a)"

lemma length_mem_read [simp]: "length (mem_read m p n) = n"
  by (simp add: mem_read_def)

lemma mem_read_write_same:
  "length bs \<le> 2 ^ 64 \<Longrightarrow> n = length bs \<Longrightarrow> mem_read (mem_write m p bs) p n = bs"
  by (rule nth_equalityI) (auto simp: mem_read_def mem_write_def unat_of_nat_small)

definition apart :: "usize \<Rightarrow> nat \<Rightarrow> usize \<Rightarrow> nat \<Rightarrow> bool" where
  "apart p n q k \<longleftrightarrow> (\<forall>i < k. n \<le> unat (q + of_nat i - p))"

lemma mem_read_write_apart:
  "apart p (length bs) q n \<Longrightarrow> mem_read (mem_write m p bs) q n = mem_read m q n"
  by (auto simp: mem_read_def mem_write_def apart_def)

lemma apart_mono: "apart p n q k \<Longrightarrow> n' \<le> n \<Longrightarrow> k' \<le> k \<Longrightarrow> apart p n' q k'"
  by (auto simp: apart_def intro: order.trans)

lemma apart_blocks:
  assumes "unat p + n \<le> unat q \<or> unat q + k \<le> unat p"
    and "unat p + n \<le> 2 ^ 64" and "unat q + k \<le> 2 ^ 64"
  shows "apart p n q k"
  unfolding apart_def
proof (intro allI impI)
  fix i assume i: "i < k"
  have "unat (of_nat i :: usize) = i"
    using i assms(3) by (simp add: unat_of_nat_small)
  then have qi: "unat (q + of_nat i) = unat q + i"
    using i assms(3) by (simp add: unat_word_ariths)
  show "n \<le> unat (q + of_nat i - p)"
  proof (cases "unat p + n \<le> unat q")
    case True
    then have "p \<le> q + of_nat i" by (simp add: word_le_nat_alt qi)
    then show ?thesis using True by (simp add: unat_sub qi)
  next
    case False
    then have "unat (q + of_nat i) < unat p" using assms i by (simp add: qi)
    then have "unat (q + of_nat i - p) = 2 ^ 64 + unat q + i - unat p"
      by (simp add: unat_sub_if' qi)
    then show ?thesis using assms by simp
  qed
qed

section \<open>The contract of a plain data type\<close>

locale pod =
  fixes enc :: "'v \<Rightarrow> u8 list"
    and dec :: "u8 list \<Rightarrow> 'v"
    and size_of :: nat
    and valid :: "'v \<Rightarrow> bool"
  assumes length_enc: "valid v \<Longrightarrow> length (enc v) = size_of"
    and dec_enc: "valid v \<Longrightarrow> dec (enc v) = v"
    and enc_dec: "length bs = size_of \<Longrightarrow> enc (dec bs) = bs"
    and valid_dec: "length bs = size_of \<Longrightarrow> valid (dec bs)"
begin

lemma enc_eq: "valid v \<Longrightarrow> valid w \<Longrightarrow> enc v = enc w \<longleftrightarrow> v = w"
  by (metis dec_enc)

end

lemma le_pod:
  "8 dvd LENGTH('n::len) \<Longrightarrow>
     pod (le_bytes :: 'n word \<Rightarrow> _) le_word (LENGTH('n) div 8) (\<lambda>_. True)"
  by unfold_locales (simp_all add: le_word_le_bytes le_bytes_le_word)

interpretation pod_u16: pod "le_bytes :: u16 \<Rightarrow> _" le_word 2 "\<lambda>_. True"
  using le_pod [where 'n = 16] by simp

interpretation pod_u32: pod "le_bytes :: u32 \<Rightarrow> _" le_word 4 "\<lambda>_. True"
  using le_pod [where 'n = 32] by simp

interpretation pod_usize: pod "le_bytes :: usize \<Rightarrow> _" le_word 8 "\<lambda>_. True"
  using le_pod [where 'n = 64] by simp

text \<open>Two fields in sequence.\<close>

lemma pod_pair:
  assumes a: "pod enc dec n valid" and b: "pod enc' dec' n' valid'"
  shows "pod (\<lambda>(v, w). enc v @ enc' w) (\<lambda>bs. (dec (take n bs), dec' (drop n bs))) (n + n')
    (pred_prod valid valid')"
  by unfold_locales
    (auto simp: pod.length_enc [OF a] pod.length_enc [OF b] pod.dec_enc [OF a] pod.dec_enc [OF b]
      pod.enc_dec [OF a] pod.enc_dec [OF b] pod.valid_dec [OF a] pod.valid_dec [OF b])

end
