(* ===== verification/Free_List.thy ===== *)
theory Free_List
  imports Pod
begin

text \<open>
  The two allocators that keep their free blocks in a list threaded through the blocks themselves:
  \<^verbatim>\<open>page_alloc/src/page_frame_allocator.rs\<close> and \<^verbatim>\<open>slab_allocator/src/lib.rs\<close>. The list lives in byte
  memory: a \<^verbatim>\<open>Run\<close> is the eight bytes at the start of a free block. The locale \<open>frame_allocator\<close> is
  what a client relies on; both allocators are interpreted as instances.
\<close>

section \<open>Runs in memory\<close>

text \<open>\<^verbatim>\<open>Option<NonNull<Run>>\<close> is a word, null for \<^verbatim>\<open>None\<close>.\<close>

definition run_next :: "memory \<Rightarrow> usize \<Rightarrow> usize option" where
  "run_next m p = (let w = le_word (mem_read m p 8) in if w = 0 then None else Some w)"

definition set_run_next :: "memory \<Rightarrow> usize \<Rightarrow> usize option \<Rightarrow> memory" where
  "set_run_next m p next = mem_write m p (le_bytes (case next of None \<Rightarrow> 0 | Some q \<Rightarrow> q))"

section \<open>The page frame allocator\<close>

record page_frame_allocator =
  pf_heap_start :: usize
  pf_heap_end :: usize
  pf_free_list :: "usize option"
  pf_total_pages :: usize
  pf_free_pages :: usize

text \<open>The loop of \<^verbatim>\<open>new\<close>; \<open>None\<close> stands for a loop that does not end.\<close>

partial_function (option) pf_new_loop ::
  "usize \<Rightarrow> usize \<Rightarrow> usize \<Rightarrow> usize option \<Rightarrow> usize \<Rightarrow> memory \<Rightarrow> (usize option \<times> usize \<times> memory) option" where
  "pf_new_loop page_size start p free_list total_pages m =
     (if start < p
      then let p = p - page_size;
               m = set_run_next m p free_list
           in pf_new_loop page_size start p (Some p) (total_pages + 1) m
      else Some (free_list, total_pages, m))"

definition pf_new ::
  "usize \<Rightarrow> usize \<Rightarrow> usize \<Rightarrow> memory \<Rightarrow> (page_frame_allocator \<times> memory, unit) outcome option" where
  "pf_new page_size start fin m =
     (if page_size = 0 \<or> start mod page_size \<noteq> 0 \<or> fin mod page_size \<noteq> 0 then Some Panic
      else map_option (\<lambda>(free_list, total_pages, m).
             Ok (\<lparr>pf_heap_start = start, pf_heap_end = fin, pf_free_list = free_list,
                  pf_total_pages = total_pages, pf_free_pages = total_pages\<rparr>, m))
           (pf_new_loop page_size start fin None 0 m))"

definition pf_contains :: "page_frame_allocator \<Rightarrow> usize \<Rightarrow> bool" where
  "pf_contains a ptr \<longleftrightarrow> pf_heap_start a \<le> ptr \<and> ptr < pf_heap_end a"

definition pf_is_allocated_pointer :: "usize \<Rightarrow> page_frame_allocator \<Rightarrow> usize \<Rightarrow> bool" where
  "pf_is_allocated_pointer page_size a ptr \<longleftrightarrow> ptr mod page_size = 0 \<and> pf_contains a ptr"

fun pf_alloc :: "page_frame_allocator \<times> memory \<Rightarrow> usize option \<times> page_frame_allocator \<times> memory" where
  "pf_alloc (a, m) =
     (case pf_free_list a of
        None \<Rightarrow> (None, a, m)
      | Some page \<Rightarrow>
          (Some page,
           a\<lparr>pf_free_list := run_next m page, pf_free_pages := pf_free_pages a - 1\<rparr>, m))"

definition pf_alloc_zeroed ::
  "usize \<Rightarrow> page_frame_allocator \<times> memory \<Rightarrow> usize option \<times> page_frame_allocator \<times> memory" where
  "pf_alloc_zeroed page_size s =
     (case pf_alloc s of
        (None, s) \<Rightarrow> (None, s)
      | (Some page, a, m) \<Rightarrow> (Some page, a, mem_write m page (replicate (unat page_size) 0)))"

fun pf_free ::
  "usize \<Rightarrow> usize \<Rightarrow> page_frame_allocator \<times> memory \<Rightarrow> (page_frame_allocator \<times> memory, unit) outcome" where
  "pf_free page_size page (a, m) =
     obind (require (pf_contains a page)) (\<lambda>_.
     obind (require (page mod page_size = 0)) (\<lambda>_.
     let m = set_run_next m page (pf_free_list a);
         a = a\<lparr>pf_free_list := Some page\<rparr>
     in Ok (a\<lparr>pf_free_pages := pf_free_pages a + 1\<rparr>, m)))"

section \<open>The slab allocator\<close>

record slab_allocator =
  sl_start :: usize
  sl_end :: usize
  sl_free_list :: "usize option"

partial_function (option) sl_new_loop ::
  "usize \<Rightarrow> usize \<Rightarrow> usize \<Rightarrow> usize option \<Rightarrow> memory \<Rightarrow> (usize option \<times> memory, unit) outcome option" where
  "sl_new_loop tsize start p free_list m =
     (if start < p
      then let p = p - tsize in
           if p = 0 then Some Panic
           else sl_new_loop tsize start p (Some p) (set_run_next m p free_list)
      else Some (Ok (free_list, m)))"

definition sl_new ::
  "usize \<Rightarrow> usize \<Rightarrow> usize \<Rightarrow> usize \<Rightarrow> memory \<Rightarrow> (slab_allocator \<times> memory, unit) outcome option" where
  "sl_new tsize align start fin m =
     (if start mod align \<noteq> 0 \<or> fin mod align \<noteq> 0 \<or> (fin - start) mod tsize \<noteq> 0 then Some Panic
      else map_option (\<lambda>r. obind r (\<lambda>(free_list, m).
             Ok (\<lparr>sl_start = start, sl_end = fin, sl_free_list = free_list\<rparr>, m)))
           (sl_new_loop tsize start fin None m))"

fun sl_allocate :: "slab_allocator \<times> memory \<Rightarrow> usize option \<times> slab_allocator \<times> memory" where
  "sl_allocate (a, m) =
     (case sl_free_list a of
        None \<Rightarrow> (None, a, m)
      | Some ptr \<Rightarrow> (Some ptr, a\<lparr>sl_free_list := run_next m ptr\<rparr>, m))"

fun sl_deallocate ::
  "usize \<Rightarrow> usize \<Rightarrow> slab_allocator \<times> memory \<Rightarrow> (slab_allocator \<times> memory, unit) outcome" where
  "sl_deallocate align ptr (a, m) =
     obind (require (sl_start a \<le> ptr \<and> ptr < sl_end a)) (\<lambda>_.
     obind (require (ptr mod align = 0)) (\<lambda>_.
     Ok (a\<lparr>sl_free_list := Some ptr\<rparr>, set_run_next m ptr (sl_free_list a))))"

section \<open>Blocks and the list through them\<close>

definition block_addr :: "usize \<Rightarrow> usize \<Rightarrow> nat \<Rightarrow> usize" where
  "block_addr sz start k = start + of_nat k * sz"

definition block_count :: "usize \<Rightarrow> usize \<Rightarrow> usize \<Rightarrow> nat" where
  "block_count sz start fin = (unat fin - unat start) div unat sz"

definition blocks :: "usize \<Rightarrow> usize \<Rightarrow> usize \<Rightarrow> usize list" where
  "blocks sz start fin = map (block_addr sz start) [0..<block_count sz start fin]"

definition region_ok :: "usize \<Rightarrow> usize \<Rightarrow> usize \<Rightarrow> bool" where
  "region_ok sz start fin \<longleftrightarrow> 8 \<le> unat sz \<and> 0 < unat start \<and> unat start \<le> unat fin \<and>
     (unat fin - unat start) mod unat sz = 0"

fun chain :: "memory \<Rightarrow> usize option \<Rightarrow> usize list \<Rightarrow> bool" where
  "chain m h [] = (h = None)"
| "chain m h (p # ps) = (h = Some p \<and> chain m (run_next m p) ps)"

definition list_ok :: "usize \<Rightarrow> usize \<Rightarrow> usize \<Rightarrow> memory \<Rightarrow> usize option \<Rightarrow> usize list \<Rightarrow> bool" where
  "list_ok sz start fin m h ps \<longleftrightarrow>
     chain m h ps \<and> distinct ps \<and> set ps \<subseteq> set (blocks sz start fin)"

lemma block_end:
  assumes "region_ok sz start fin" and "k < block_count sz start fin"
  shows "unat start + k * unat sz + unat sz \<le> unat fin"
proof -
  have "unat fin - unat start = block_count sz start fin * unat sz"
    using assms(1) by (auto simp: region_ok_def block_count_def)
  moreover have "(k + 1) * unat sz \<le> block_count sz start fin * unat sz"
    using assms(2) by (intro mult_le_mono1) simp
  moreover have "(k + 1) * unat sz = k * unat sz + unat sz" "unat start \<le> unat fin"
    using assms(1) by (simp_all add: region_ok_def)
  ultimately show ?thesis by linarith
qed

lemma unat_block_addr:
  assumes "region_ok sz start fin" and "k \<le> block_count sz start fin"
  shows "unat (block_addr sz start k) = unat start + k * unat sz"
proof -
  have "unat start + k * unat sz \<le> unat fin"
  proof (cases k)
    case (Suc j)
    then show ?thesis using block_end [OF assms(1), of j] assms(2) by simp
  qed (use assms(1) in \<open>simp add: region_ok_def\<close>)
  then have le: "unat start + k * unat sz < 2 ^ 64"
    using unat_lt_width [of fin] by simp
  have "k * 1 \<le> k * unat sz"
    using assms(1) by (intro mult_le_mono2) (simp add: region_ok_def)
  then have "k < 2 ^ 64" using le by linarith
  then have k: "unat (of_nat k :: usize) = k"
    by (intro unat_of_nat_small) simp
  have "unat (of_nat k * sz) = k * unat sz"
    using le by (simp add: unat_word_ariths k)
  then show ?thesis
    using le by (simp add: block_addr_def unat_word_ariths)
qed

lemma block_addr_inj:
  assumes "region_ok sz start fin" and "j < block_count sz start fin" and "k < block_count sz start fin"
    and eq: "block_addr sz start j = block_addr sz start k"
  shows "j = k"
proof -
  have "unat start + j * unat sz = unat start + k * unat sz"
    using unat_block_addr [OF assms(1), of j] unat_block_addr [OF assms(1), of k] assms(2,3)
    by (metis eq less_imp_le)
  then have "j * unat sz = k * unat sz" by linarith
  moreover have "0 < unat sz" using assms(1) by (simp add: region_ok_def)
  ultimately show ?thesis by (metis mult_cancel2 less_irrefl)
qed

lemma block_range:
  assumes "region_ok sz start fin" and "p \<in> set (blocks sz start fin)"
  shows "0 < unat p" and "unat start \<le> unat p" and "unat p + unat sz \<le> unat fin"
    and "unat p + unat sz \<le> 2 ^ 64"
proof -
  obtain k where k: "p = block_addr sz start k" "k < block_count sz start fin"
    using assms(2) by (auto simp: blocks_def)
  then have up: "unat p = unat start + k * unat sz"
    using unat_block_addr [OF assms(1), of k] by simp
  show le: "unat p + unat sz \<le> unat fin"
    using up block_end [OF assms(1) k(2)] by linarith
  show "unat start \<le> unat p" using up by linarith
  then show "0 < unat p" using assms(1) unfolding region_ok_def by linarith
  show "unat p + unat sz \<le> 2 ^ 64"
    using le unat_lt_width [of fin] by simp
qed

lemma blocks_apart:
  assumes r: "region_ok sz start fin" and p: "p \<in> set (blocks sz start fin)"
    and q: "q \<in> set (blocks sz start fin)" and ne: "p \<noteq> q"
  shows "apart p (unat sz) q (unat sz)"
proof -
  obtain j k where jk: "p = block_addr sz start j" "j < block_count sz start fin"
      "q = block_addr sz start k" "k < block_count sz start fin"
    using p q by (auto simp: blocks_def)
  have up: "unat p = unat start + j * unat sz" and uq: "unat q = unat start + k * unat sz"
    using jk unat_block_addr [OF r, of j] unat_block_addr [OF r, of k] by auto
  have "(i + 1) * unat sz \<le> l * unat sz" if "i < l" for i l
    using that by (intro mult_le_mono1) simp
  then have "i * unat sz + unat sz \<le> l * unat sz" if "i < l" for i l
    using that by (metis distrib_right mult_1)
  moreover have "j < k \<or> k < j"
    using ne jk by (metis linorder_neqE_nat)
  ultimately have "unat p + unat sz \<le> unat q \<or> unat q + unat sz \<le> unat p"
    unfolding up uq by (metis add.assoc add_le_cancel_left)
  then show ?thesis
    using block_range(4) [OF r p] block_range(4) [OF r q] by (rule apart_blocks)
qed

lemma run_next_set_same: "h \<noteq> Some 0 \<Longrightarrow> run_next (set_run_next m p h) p = h"
  by (cases h) (simp_all add: run_next_def set_run_next_def mem_read_write_same le_word_le_bytes)

lemma run_next_write_apart: "apart p (length bs) q 8 \<Longrightarrow> run_next (mem_write m p bs) q = run_next m q"
  by (simp add: run_next_def mem_read_write_apart)

lemma chain_cong: "(\<And>q. q \<in> set ps \<Longrightarrow> run_next m' q = run_next m q) \<Longrightarrow> chain m' h ps = chain m h ps"
  by (induction ps arbitrary: h) auto

lemma chain_head: "chain m h ps \<Longrightarrow> h = (case ps of [] \<Rightarrow> None | p # _ \<Rightarrow> Some p)"
  by (cases ps) auto

text \<open>A client that writes to a block it holds leaves the list alone.\<close>

lemma list_ok_write:
  assumes "region_ok sz start fin" and "list_ok sz start fin m h ps"
    and "p \<in> set (blocks sz start fin)" and "p \<notin> set ps" and "length bs \<le> unat sz"
  shows "list_ok sz start fin (mem_write m p bs) h ps"
proof -
  have "run_next (mem_write m p bs) q = run_next m q" if "q \<in> set ps" for q
  proof (rule run_next_write_apart)
    have "apart p (unat sz) q (unat sz)"
      using assms that by (intro blocks_apart) (auto simp: list_ok_def)
    then show "apart p (length bs) q 8"
      using assms(1,5) by (rule_tac apart_mono) (auto simp: region_ok_def)
  qed
  then show ?thesis
    using assms(2) chain_cong [of ps "mem_write m p bs" m h] by (simp add: list_ok_def)
qed

lemma list_ok_push:
  assumes r: "region_ok sz start fin" and l: "list_ok sz start fin m h ps"
    and p: "p \<in> set (blocks sz start fin)" "p \<notin> set ps"
  shows "list_ok sz start fin (set_run_next m p h) (Some p) (p # ps)"
proof -
  have "0 \<notin> set (blocks sz start fin)"
    using block_range(1) [OF r, of 0] by auto
  then have "h \<noteq> Some 0"
    using l by (cases ps) (auto simp: list_ok_def)
  moreover have "list_ok sz start fin (set_run_next m p h) h ps"
    unfolding set_run_next_def
    by (rule list_ok_write [OF r l p]) (use r in \<open>simp add: region_ok_def\<close>)
  ultimately show ?thesis
    using p by (simp add: list_ok_def run_next_set_same)
qed

lemma list_ok_pop: "list_ok sz start fin m h (p # ps) \<Longrightarrow> h = Some p \<and> list_ok sz start fin m (run_next m p) ps"
  by (simp add: list_ok_def)


text \<open>The loop of \<^verbatim>\<open>new\<close> threads the list through all blocks, in the order of their addresses.\<close>

lemma block_addr_0: "block_addr sz start 0 = start"
  by (simp add: block_addr_def)

lemma block_addr_Suc: "block_addr sz start (Suc k) - sz = block_addr sz start k"
  by (simp add: block_addr_def distrib_right)

lemma blocks_push:
  assumes r: "region_ok sz start fin" and k: "k < block_count sz start fin"
    and l: "list_ok sz start fin m h (map (block_addr sz start) [Suc k..<block_count sz start fin])"
  shows "list_ok sz start fin (set_run_next m (block_addr sz start k) h) (Some (block_addr sz start k))
    (map (block_addr sz start) [k..<block_count sz start fin])"
proof -
  have "block_addr sz start k \<noteq> block_addr sz start j" if "j \<in> {Suc k..<block_count sz start fin}" for j
    using block_addr_inj [OF r k, of j] that by force
  then have "block_addr sz start k \<notin> set (map (block_addr sz start) [Suc k..<block_count sz start fin])"
    by (simp add: image_iff)
  moreover have "block_addr sz start k \<in> set (blocks sz start fin)"
    using k by (auto simp: blocks_def)
  ultimately have "list_ok sz start fin (set_run_next m (block_addr sz start k) h)
      (Some (block_addr sz start k))
      (block_addr sz start k # map (block_addr sz start) [Suc k..<block_count sz start fin])"
    using list_ok_push [OF r l] by blast
  then show ?thesis
    unfolding upt_conv_Cons [OF k] by simp
qed

lemma block_addr_less: "region_ok sz start fin \<Longrightarrow> k < block_count sz start fin \<Longrightarrow> start < block_addr sz start (Suc k)"
  using unat_block_addr [of sz start fin "Suc k"] by (simp add: word_less_nat_alt region_ok_def)

lemma pf_new_loop_spec:
  assumes r: "region_ok sz start fin"
  shows "k \<le> block_count sz start fin \<Longrightarrow>
    list_ok sz start fin m h (map (block_addr sz start) [k..<block_count sz start fin]) \<Longrightarrow>
    \<exists>h' m'. pf_new_loop sz start (block_addr sz start k) h tot m = Some (h', tot + of_nat k, m') \<and>
      list_ok sz start fin m' h' (blocks sz start fin)"
proof (induction k arbitrary: h tot m)
  case 0
  then show ?case
    by (simp add: pf_new_loop.simps [of sz start start] block_addr_0 blocks_def)
next
  case (Suc k)
  then have k: "k < block_count sz start fin" by simp
  show ?case
    using Suc.IH [OF _ blocks_push [OF r k Suc.prems(2)], of "tot + 1"] Suc.prems(1) block_addr_less [OF r k]
    by (simp add: pf_new_loop.simps [of sz start "block_addr sz start (Suc k)"] block_addr_Suc ac_simps Let_def)
qed

lemma sl_new_loop_spec:
  assumes r: "region_ok sz start fin"
  shows "k \<le> block_count sz start fin \<Longrightarrow>
    list_ok sz start fin m h (map (block_addr sz start) [k..<block_count sz start fin]) \<Longrightarrow>
    \<exists>h' m'. sl_new_loop sz start (block_addr sz start k) h m = Some (Ok (h', m')) \<and>
      list_ok sz start fin m' h' (blocks sz start fin)"
proof (induction k arbitrary: h m)
  case 0
  then show ?case
    by (simp add: sl_new_loop.simps [of sz start start] block_addr_0 blocks_def)
next
  case (Suc k)
  then have k: "k < block_count sz start fin" by simp
  have "block_addr sz start k \<noteq> 0"
    using unat_block_addr [OF r, of k] r k by (auto simp: region_ok_def)
  then show ?case
    using Suc.IH [OF _ blocks_push [OF r k Suc.prems(2)]] Suc.prems(1) block_addr_less [OF r k]
    by (simp add: sl_new_loop.simps [of sz start "block_addr sz start (Suc k)"] block_addr_Suc Let_def)
qed

lemma region_size:
  assumes "region_ok sz start fin"
  shows "unat start + block_count sz start fin * unat sz = unat fin"
proof -
  have "unat sz dvd unat fin - unat start" "unat start \<le> unat fin"
    using assms by (simp_all add: region_ok_def mod_eq_0_iff_dvd)
  then show ?thesis
    by (simp add: block_count_def)
qed

lemma block_addr_end:
  assumes "region_ok sz start fin"
  shows "block_addr sz start (block_count sz start fin) = fin"
  using unat_block_addr [OF assms order.refl] region_size [OF assms]
  by (metis word_unat_eq_iff)

section \<open>Requests of the clients\<close>

text \<open>
  A request takes a block, gives one back or writes to one. The clients keep the safety contract of
  the source: they give back and write to blocks they hold, and write inside the block.
\<close>

datatype heap_op = Op_Alloc | Op_Free usize | Op_Write usize "u8 list"

fun heap_step ::
  "('s \<Rightarrow> usize option \<times> 's) \<Rightarrow> (usize \<Rightarrow> 's \<Rightarrow> ('s, unit) outcome) \<Rightarrow> (usize \<Rightarrow> u8 list \<Rightarrow> 's \<Rightarrow> 's) \<Rightarrow>
     nat \<Rightarrow> heap_op \<Rightarrow> 's \<times> usize set \<Rightarrow> ('s \<times> usize set, unit) outcome" where
  "heap_step alloc release store sz Op_Alloc (s, live) =
     (case alloc s of (None, s) \<Rightarrow> Ok (s, live) | (Some p, s) \<Rightarrow> Ok (s, insert p live))"
| "heap_step alloc release store sz (Op_Free p) (s, live) =
     (if p \<in> live then obind (release p s) (\<lambda>s. Ok (s, live - {p})) else Ok (s, live))"
| "heap_step alloc release store sz (Op_Write p bs) (s, live) =
     (if p \<in> live \<and> length bs \<le> sz then Ok (store p bs s, live) else Ok (s, live))"

primrec heap_run where
  "heap_run alloc release store sz [] c = Ok c"
| "heap_run alloc release store sz (r # rs) c =
     obind (heap_step alloc release store sz r c) (heap_run alloc release store sz rs)"

section \<open>The contract of an allocator of equal blocks\<close>

text \<open>
  \<open>inv s ps\<close> says that the free blocks of \<open>s\<close> are \<open>ps\<close>, in the order they will be handed out;
  \<open>frames s\<close> are all blocks it manages and \<open>store\<close> is what a holder of a block does to it.
\<close>

locale frame_allocator =
  fixes alloc :: "'s \<Rightarrow> usize option \<times> 's"
    and release :: "usize \<Rightarrow> 's \<Rightarrow> ('s, unit) outcome"
    and store :: "usize \<Rightarrow> u8 list \<Rightarrow> 's \<Rightarrow> 's"
    and inv :: "'s \<Rightarrow> usize list \<Rightarrow> bool"
    and frames :: "'s \<Rightarrow> usize set"
    and frame_size :: nat
  assumes inv_free: "inv s ps \<Longrightarrow> distinct ps \<and> set ps \<subseteq> frames s \<and> finite (frames s)"
    and alloc_Nil: "inv s [] \<Longrightarrow> alloc s = (None, s)"
    and alloc_Cons: "inv s (p # ps) \<Longrightarrow> \<exists>s'. alloc s = (Some p, s') \<and> inv s' ps \<and> frames s' = frames s"
    and release_ok: "inv s ps \<Longrightarrow> p \<in> frames s \<Longrightarrow> p \<notin> set ps \<Longrightarrow>
      \<exists>s'. release p s = Ok s' \<and> inv s' (p # ps) \<and> frames s' = frames s"
    and write_ok: "inv s ps \<Longrightarrow> p \<in> frames s \<Longrightarrow> p \<notin> set ps \<Longrightarrow> length bs \<le> frame_size \<Longrightarrow>
      inv (store p bs s) ps \<and> frames (store p bs s) = frames s"
begin

text \<open>The blocks the clients hold and the free ones partition the managed ones.\<close>

definition owned :: "'s \<Rightarrow> usize set \<Rightarrow> usize list \<Rightarrow> bool" where
  "owned s live ps \<longleftrightarrow> inv s ps \<and> live \<inter> set ps = {} \<and> live \<union> set ps = frames s"

lemma owned_alloc:
  assumes "owned s live ps"
  shows "case alloc s of
      (None, s') \<Rightarrow> s' = s \<and> live = frames s
    | (Some p, s') \<Rightarrow> p \<in> frames s \<and> p \<notin> live \<and> owned s' (insert p live) (tl ps) \<and> frames s' = frames s"
proof (cases ps)
  case Nil
  then show ?thesis using assms alloc_Nil [of s] by (simp add: owned_def)
next
  case (Cons p qs)
  then obtain s' where "alloc s = (Some p, s')" "inv s' qs" "frames s' = frames s"
    using assms alloc_Cons [of s p qs] by (auto simp: owned_def)
  then show ?thesis
    using assms Cons inv_free [of s ps] by (auto simp: owned_def)
qed

lemma owned_release:
  assumes "owned s live ps" and "p \<in> live"
  shows "\<exists>s'. release p s = Ok s' \<and> owned s' (live - {p}) (p # ps) \<and> frames s' = frames s"
proof -
  have p: "p \<in> frames s" "p \<notin> set ps" using assms by (auto simp: owned_def)
  then obtain s' where "release p s = Ok s'" "inv s' (p # ps)" "frames s' = frames s"
    using assms release_ok [of s ps p] by (auto simp: owned_def)
  then show ?thesis
    using assms p by (intro exI [of _ s']) (auto simp: owned_def)
qed

lemma owned_write:
  assumes "owned s live ps" and "p \<in> live" and "length bs \<le> frame_size"
  shows "owned (store p bs s) live ps \<and> frames (store p bs s) = frames s"
  using assms write_ok [of s ps p bs] by (auto simp: owned_def)

lemma owned_count:
  assumes "owned s live ps"
  shows "card live + length ps = card (frames s)"
proof -
  have "distinct ps" "finite (frames s)" using assms inv_free by (auto simp: owned_def)
  moreover have "finite live" using assms calculation by (auto simp: owned_def intro: finite_subset)
  ultimately show ?thesis
    using assms card_Un_disjoint [of live "set ps"] by (auto simp: owned_def distinct_card)
qed

lemma heap_step_owned:
  assumes "owned s live ps"
  shows "\<exists>s' live' ps'. heap_step alloc release store frame_size r (s, live) = Ok (s', live') \<and>
    owned s' live' ps' \<and> frames s' = frames s"
proof (cases r)
  case Op_Alloc
  then show ?thesis
    using owned_alloc [OF assms] assms by (fastforce split: prod.splits option.splits)
next
  case (Op_Free p)
  then show ?thesis
    using owned_release [OF assms, of p] assms by (cases "p \<in> live") auto
next
  case (Op_Write p bs)
  then show ?thesis
    using owned_write [OF assms, of p bs] assms by (cases "p \<in> live \<and> length bs \<le> frame_size") auto
qed

lemma heap_run_owned:
  "owned s live ps \<Longrightarrow> \<exists>s' live' ps'. heap_run alloc release store frame_size rs (s, live) = Ok (s', live') \<and>
    owned s' live' ps' \<and> frames s' = frames s"
proof (induction rs arbitrary: s live ps)
  case (Cons r rs)
  obtain s1 live1 ps1 where "heap_step alloc release store frame_size r (s, live) = Ok (s1, live1)"
      "owned s1 live1 ps1" "frames s1 = frames s"
    using heap_step_owned [OF Cons.prems] by blast
  then show ?case
    using Cons.IH [of s1 live1 ps1] by auto
qed auto

end

section \<open>The two allocators keep the contract\<close>

fun pf_store :: "usize \<Rightarrow> u8 list \<Rightarrow> page_frame_allocator \<times> memory \<Rightarrow> page_frame_allocator \<times> memory" where
  "pf_store p bs (a, m) = (a, mem_write m p bs)"

fun pf_inv :: "usize \<Rightarrow> page_frame_allocator \<times> memory \<Rightarrow> usize list \<Rightarrow> bool" where
  "pf_inv sz (a, m) ps \<longleftrightarrow>
     region_ok sz (pf_heap_start a) (pf_heap_end a) \<and> pf_heap_start a mod sz = 0 \<and>
     list_ok sz (pf_heap_start a) (pf_heap_end a) m (pf_free_list a) ps \<and>
     pf_free_pages a = of_nat (length ps) \<and>
     pf_total_pages a = of_nat (block_count sz (pf_heap_start a) (pf_heap_end a))"

fun pf_frames :: "usize \<Rightarrow> page_frame_allocator \<times> memory \<Rightarrow> usize set" where
  "pf_frames sz (a, m) = set (blocks sz (pf_heap_start a) (pf_heap_end a))"

fun sl_store :: "usize \<Rightarrow> u8 list \<Rightarrow> slab_allocator \<times> memory \<Rightarrow> slab_allocator \<times> memory" where
  "sl_store p bs (a, m) = (a, mem_write m p bs)"

fun sl_inv :: "usize \<Rightarrow> usize \<Rightarrow> slab_allocator \<times> memory \<Rightarrow> usize list \<Rightarrow> bool" where
  "sl_inv sz al (a, m) ps \<longleftrightarrow>
     region_ok sz (sl_start a) (sl_end a) \<and> sl_start a mod al = 0 \<and> unat al dvd unat sz \<and> al \<noteq> 0 \<and>
     list_ok sz (sl_start a) (sl_end a) m (sl_free_list a) ps"

fun sl_frames :: "usize \<Rightarrow> slab_allocator \<times> memory \<Rightarrow> usize set" where
  "sl_frames sz (a, m) = set (blocks sz (sl_start a) (sl_end a))"

lemma block_aligned:
  assumes "region_ok sz start fin" and "p \<in> set (blocks sz start fin)"
    and "start mod al = 0" and "unat al dvd unat sz"
  shows "p mod al = 0" and "start \<le> p" and "p < fin"
proof -
  obtain k where k: "p = block_addr sz start k" "k < block_count sz start fin"
    using assms(2) by (auto simp: blocks_def)
  have "unat start mod unat al = 0"
    using assms(3) by (metis unat_mod unat_0)
  then have "unat al dvd unat start + k * unat sz"
    using assms(4) by (simp add: mod_eq_0_iff_dvd)
  then have "unat (p mod al) = 0"
    using unat_block_addr [OF assms(1), of k] k by (simp add: unat_mod mod_eq_0_iff_dvd)
  then show "p mod al = 0" by (metis unat_0 word_unat_eq_iff)
  show "start \<le> p" "p < fin"
    using block_range [OF assms(1,2)] assms(1)
    by (auto simp: word_le_nat_alt word_less_nat_alt region_ok_def)
qed

lemma pf_frame_allocator:
  "frame_allocator pf_alloc (pf_free sz) pf_store (pf_inv sz) (pf_frames sz) (unat sz)"
proof
  fix s :: "page_frame_allocator \<times> memory" and p ps bs
  obtain a m where s: "s = (a, m)" by fastforce
  show "pf_inv sz s ps \<Longrightarrow> distinct ps \<and> set ps \<subseteq> pf_frames sz s \<and> finite (pf_frames sz s)"
    by (simp add: s list_ok_def)
  show "pf_inv sz s [] \<Longrightarrow> pf_alloc s = (None, s)"
    by (simp add: s list_ok_def)
  show "pf_inv sz s (p # ps) \<Longrightarrow>
      \<exists>s'. pf_alloc s = (Some p, s') \<and> pf_inv sz s' ps \<and> pf_frames sz s' = pf_frames sz s"
    using list_ok_pop [of sz "pf_heap_start a" "pf_heap_end a" m "pf_free_list a" p ps] by (simp add: s)
  assume inv: "pf_inv sz s ps" and p: "p \<in> pf_frames sz s" "p \<notin> set ps"
  have "pf_contains a p" "p mod sz = 0"
    using inv p block_aligned [of sz "pf_heap_start a" "pf_heap_end a" p sz]
    by (auto simp: s pf_contains_def)
  then show "\<exists>s'. pf_free sz p s = Ok s' \<and> pf_inv sz s' (p # ps) \<and> pf_frames sz s' = pf_frames sz s"
    using inv p by (auto simp: s Let_def intro: list_ok_push)
  show "length bs \<le> unat sz \<Longrightarrow>
      pf_inv sz (pf_store p bs s) ps \<and> pf_frames sz (pf_store p bs s) = pf_frames sz s"
    using inv p by (simp add: s list_ok_write)
qed

lemma sl_frame_allocator:
  "frame_allocator sl_allocate (sl_deallocate al) sl_store (sl_inv sz al) (sl_frames sz) (unat sz)"
proof
  fix s :: "slab_allocator \<times> memory" and p ps bs
  obtain a m where s: "s = (a, m)" by fastforce
  show "sl_inv sz al s ps \<Longrightarrow> distinct ps \<and> set ps \<subseteq> sl_frames sz s \<and> finite (sl_frames sz s)"
    by (simp add: s list_ok_def)
  show "sl_inv sz al s [] \<Longrightarrow> sl_allocate s = (None, s)"
    by (simp add: s list_ok_def)
  show "sl_inv sz al s (p # ps) \<Longrightarrow>
      \<exists>s'. sl_allocate s = (Some p, s') \<and> sl_inv sz al s' ps \<and> sl_frames sz s' = sl_frames sz s"
    using list_ok_pop [of sz "sl_start a" "sl_end a" m "sl_free_list a" p ps] by (simp add: s)
  assume inv: "sl_inv sz al s ps" and p: "p \<in> sl_frames sz s" "p \<notin> set ps"
  have "sl_start a \<le> p" "p < sl_end a" "p mod al = 0"
    using inv p block_aligned [of sz "sl_start a" "sl_end a" p al] by (auto simp: s)
  then show "\<exists>s'. sl_deallocate al p s = Ok s' \<and> sl_inv sz al s' (p # ps) \<and> sl_frames sz s' = sl_frames sz s"
    using inv p by (auto simp: s intro: list_ok_push)
  show "length bs \<le> unat sz \<Longrightarrow>
      sl_inv sz al (sl_store p bs s) ps \<and> sl_frames sz (sl_store p bs s) = sl_frames sz s"
    using inv p by (simp add: s list_ok_write)
qed

interpretation page_frames:
  frame_allocator pf_alloc "pf_free 4096" pf_store "pf_inv 4096" "pf_frames 4096" 4096
  using pf_frame_allocator [of 4096] by simp

text \<open>The slabs of the block cache hold list nodes of five words.\<close>

interpretation cache_slab:
  frame_allocator sl_allocate "sl_deallocate 8" sl_store "sl_inv 40 8" "sl_frames 40" 40
  using sl_frame_allocator [of 8 40] by simp

lemma list_ok_empty: "list_ok sz start fin m None []"
  by (simp add: list_ok_def)

lemma pf_new_eq:
  assumes "region_ok sz start fin" and "start mod sz = 0" and "fin mod sz = 0"
  shows "\<exists>a m'. pf_new sz start fin m = Some (Ok (a, m')) \<and> pf_inv sz (a, m') (blocks sz start fin) \<and>
    pf_frames sz (a, m') = set (blocks sz start fin)"
proof -
  have "sz \<noteq> 0" using assms(1) by (auto simp: region_ok_def)
  moreover obtain h' m' where "pf_new_loop sz start fin None 0 m =
      Some (h', of_nat (block_count sz start fin), m')" "list_ok sz start fin m' h' (blocks sz start fin)"
    using pf_new_loop_spec [OF assms(1) order.refl, of m None 0]
    by (auto simp: block_addr_end [OF assms(1)] list_ok_empty)
  ultimately show ?thesis
    using assms by (simp add: pf_new_def blocks_def)
qed

lemma sl_new_eq:
  assumes "region_ok sz start fin" and "start mod al = 0" and "fin mod al = 0"
    and "al \<noteq> 0" and "unat al dvd unat sz"
  shows "\<exists>a m'. sl_new sz al start fin m = Some (Ok (a, m')) \<and> sl_inv sz al (a, m') (blocks sz start fin) \<and>
    sl_frames sz (a, m') = set (blocks sz start fin)"
proof -
  have "unat ((fin - start) mod sz) = 0"
    using assms(1) by (simp add: region_ok_def unat_mod unat_sub word_le_nat_alt)
  then have "(fin - start) mod sz = 0"
    by (metis unat_0 word_unat_eq_iff)
  moreover obtain h' m' where "sl_new_loop sz start fin None m = Some (Ok (h', m'))"
      "list_ok sz start fin m' h' (blocks sz start fin)"
    using sl_new_loop_spec [OF assms(1) order.refl, of m None]
    by (auto simp: block_addr_end [OF assms(1)] list_ok_empty)
  ultimately show ?thesis
    using assms by (simp add: sl_new_def)
qed

section \<open>Properties\<close>

text \<open>
  C6. A page frame allocator created for an aligned heap ends its loop and then, under any sequence
  of requests of clients that give back and write only to pages they hold, never panics; the pages
  held and the free pages partition the heap, so that no page is handed out twice, and
  \<^verbatim>\<open>free_pages\<close> counts the pages not held.
\<close>

theorem page_frames_partition:
  assumes "region_ok sz start fin" and "start mod sz = 0" and "fin mod sz = 0"
  shows "\<exists>s0 s live ps. pf_new sz start fin m = Some (Ok s0) \<and>
    heap_run pf_alloc (pf_free sz) pf_store (unat sz) rs (s0, {}) = Ok (s, live) \<and>
    pf_inv sz s ps \<and> live \<inter> set ps = {} \<and> live \<union> set ps = set (blocks sz start fin) \<and>
    pf_free_pages (fst s) = of_nat (card (set (blocks sz start fin)) - card live)"
proof -
  obtain s0 where s0: "pf_new sz start fin m = Some (Ok s0)" "pf_inv sz s0 (blocks sz start fin)"
      "pf_frames sz s0 = set (blocks sz start fin)"
    using pf_new_eq [OF assms, of m] by blast
  then have "frame_allocator.owned (pf_inv sz) (pf_frames sz) s0 {} (blocks sz start fin)"
    by (simp add: frame_allocator.owned_def [OF pf_frame_allocator])
  then obtain s live ps where run: "heap_run pf_alloc (pf_free sz) pf_store (unat sz) rs (s0, {}) = Ok (s, live)"
      and own: "frame_allocator.owned (pf_inv sz) (pf_frames sz) s live ps" and fr: "pf_frames sz s = pf_frames sz s0"
    using frame_allocator.heap_run_owned [OF pf_frame_allocator] by blast
  have "card live + length ps = card (set (blocks sz start fin))"
    using frame_allocator.owned_count [OF pf_frame_allocator own] fr s0(3) by simp
  moreover have "pf_inv sz s ps" "live \<inter> set ps = {}" "live \<union> set ps = set (blocks sz start fin)"
    using own fr s0(3) by (auto simp: frame_allocator.owned_def [OF pf_frame_allocator])
  moreover have "pf_free_pages (fst s) = of_nat (length ps)"
    using calculation(2) by (cases s) simp
  ultimately show ?thesis
    using s0(1) run by (metis add_diff_cancel_left')
qed

lemma example_region: "region_ok 4096 0x1000 0x4000"
  by (simp add: region_ok_def)

theorem page_frames_partition_witness:
  "\<exists>s0 s live ps. pf_new 4096 0x1000 0x4000 (\<lambda>_. 0) = Some (Ok s0) \<and>
    heap_run pf_alloc (pf_free 4096) pf_store (unat (4096 :: usize))
      [Op_Alloc, Op_Write 0x1000 [1, 2, 3], Op_Alloc, Op_Free 0x1000] (s0, {}) = Ok (s, live) \<and>
    pf_inv 4096 s ps \<and> live \<inter> set ps = {} \<and> live \<union> set ps = set (blocks 4096 0x1000 0x4000) \<and>
    pf_free_pages (fst s) = of_nat (card (set (blocks 4096 0x1000 0x4000)) - card live)"
  by (rule page_frames_partition [OF example_region]) simp_all

text \<open>C16. The same for a slab allocator over a range that holds whole aligned slots.\<close>

theorem slab_partition:
  assumes "region_ok sz start fin" and "start mod al = 0" and "fin mod al = 0"
    and "al \<noteq> 0" and "unat al dvd unat sz"
  shows "\<exists>s0 s live ps. sl_new sz al start fin m = Some (Ok s0) \<and>
    heap_run sl_allocate (sl_deallocate al) sl_store (unat sz) rs (s0, {}) = Ok (s, live) \<and>
    sl_inv sz al s ps \<and> live \<inter> set ps = {} \<and> live \<union> set ps = set (blocks sz start fin)"
proof -
  obtain s0 where s0: "sl_new sz al start fin m = Some (Ok s0)" "sl_inv sz al s0 (blocks sz start fin)"
      "sl_frames sz s0 = set (blocks sz start fin)"
    using sl_new_eq [OF assms, of m] by blast
  then have "frame_allocator.owned (sl_inv sz al) (sl_frames sz) s0 {} (blocks sz start fin)"
    by (simp add: frame_allocator.owned_def [OF sl_frame_allocator])
  then obtain s live ps where run: "heap_run sl_allocate (sl_deallocate al) sl_store (unat sz) rs (s0, {}) = Ok (s, live)"
      and own: "frame_allocator.owned (sl_inv sz al) (sl_frames sz) s live ps" and fr: "sl_frames sz s = sl_frames sz s0"
    using frame_allocator.heap_run_owned [OF sl_frame_allocator] by blast
  have "sl_inv sz al s ps" "live \<inter> set ps = {}" "live \<union> set ps = set (blocks sz start fin)"
    using own fr s0(3) by (auto simp: frame_allocator.owned_def [OF sl_frame_allocator])
  then show ?thesis
    using s0(1) run by blast
qed

theorem slab_partition_witness:
  "\<exists>s0 s live ps. sl_new 40 8 0x1000 0x1050 (\<lambda>_. 0) = Some (Ok s0) \<and>
    heap_run sl_allocate (sl_deallocate 8) sl_store (unat (40 :: usize))
      [Op_Alloc, Op_Alloc, Op_Alloc, Op_Free 0x1028] (s0, {}) = Ok (s, live) \<and>
    sl_inv 40 8 s ps \<and> live \<inter> set ps = {} \<and> live \<union> set ps = set (blocks 40 0x1000 0x1050)"
  by (rule slab_partition) (simp_all add: region_ok_def)

end
