(* ===== verification/Page_Manager.thy ===== *)
theory Page_Manager
  imports Mem_Addr Free_List
begin

text \<open>
  Physical pages with reference counts: \<^verbatim>\<open>ov6_kernel/src/memory/page_manager.rs\<close> on top of
  \<^verbatim>\<open>page_allocator.rs\<close>. A \<^verbatim>\<open>Page\<close> handle is the address of its page; the manager, the allocator and
  the byte memory are one state. The abstract use of a page (unused, shared by a number of handles,
  or exclusive) is what the reference counts implement.
\<close>

section \<open>The page allocator\<close>

record page_manager =
  pm_states :: "u32 list"
  pm_heap_start :: phys_addr
  pm_heap_end :: phys_addr
  pm_allocator :: page_frame_allocator
  pm_mem :: memory

definition lift_panic :: "('a, unit) outcome \<Rightarrow> ('a, 'e) outcome" where
  "lift_panic r = (case r of Ok x \<Rightarrow> Ok x | _ \<Rightarrow> Panic)"

definition fill_page :: "u8 \<Rightarrow> usize \<Rightarrow> memory \<Rightarrow> memory" where
  "fill_page b p m = mem_write m p (replicate (unat PAGE_SIZE) b)"

definition alloc_page :: "page_manager \<Rightarrow> (usize \<times> page_manager, kernel_error) outcome" where
  "alloc_page pm =
     (case pf_alloc (pm_allocator pm, pm_mem pm) of
        (None, s) \<Rightarrow> Err NoFreePage
      | (Some p, a, m) \<Rightarrow> Ok (p, pm\<lparr>pm_allocator := a, pm_mem := fill_page 5 p m\<rparr>))"

definition alloc_zeroed_page :: "page_manager \<Rightarrow> (usize \<times> page_manager, kernel_error) outcome" where
  "alloc_zeroed_page pm =
     (case pf_alloc_zeroed PAGE_SIZE (pm_allocator pm, pm_mem pm) of
        (None, s) \<Rightarrow> Err NoFreePage
      | (Some p, a, m) \<Rightarrow> Ok (p, pm\<lparr>pm_allocator := a, pm_mem := m\<rparr>))"

definition free_page :: "usize \<Rightarrow> page_manager \<Rightarrow> (page_manager, kernel_error) outcome" where
  "free_page pa pm =
     obind (lift_panic (pf_free PAGE_SIZE pa (pm_allocator pm, fill_page 1 pa (pm_mem pm)))) (\<lambda>(a, m).
     Ok (pm\<lparr>pm_allocator := a, pm_mem := m\<rparr>))"

definition is_heap_addr :: "page_manager \<Rightarrow> phys_addr \<Rightarrow> (bool, kernel_error) outcome" where
  "is_heap_addr pm pa =
     obind (as_non_null pa) (\<lambda>p. Ok (pf_is_allocated_pointer PAGE_SIZE (pm_allocator pm) p))"

section \<open>The state of a page\<close>

definition u32_MAX :: u32 where "u32_MAX = 0xffffffff"

definition state_increment_ref :: "nat \<Rightarrow> page_manager \<Rightarrow> (u32 \<times> page_manager, kernel_error) outcome" where
  "state_increment_ref i pm =
     (let current = pm_states pm ! i in
      obind (require (current \<noteq> u32_MAX)) (\<lambda>_.
      Ok (current, pm\<lparr>pm_states := (pm_states pm)[i := current + 1]\<rparr>)))"

definition state_decrement_ref :: "nat \<Rightarrow> page_manager \<Rightarrow> (u32 \<times> page_manager, kernel_error) outcome" where
  "state_decrement_ref i pm =
     (let current = pm_states pm ! i in
      obind (require (current \<noteq> u32_MAX)) (\<lambda>_.
      obind (require (0 < current)) (\<lambda>_.
      Ok (current, pm\<lparr>pm_states := (pm_states pm)[i := current - 1]\<rparr>))))"

definition state_mark_non_shareable :: "nat \<Rightarrow> page_manager \<Rightarrow> (page_manager, kernel_error) outcome" where
  "state_mark_non_shareable i pm =
     obind (require (pm_states pm ! i = 0)) (\<lambda>_. Ok (pm\<lparr>pm_states := (pm_states pm)[i := u32_MAX]\<rparr>))"

definition state_try_unmark_non_shareable :: "nat \<Rightarrow> page_manager \<Rightarrow> page_manager option" where
  "state_try_unmark_non_shareable i pm =
     (if pm_states pm ! i = u32_MAX then Some (pm\<lparr>pm_states := (pm_states pm)[i := 0]\<rparr>) else None)"

section \<open>Pages\<close>

definition page_index :: "page_manager \<Rightarrow> phys_addr \<Rightarrow> (usize, kernel_error) outcome" where
  "page_index pm pa =
     obind (require (pm_heap_start pm \<le> pa \<and> pa < pm_heap_end pm)) (\<lambda>_.
     obind (require (is_page_aligned pa)) (\<lambda>_.
     Ok ((pa - pm_heap_start pm) div PAGE_SIZE)))"

text \<open>A \<^verbatim>\<open>Page\<close> refers to its state; the model keeps the index of the state.\<close>

definition get_page :: "page_manager \<Rightarrow> phys_addr \<Rightarrow> (nat, kernel_error) outcome" where
  "get_page pm pa =
     obind (page_index pm pa) (\<lambda>index.
     obind (require (unat index < length (pm_states pm))) (\<lambda>_.
     Ok (unat index)))"

definition page_alloc :: "page_manager \<Rightarrow> (phys_addr \<times> page_manager, kernel_error) outcome" where
  "page_alloc pm =
     obind (alloc_page pm) (\<lambda>(ptr, pm).
     obind (get_page pm ptr) (\<lambda>i.
     obind (state_increment_ref i pm) (\<lambda>(prev, pm).
     obind (require (prev = 0)) (\<lambda>_. Ok (ptr, pm)))))"

definition page_alloc_zeroed :: "page_manager \<Rightarrow> (phys_addr \<times> page_manager, kernel_error) outcome" where
  "page_alloc_zeroed pm =
     obind (alloc_zeroed_page pm) (\<lambda>(ptr, pm).
     obind (get_page pm ptr) (\<lambda>i.
     obind (state_increment_ref i pm) (\<lambda>(prev, pm).
     obind (require (prev = 0)) (\<lambda>_. Ok (ptr, pm)))))"

definition page_alloc_non_shareable :: "page_manager \<Rightarrow> (phys_addr \<times> page_manager, kernel_error) outcome" where
  "page_alloc_non_shareable pm =
     obind (alloc_page pm) (\<lambda>(ptr, pm).
     obind (get_page pm ptr) (\<lambda>i.
     obind (state_mark_non_shareable i pm) (\<lambda>pm. Ok (ptr, pm))))"

definition page_ref_count :: "phys_addr \<Rightarrow> page_manager \<Rightarrow> (u32, kernel_error) outcome" where
  "page_ref_count pa pm = obind (get_page pm pa) (\<lambda>i. Ok (pm_states pm ! i))"

definition page_increment_ref :: "phys_addr \<Rightarrow> page_manager \<Rightarrow> (u32 \<times> page_manager, kernel_error) outcome" where
  "page_increment_ref pa pm = obind (get_page pm pa) (\<lambda>i. state_increment_ref i pm)"

definition page_drop :: "phys_addr \<Rightarrow> page_manager \<Rightarrow> (page_manager, kernel_error) outcome" where
  "page_drop pa pm =
     obind (get_page pm pa) (\<lambda>i.
     obind (case state_try_unmark_non_shareable i pm of
              Some pm \<Rightarrow> Ok (True, pm)
            | None \<Rightarrow> obind (state_decrement_ref i pm) (\<lambda>(prev_cnt, pm). Ok (prev_cnt \<le> 1, pm)))
       (\<lambda>(free, pm).
     if free then obind (as_non_null pa) (\<lambda>p. free_page p pm) else Ok pm))"

text \<open>The \<^verbatim>\<open>Allocator\<close> interface of whole pages; \<^verbatim>\<open>None\<close> is \<^verbatim>\<open>AllocError\<close>.\<close>

definition allocator_allocate ::
  "usize \<Rightarrow> usize \<Rightarrow> page_manager \<Rightarrow> (usize option \<times> page_manager, kernel_error) outcome" where
  "allocator_allocate lsize lalign pm =
     obind (require (lsize \<le> PAGE_SIZE)) (\<lambda>_.
     obind (require (PAGE_SIZE mod lalign = 0)) (\<lambda>_.
     case page_alloc_non_shareable pm of
       Ok (pa, pm) \<Rightarrow> obind (as_non_null pa) (\<lambda>p. Ok (Some p, pm))
     | Err e \<Rightarrow> Ok (None, pm)
     | Panic \<Rightarrow> Panic))"

definition allocator_deallocate ::
  "usize \<Rightarrow> usize \<Rightarrow> usize \<Rightarrow> page_manager \<Rightarrow> (page_manager, kernel_error) outcome" where
  "allocator_deallocate ptr lsize lalign pm =
     obind (require (lsize \<le> PAGE_SIZE)) (\<lambda>_.
     obind (require (PAGE_SIZE mod lalign = 0)) (\<lambda>_.
     obind (require (ptr mod PAGE_SIZE = 0)) (\<lambda>_.
     page_drop ptr pm)))"

section \<open>Creation\<close>

text \<open>\<^verbatim>\<open>PageState\<close> has the size and alignment of its \<^verbatim>\<open>AtomicU32\<close>.\<close>

definition div_ceil :: "usize \<Rightarrow> usize \<Rightarrow> usize" where
  "div_ceil a b = a div b + (if a mod b = 0 then 0 else 1)"

definition next_multiple_of :: "usize \<Rightarrow> usize \<Rightarrow> usize" where
  "next_multiple_of a b = (if a mod b = 0 then a else a + (b - a mod b))"

definition pm_new :: "phys_addr \<Rightarrow> phys_addr \<Rightarrow> memory \<Rightarrow> (page_manager, kernel_error) outcome option" where
  "pm_new pa_start pa_end m =
     (let possible_heap_start = page_roundup pa_start;
          heap_end = page_rounddown pa_end;
          max_pages = (heap_end - possible_heap_start) div PAGE_SIZE;
          state_pages = div_ceil max_pages 4;
          state_start = next_multiple_of pa_start 4;
          state_end = state_start + 4 * max_pages;
          heap_start = page_roundup state_end
      in if \<not> (pa_start \<le> pa_end \<and> 0 < max_pages \<and> state_pages \<le> max_pages \<and>
               state_start \<le> state_end \<and> state_end \<le> heap_start \<and> heap_start \<le> heap_end \<and>
               (heap_end - heap_start) div PAGE_SIZE \<le> max_pages \<and> heap_start \<noteq> 0 \<and> heap_end \<noteq> 0)
         then Some Panic
         else map_option (\<lambda>r. obind (lift_panic r) (\<lambda>(a, m).
                Ok \<lparr>pm_states = replicate (unat max_pages) 0, pm_heap_start = heap_start,
                    pm_heap_end = heap_end, pm_allocator = a, pm_mem = m\<rparr>))
              (pf_new PAGE_SIZE heap_start heap_end
                (mem_write m state_start (replicate (4 * unat max_pages) 0))))"

section \<open>The use of a page\<close>

datatype page_use = Unused | Shared nat | Exclusive

fun use_count :: "page_use \<Rightarrow> u32" where
  "use_count Unused = 0"
| "use_count (Shared n) = of_nat n"
| "use_count Exclusive = u32_MAX"

fun use_ok :: "page_use \<Rightarrow> bool" where
  "use_ok (Shared n) \<longleftrightarrow> 0 < n \<and> n < 2 ^ 32 - 1"
| "use_ok _ \<longleftrightarrow> True"

definition pm_frames :: "page_manager \<Rightarrow> usize list" where
  "pm_frames pm = blocks PAGE_SIZE (pm_heap_start pm) (pm_heap_end pm)"

definition heap_ok :: "page_manager \<Rightarrow> usize list \<Rightarrow> bool" where
  "heap_ok pm ps \<longleftrightarrow>
     pf_inv PAGE_SIZE (pm_allocator pm, pm_mem pm) ps \<and>
     pf_heap_start (pm_allocator pm) = pm_heap_start pm \<and>
     pf_heap_end (pm_allocator pm) = pm_heap_end pm"

definition states_ok :: "page_manager \<Rightarrow> (usize \<Rightarrow> page_use) \<Rightarrow> bool" where
  "states_ok pm u \<longleftrightarrow>
     length (pm_frames pm) \<le> length (pm_states pm) \<and>
     (\<forall>k < length (pm_frames pm). pm_states pm ! k = use_count (u (pm_frames pm ! k)) \<and>
        use_ok (u (pm_frames pm ! k)))"

definition pm_inv :: "page_manager \<Rightarrow> (usize \<Rightarrow> page_use) \<Rightarrow> usize list \<Rightarrow> bool" where
  "pm_inv pm u ps \<longleftrightarrow>
     heap_ok pm ps \<and> states_ok pm u \<and> set ps = {p \<in> set (pm_frames pm). u p = Unused}"

definition live_ok :: "page_manager \<Rightarrow> (usize \<Rightarrow> page_use) \<Rightarrow> bool" where
  "live_ok pm u \<longleftrightarrow> (\<forall>p. u p \<noteq> Unused \<longrightarrow> p \<in> set (pm_frames pm))"

text \<open>
  Requests of clients that keep the rules of handles: a page is cloned only by a holder of a shared
  handle (and while the count has room below \<^verbatim>\<open>u32::MAX\<close>), and a handle is dropped only while there is one.
  Requests that break the rules are not made.
\<close>

datatype page_op = Get_Page | Get_Zeroed | Get_Exclusive | Clone_Handle phys_addr | Drop_Handle phys_addr

definition got_page :: "page_use \<Rightarrow> page_manager \<times> (usize \<Rightarrow> page_use) \<Rightarrow>
    (phys_addr \<times> page_manager, kernel_error) outcome \<Rightarrow> (page_manager \<times> (usize \<Rightarrow> page_use), kernel_error) outcome" where
  "got_page v s r =
     (case r of
        Ok (p, pm) \<Rightarrow> Ok (pm, (snd s)(p := v))
      | Err e \<Rightarrow> if e = NoFreePage then Ok s else Err e
      | Panic \<Rightarrow> Panic)"

fun page_step :: "page_op \<Rightarrow> page_manager \<times> (usize \<Rightarrow> page_use) \<Rightarrow>
    (page_manager \<times> (usize \<Rightarrow> page_use), kernel_error) outcome" where
  "page_step Get_Page (pm, u) = got_page (Shared 1) (pm, u) (page_alloc pm)"
| "page_step Get_Zeroed (pm, u) = got_page (Shared 1) (pm, u) (page_alloc_zeroed pm)"
| "page_step Get_Exclusive (pm, u) = got_page Exclusive (pm, u) (page_alloc_non_shareable pm)"
| "page_step (Clone_Handle p) (pm, u) =
     (case u p of
        Shared n \<Rightarrow> if n + 2 < 2 ^ 32
                    then obind (page_increment_ref p pm) (\<lambda>(_, pm). Ok (pm, u(p := Shared (n + 1))))
                    else Ok (pm, u)
      | _ \<Rightarrow> Ok (pm, u))"
| "page_step (Drop_Handle p) (pm, u) =
     (case u p of
        Unused \<Rightarrow> Ok (pm, u)
      | Shared n \<Rightarrow> obind (page_drop p pm) (\<lambda>pm. Ok (pm, u(p := if n = 1 then Unused else Shared (n - 1))))
      | Exclusive \<Rightarrow> obind (page_drop p pm) (\<lambda>pm. Ok (pm, u(p := Unused))))"

fun page_run :: "page_op list \<Rightarrow> page_manager \<times> (usize \<Rightarrow> page_use) \<Rightarrow>
    (page_manager \<times> (usize \<Rightarrow> page_use), kernel_error) outcome" where
  "page_run [] s = Ok s"
| "page_run (r # rs) s = obind (page_step r s) (page_run rs)"

section \<open>Facts\<close>

declare pf_inv.simps [simp del] pf_alloc.simps [simp del] pf_free.simps [simp del]

lemma heap_okD:
  assumes "heap_ok pm ps"
  shows "pf_inv PAGE_SIZE (pm_allocator pm, pm_mem pm) ps"
    and "pf_heap_start (pm_allocator pm) = pm_heap_start pm"
    and "pf_heap_end (pm_allocator pm) = pm_heap_end pm"
  using assms by (simp_all add: heap_ok_def)

lemma PAGE_SIZE_nat [simp]: "unat PAGE_SIZE = 4096"
  by (simp add: PAGE_SIZE_def)

lemma use_count_eq:
  "use_ok v \<Longrightarrow> use_count v = 0 \<longleftrightarrow> v = Unused"
  "use_ok v \<Longrightarrow> use_count v = u32_MAX \<longleftrightarrow> v = Exclusive"
proof -
  have n: "unat (of_nat n :: u32) = n" if "n < 2 ^ 32 - 1" for n
    using that by (intro unat_of_nat_small) simp
  have m: "unat u32_MAX = 2 ^ 32 - 1"
    by (simp add: u32_MAX_def)
  show "use_ok v \<Longrightarrow> use_count v = 0 \<longleftrightarrow> v = Unused"
    using n by (cases v) (fastforce simp: u32_MAX_def)+
  show "use_ok v \<Longrightarrow> use_count v = u32_MAX \<longleftrightarrow> v = Exclusive"
    using n m by (cases v) (fastforce simp: u32_MAX_def)+
qed

lemma frames_nth: "k < length (pm_frames pm) \<Longrightarrow> pm_frames pm ! k = block_addr PAGE_SIZE (pm_heap_start pm) k"
  by (simp add: pm_frames_def blocks_def)

lemma heap_region:
  "heap_ok pm ps \<Longrightarrow> region_ok PAGE_SIZE (pm_heap_start pm) (pm_heap_end pm)"
  "heap_ok pm ps \<Longrightarrow> pm_heap_start pm mod PAGE_SIZE = 0"
  using heap_okD [of pm ps] by (simp_all add: pf_inv.simps)

lemma get_page_frame:
  assumes h: "heap_ok pm ps" and s: "states_ok pm u" and k: "k < length (pm_frames pm)"
  shows "get_page pm (pm_frames pm ! k) = Ok k"
proof -
  let ?p = "pm_frames pm ! k" and ?s = "pm_heap_start pm"
  have mem: "?p \<in> set (blocks PAGE_SIZE ?s (pm_heap_end pm))"
    using k by (simp add: pm_frames_def)
  have kc: "k < block_count PAGE_SIZE ?s (pm_heap_end pm)"
    using k by (simp add: pm_frames_def blocks_def)
  have al: "?p mod PAGE_SIZE = 0" and rng: "?s \<le> ?p" "?p < pm_heap_end pm"
    using block_aligned [OF heap_region(1) [OF h] mem heap_region(2) [OF h] dvd_refl] by simp_all
  have "unat ?p = unat ?s + k * 4096"
    using unat_block_addr [OF heap_region(1) [OF h], of k] kc k by (simp add: frames_nth)
  then have "unat ((?p - ?s) div PAGE_SIZE) = k"
    using rng by (simp add: unat_div unat_sub word_le_nat_alt)
  then show ?thesis
    using al rng s k by (simp add: get_page_def page_index_def is_page_aligned_def states_ok_def)
qed

lemma states_ok_update:
  assumes h: "heap_ok pm ps" and "states_ok pm u" and k: "k < length (pm_frames pm)" and "use_ok v"
    and "pm_heap_start pm' = pm_heap_start pm" and "pm_heap_end pm' = pm_heap_end pm"
    and "pm_states pm' = (pm_states pm)[k := use_count v]"
  shows "states_ok pm' (u(pm_frames pm ! k := v))"
proof -
  have "distinct (pm_frames pm)"
    using block_addr_inj [OF heap_region(1) [OF h]]
    by (auto simp: pm_frames_def blocks_def distinct_map inj_on_def)
  moreover have "pm_frames pm' = pm_frames pm"
    using assms by (simp add: pm_frames_def)
  ultimately show ?thesis
    using assms by (auto simp: states_ok_def nth_list_update nth_eq_iff_index_eq)
qed

lemma alloc_page_ok:
  assumes "heap_ok pm (p # qs)"
  shows "\<exists>pm'. alloc_page pm = Ok (p, pm') \<and> heap_ok pm' qs \<and> pm_states pm' = pm_states pm \<and>
    pm_heap_start pm' = pm_heap_start pm \<and> pm_heap_end pm' = pm_heap_end pm"
proof -
  let ?s = "(pm_allocator pm, pm_mem pm)"
  note inv = heap_okD(1) [OF assms]
  then obtain a m where al: "pf_alloc ?s = (Some p, a, m)" and i: "pf_inv PAGE_SIZE (a, m) qs"
      and fr: "pf_frames PAGE_SIZE (a, m) = pf_frames PAGE_SIZE ?s"
    using frame_allocator.alloc_Cons [OF pf_frame_allocator] by (metis prod.exhaust)
  have "p \<in> pf_frames PAGE_SIZE (a, m)" "p \<notin> set qs"
    using frame_allocator.inv_free [OF pf_frame_allocator inv] fr by auto
  then have "pf_inv PAGE_SIZE (pf_store p (replicate 4096 5) (a, m)) qs"
    using frame_allocator.write_ok [OF pf_frame_allocator i] by simp
  moreover have "pf_heap_start a = pf_heap_start (pm_allocator pm)" "pf_heap_end a = pf_heap_end (pm_allocator pm)"
    using al by (auto simp: pf_alloc.simps split: option.splits)
  ultimately show ?thesis
    using al assms by (simp add: alloc_page_def heap_ok_def fill_page_def)
qed

lemma alloc_page_none: "heap_ok pm [] \<Longrightarrow> alloc_page pm = Err NoFreePage"
  using frame_allocator.alloc_Nil [OF pf_frame_allocator heap_okD(1)] by (simp add: alloc_page_def)

lemma free_page_ok:
  assumes "heap_ok pm ps" and "p \<in> set (pm_frames pm)" and "p \<notin> set ps"
  shows "\<exists>pm'. free_page p pm = Ok pm' \<and> heap_ok pm' (p # ps) \<and> pm_states pm' = pm_states pm \<and>
    pm_heap_start pm' = pm_heap_start pm \<and> pm_heap_end pm' = pm_heap_end pm"
proof -
  let ?s = "(pm_allocator pm, pm_mem pm)"
  note inv = heap_okD(1) [OF assms(1)]
  have p: "p \<in> pf_frames PAGE_SIZE ?s"
    using assms heap_okD [OF assms(1)] by (simp add: pm_frames_def)
  let ?t = "pf_store p (replicate 4096 1) ?s"
  have t: "pf_inv PAGE_SIZE ?t ps" "pf_frames PAGE_SIZE ?t = pf_frames PAGE_SIZE ?s"
    using frame_allocator.write_ok [OF pf_frame_allocator inv p assms(3), of "replicate 4096 1"] by simp_all
  obtain a m where fr: "pf_free PAGE_SIZE p ?t = Ok (a, m)" and i: "pf_inv PAGE_SIZE (a, m) (p # ps)"
    using frame_allocator.release_ok [OF pf_frame_allocator t(1)] p t(2) assms(3) by (metis prod.exhaust)
  moreover have "pf_heap_start a = pf_heap_start (pm_allocator pm)" "pf_heap_end a = pf_heap_end (pm_allocator pm)"
    using fr by (auto simp: pf_free.simps Let_def)
  ultimately show ?thesis
    using assms by (simp add: free_page_def heap_ok_def fill_page_def lift_panic_def)
qed

lemma pm_frame_index:
  assumes "p \<in> set (pm_frames pm)"
  shows "\<exists>k < length (pm_frames pm). pm_frames pm ! k = p"
  using assms by (auto simp: in_set_conv_nth)

lemma unused_update:
  "set (p # qs) = {q \<in> set (pm_frames pm). u q = Unused} \<Longrightarrow> p \<notin> set qs \<Longrightarrow> v \<noteq> Unused \<Longrightarrow>
     set qs = {q \<in> set (pm_frames pm). (u(p := v)) q = Unused}"
  by auto

lemma frames_cong:
  "pm_heap_start pm' = pm_heap_start pm \<Longrightarrow> pm_heap_end pm' = pm_heap_end pm \<Longrightarrow> pm_frames pm' = pm_frames pm"
  by (simp add: pm_frames_def)

lemma heap_ok_states: "heap_ok (pm\<lparr>pm_states := x\<rparr>) ps = heap_ok pm ps"
  by (simp add: heap_ok_def)

lemma heap_ok_distinct:
  assumes "heap_ok pm ps"
  shows "distinct ps \<and> set ps \<subseteq> set (pm_frames pm)"
  using frame_allocator.inv_free [OF pf_frame_allocator heap_okD(1) [OF assms]] heap_okD(2,3) [OF assms]
  by (simp add: pm_frames_def)

lemma frames_set_state [simp]: "pm_frames (pm\<lparr>pm_states := x\<rparr>) = pm_frames pm"
  by (simp add: pm_frames_def)

text \<open>Taking a page: what is common to the three ways of allocating one.\<close>

lemma take_page:
  assumes inv: "pm_inv pm u (p # qs)"
  shows "\<exists>pm' k. alloc_page pm = Ok (p, pm') \<and> heap_ok pm' qs \<and> states_ok pm' u \<and>
    pm_frames pm' = pm_frames pm \<and> k < length (pm_frames pm') \<and> pm_frames pm' ! k = p \<and>
    get_page pm' p = Ok k \<and> pm_states pm' ! k = 0 \<and>
    (\<forall>v. v \<noteq> Unused \<longrightarrow> set qs = {q \<in> set (pm_frames pm'). (u(p := v)) q = Unused})"
proof -
  have h: "heap_ok pm (p # qs)" and st: "states_ok pm u"
    and un: "set (p # qs) = {q \<in> set (pm_frames pm). u q = Unused}"
    using inv unfolding pm_inv_def by blast+
  obtain pm' where pm': "alloc_page pm = Ok (p, pm')" "heap_ok pm' qs" "pm_states pm' = pm_states pm"
      "pm_heap_start pm' = pm_heap_start pm" "pm_heap_end pm' = pm_heap_end pm"
    using alloc_page_ok [OF h] by blast
  have fr: "pm_frames pm' = pm_frames pm" by (rule frames_cong [OF pm'(4,5)])
  have st': "states_ok pm' u" using st pm'(3) fr by (simp add: states_ok_def)
  have pf: "p \<in> set (pm_frames pm')" and pq: "p \<notin> set qs" using heap_ok_distinct [OF h] fr by simp_all
  obtain k where k: "k < length (pm_frames pm')" "pm_frames pm' ! k = p"
    using pm_frame_index [OF pf] by blast
  have "p \<in> {q \<in> set (pm_frames pm). u q = Unused}" unfolding un [symmetric] by simp
  then have z: "pm_states pm' ! k = 0" using st' k by (simp add: states_ok_def)
  have g: "get_page pm' p = Ok k" using get_page_frame [OF pm'(2) st' k(1)] k(2) by simp
  have "set qs = {q \<in> set (pm_frames pm'). (u(p := v)) q = Unused}" if "v \<noteq> Unused" for v
    unfolding fr by (rule unused_update [OF un pq that])
  then show ?thesis
    using pm'(1,2) st' k fr z g by blast
qed

lemma pm_inv_set_state:
  assumes h: "heap_ok pm ps" and st: "states_ok pm u" and k: "k < length (pm_frames pm)"
    and v: "use_ok v" and un: "set ps = {q \<in> set (pm_frames pm). (u(pm_frames pm ! k := v)) q = Unused}"
  shows "pm_inv (pm\<lparr>pm_states := (pm_states pm)[k := use_count v]\<rparr>) (u(pm_frames pm ! k := v)) ps"
  using states_ok_update [OF h st k v, of "pm\<lparr>pm_states := (pm_states pm)[k := use_count v]\<rparr>"] h un
  by (simp add: pm_inv_def heap_ok_states)

lemma page_alloc_ok:
  assumes "pm_inv pm u (p # qs)"
  shows "\<exists>pm'. page_alloc pm = Ok (p, pm') \<and> pm_inv pm' (u(p := Shared 1)) qs \<and> pm_frames pm' = pm_frames pm"
proof -
  obtain pm' k where t: "alloc_page pm = Ok (p, pm')" "heap_ok pm' qs" "states_ok pm' u"
    "pm_frames pm' = pm_frames pm" "k < length (pm_frames pm')" "pm_frames pm' ! k = p"
    "get_page pm' p = Ok k" "pm_states pm' ! k = 0"
    "set qs = {q \<in> set (pm_frames pm'). (u(p := Shared 1)) q = Unused}"
    using take_page [OF assms] by blast
  then show ?thesis
    using pm_inv_set_state [OF t(2,3,5), of "Shared 1"]
    by (simp add: page_alloc_def state_increment_ref_def u32_MAX_def)
qed

lemma page_alloc_non_shareable_ok:
  assumes "pm_inv pm u (p # qs)"
  shows "\<exists>pm'. page_alloc_non_shareable pm = Ok (p, pm') \<and> pm_inv pm' (u(p := Exclusive)) qs \<and>
    pm_frames pm' = pm_frames pm"
proof -
  obtain pm' k where t: "alloc_page pm = Ok (p, pm')" "heap_ok pm' qs" "states_ok pm' u"
    "pm_frames pm' = pm_frames pm" "k < length (pm_frames pm')" "pm_frames pm' ! k = p"
    "get_page pm' p = Ok k" "pm_states pm' ! k = 0"
    "set qs = {q \<in> set (pm_frames pm'). (u(p := Exclusive)) q = Unused}"
    using take_page [OF assms] by blast
  then show ?thesis
    using pm_inv_set_state [OF t(2,3,5), of Exclusive]
    by (simp add: page_alloc_non_shareable_def state_mark_non_shareable_def)
qed

lemma page_alloc_none:
  assumes "pm_inv pm u []"
  shows "page_alloc pm = Err NoFreePage \<and> page_alloc_non_shareable pm = Err NoFreePage"
  using assms alloc_page_none [of pm]
  by (simp add: pm_inv_def page_alloc_def page_alloc_non_shareable_def)

lemma page_increment_ok:
  assumes inv: "pm_inv pm u ps" and p: "p \<in> set (pm_frames pm)" and up: "u p = Shared n" and n: "n + 1 < 2 ^ 32 - 1"
  shows "\<exists>pm'. page_increment_ref p pm = Ok (of_nat n, pm') \<and> pm_inv pm' (u(p := Shared (n + 1))) ps \<and>
    pm_frames pm' = pm_frames pm"
proof -
  have h: "heap_ok pm ps" and st: "states_ok pm u" and un: "set ps = {q \<in> set (pm_frames pm). u q = Unused}"
    using inv unfolding pm_inv_def by blast+
  obtain k where k: "k < length (pm_frames pm)" "pm_frames pm ! k = p" using pm_frame_index [OF p] by blast
  have s: "pm_states pm ! k = of_nat n" "use_ok (Shared n)"
    using st k up by (auto simp: states_ok_def)
  have ne: "of_nat n \<noteq> u32_MAX"
    using use_count_eq(2) [OF s(2)] by simp
  have "set ps = {q \<in> set (pm_frames pm). (u(p := Shared (n + 1))) q = Unused}"
    using un up by auto
  then have inv': "pm_inv (pm\<lparr>pm_states := (pm_states pm)[k := use_count (Shared (n + 1))]\<rparr>)
      (u(p := Shared (n + 1))) ps"
    using pm_inv_set_state [OF h st k(1), of "Shared (n + 1)"] k(2) n by simp
  have g: "get_page pm p = Ok k" using get_page_frame [OF h st k(1)] k(2) by simp
  have run: "page_increment_ref p pm =
      Ok (of_nat n, pm\<lparr>pm_states := (pm_states pm)[k := use_count (Shared (n + 1))]\<rparr>)"
    using g s(1) ne by (simp add: page_increment_ref_def state_increment_ref_def Let_def add.commute [of 1])
  show ?thesis
    by (rule exI, rule conjI, rule run, rule conjI, rule inv', rule frames_set_state)
qed

lemma page_drop_shared:
  assumes inv: "pm_inv pm u ps" and p: "p \<in> set (pm_frames pm)" and up: "u p = Shared n" and n: "1 < n"
  shows "\<exists>pm'. page_drop p pm = Ok pm' \<and> pm_inv pm' (u(p := Shared (n - 1))) ps \<and>
    pm_frames pm' = pm_frames pm \<and> pm_mem pm' = pm_mem pm"
proof -
  have h: "heap_ok pm ps" and st: "states_ok pm u" and un: "set ps = {q \<in> set (pm_frames pm). u q = Unused}"
    using inv unfolding pm_inv_def by blast+
  obtain k where k: "k < length (pm_frames pm)" "pm_frames pm ! k = p" using pm_frame_index [OF p] by blast
  have s: "pm_states pm ! k = of_nat n" "use_ok (Shared n)"
    using st k up by (auto simp: states_ok_def)
  have ne: "of_nat n \<noteq> u32_MAX"
    using use_count_eq(2) [OF s(2)] by simp
  have nat: "unat (of_nat n :: u32) = n" using s(2) by (intro unat_of_nat_small) simp
  then have gt: "0 < (of_nat n :: u32)" "\<not> (of_nat n :: u32) \<le> 1"
    using n by (simp_all add: word_less_nat_alt word_le_nat_alt)
  have dec: "(of_nat n :: u32) - 1 = of_nat (n - 1)" using n by simp
  have "set ps = {q \<in> set (pm_frames pm). (u(p := Shared (n - 1))) q = Unused}"
    using un up by auto
  then have inv': "pm_inv (pm\<lparr>pm_states := (pm_states pm)[k := use_count (Shared (n - 1))]\<rparr>)
      (u(p := Shared (n - 1))) ps"
    using pm_inv_set_state [OF h st k(1), of "Shared (n - 1)"] k(2) n s(2) by simp
  have g: "get_page pm p = Ok k" using get_page_frame [OF h st k(1)] k(2) by simp
  have run: "page_drop p pm = Ok (pm\<lparr>pm_states := (pm_states pm)[k := use_count (Shared (n - 1))]\<rparr>)"
    using g s(1) ne gt dec
    by (simp add: page_drop_def state_try_unmark_non_shareable_def state_decrement_ref_def Let_def)
  show ?thesis
    by (rule exI, rule conjI, rule run, rule conjI, rule inv', rule conjI, rule frames_set_state, simp)
qed

lemma page_drop_last:
  assumes inv: "pm_inv pm u ps" and p: "p \<in> set (pm_frames pm)" and up: "u p = Shared 1 \<or> u p = Exclusive"
  shows "\<exists>pm'. page_drop p pm = Ok pm' \<and> pm_inv pm' (u(p := Unused)) (p # ps) \<and> pm_frames pm' = pm_frames pm"
proof -
  have h: "heap_ok pm ps" and st: "states_ok pm u" and un: "set ps = {q \<in> set (pm_frames pm). u q = Unused}"
    using inv unfolding pm_inv_def by blast+
  obtain k where k: "k < length (pm_frames pm)" "pm_frames pm ! k = p" using pm_frame_index [OF p] by blast
  have g: "get_page pm p = Ok k" using get_page_frame [OF h st k(1)] k(2) by simp
  let ?pm = "pm\<lparr>pm_states := (pm_states pm)[k := 0]\<rparr>"
  have np: "p \<notin> set ps" using un up by auto
  have hp: "heap_ok ?pm ps" using h by (simp only: heap_ok_states)
  have fp: "p \<in> set (pm_frames ?pm)" using p by (simp only: frames_set_state)
  obtain pm' where pm': "free_page p ?pm = Ok pm'" "heap_ok pm' (p # ps)" "pm_states pm' = pm_states ?pm"
      "pm_heap_start pm' = pm_heap_start ?pm" "pm_heap_end pm' = pm_heap_end ?pm"
    using free_page_ok [OF hp fp np] by blast
  have fr: "pm_frames pm' = pm_frames pm"
    using frames_cong [OF pm'(4,5)] by (simp only: frames_set_state)
  have st': "states_ok pm' (u(p := Unused))"
    using states_ok_update [OF h st k(1), of Unused pm'] pm'(3-5) k(2) by simp
  have "set (p # ps) = {q \<in> set (pm_frames pm'). (u(p := Unused)) q = Unused}"
    unfolding fr using un p by auto
  with pm'(2) st' have inv': "pm_inv pm' (u(p := Unused)) (p # ps)"
    unfolding pm_inv_def by blast
  have "p \<noteq> 0"
    using block_range(1) [OF heap_region(1) [OF h], of p] p by (auto simp: pm_frames_def)
  moreover have "pm_states pm ! k = 1 \<or> pm_states pm ! k = u32_MAX"
    using up st k by (auto simp: states_ok_def)
  ultimately have "page_drop p pm = Ok pm'"
    using g pm'(1)
    by (auto simp: page_drop_def state_try_unmark_non_shareable_def state_decrement_ref_def
        u32_MAX_def as_non_null_def Let_def)
  then show ?thesis
    using inv' fr by blast
qed

text \<open>The zeroed page is the one the plain allocation takes, with other contents.\<close>

lemma alloc_zeroed_page_ok:
  assumes "heap_ok pm (p # qs)"
  shows "\<exists>pm'. alloc_zeroed_page pm = Ok (p, pm') \<and> heap_ok pm' qs \<and> pm_states pm' = pm_states pm \<and>
    pm_heap_start pm' = pm_heap_start pm \<and> pm_heap_end pm' = pm_heap_end pm \<and>
    mem_read (pm_mem pm') p 4096 = replicate 4096 0"
proof -
  let ?s = "(pm_allocator pm, pm_mem pm)"
  note inv = heap_okD(1) [OF assms]
  then obtain a m where al: "pf_alloc ?s = (Some p, a, m)" and i: "pf_inv PAGE_SIZE (a, m) qs"
      and fr: "pf_frames PAGE_SIZE (a, m) = pf_frames PAGE_SIZE ?s"
    using frame_allocator.alloc_Cons [OF pf_frame_allocator] by (metis prod.exhaust)
  have "p \<in> pf_frames PAGE_SIZE (a, m)" "p \<notin> set qs"
    using frame_allocator.inv_free [OF pf_frame_allocator inv] fr by auto
  then have "pf_inv PAGE_SIZE (pf_store p (replicate 4096 0) (a, m)) qs"
    using frame_allocator.write_ok [OF pf_frame_allocator i] by simp
  moreover have "pf_heap_start a = pf_heap_start (pm_allocator pm)" "pf_heap_end a = pf_heap_end (pm_allocator pm)"
    using al by (auto simp: pf_alloc.simps split: option.splits)
  moreover have "mem_read (mem_write m p (replicate 4096 0)) p 4096 = replicate 4096 0"
    by (rule mem_read_write_same) simp_all
  ultimately show ?thesis
    using al assms by (simp add: alloc_zeroed_page_def pf_alloc_zeroed_def heap_ok_def)
qed

lemma page_alloc_zeroed_ok:
  assumes inv: "pm_inv pm u (p # qs)"
  shows "\<exists>pm'. page_alloc_zeroed pm = Ok (p, pm') \<and> pm_inv pm' (u(p := Shared 1)) qs \<and>
    pm_frames pm' = pm_frames pm \<and> mem_read (pm_mem pm') p 4096 = replicate 4096 0"
proof -
  have h: "heap_ok pm (p # qs)" and st: "states_ok pm u"
    and un: "set (p # qs) = {q \<in> set (pm_frames pm). u q = Unused}"
    using inv unfolding pm_inv_def by blast+
  obtain pm' where pm': "alloc_zeroed_page pm = Ok (p, pm')" "heap_ok pm' qs" "pm_states pm' = pm_states pm"
      "pm_heap_start pm' = pm_heap_start pm" "pm_heap_end pm' = pm_heap_end pm"
      "mem_read (pm_mem pm') p 4096 = replicate 4096 0"
    using alloc_zeroed_page_ok [OF h] by blast
  have fr: "pm_frames pm' = pm_frames pm" by (rule frames_cong [OF pm'(4,5)])
  have st': "states_ok pm' u" using st pm'(3) fr by (simp add: states_ok_def)
  have pf: "p \<in> set (pm_frames pm')" and pq: "p \<notin> set qs" using heap_ok_distinct [OF h] fr by simp_all
  obtain k where k: "k < length (pm_frames pm')" "pm_frames pm' ! k = p"
    using pm_frame_index [OF pf] by blast
  have "p \<in> {q \<in> set (pm_frames pm). u q = Unused}" unfolding un [symmetric] by simp
  then have z: "pm_states pm' ! k = 0" using st' k by (simp add: states_ok_def)
  have g: "get_page pm' p = Ok k" using get_page_frame [OF pm'(2) st' k(1)] k(2) by simp
  have "set qs = {q \<in> set (pm_frames pm'). (u(p := Shared 1)) q = Unused}"
    unfolding fr by (rule unused_update [OF un pq]) simp
  then show ?thesis
    using pm_inv_set_state [OF pm'(2) st' k(1), of "Shared 1"] pm'(1,6) k(2) z g fr
    by (simp add: page_alloc_zeroed_def state_increment_ref_def u32_MAX_def)
qed

lemma page_alloc_zeroed_none:
  assumes "pm_inv pm u []"
  shows "page_alloc_zeroed pm = Err NoFreePage"
proof -
  have "pf_inv PAGE_SIZE (pm_allocator pm, pm_mem pm) []"
    using assms heap_okD(1) by (simp add: pm_inv_def)
  then have "pf_alloc (pm_allocator pm, pm_mem pm) = (None, pm_allocator pm, pm_mem pm)"
    by (rule frame_allocator.alloc_Nil [OF pf_frame_allocator])
  then show ?thesis
    by (simp add: page_alloc_zeroed_def alloc_zeroed_page_def pf_alloc_zeroed_def)
qed

lemma live_ok_update:
  "live_ok pm u \<Longrightarrow> p \<in> set (pm_frames pm) \<Longrightarrow> pm_frames pm' = pm_frames pm \<Longrightarrow> live_ok pm' (u(p := v))"
  by (auto simp: live_ok_def)

lemma pm_inv_free_frame: "pm_inv pm u (p # qs) \<Longrightarrow> p \<in> set (pm_frames pm)"
  using heap_ok_distinct [of pm "p # qs"] by (auto simp: pm_inv_def)

lemma pm_inv_use_ok: "pm_inv pm u ps \<Longrightarrow> p \<in> set (pm_frames pm) \<Longrightarrow> use_ok (u p)"
  using pm_frame_index [of p pm] by (auto simp: pm_inv_def states_ok_def)

lemma got_page_ok:
  assumes none: "ps = [] \<Longrightarrow> r = Err NoFreePage"
    and some: "\<And>p qs. ps = p # qs \<Longrightarrow>
      \<exists>pm'. r = Ok (p, pm') \<and> pm_inv pm' (u(p := v)) qs \<and> pm_frames pm' = pm_frames pm"
    and inv: "pm_inv pm u ps" and live: "live_ok pm u"
  shows "\<exists>pm' u' ps'. got_page v (pm, u) r = Ok (pm', u') \<and> pm_inv pm' u' ps' \<and> live_ok pm' u' \<and>
    pm_frames pm' = pm_frames pm"
proof (cases ps)
  case Nil
  then show ?thesis using none inv live by (auto simp: got_page_def)
next
  case (Cons p qs)
  then obtain pm' where "r = Ok (p, pm')" "pm_inv pm' (u(p := v)) qs" "pm_frames pm' = pm_frames pm"
    using some by blast
  moreover have "live_ok pm' (u(p := v))"
    using live_ok_update [OF live] pm_inv_free_frame inv Cons calculation(3) by blast
  ultimately show ?thesis by (auto simp: got_page_def)
qed

lemma page_step_ok:
  assumes inv: "pm_inv pm u ps" and live: "live_ok pm u"
  shows "\<exists>pm' u' ps'. page_step r (pm, u) = Ok (pm', u') \<and> pm_inv pm' u' ps' \<and> live_ok pm' u' \<and>
    pm_frames pm' = pm_frames pm"
proof (cases r)
  case Get_Page
  have "\<exists>pm' u' ps'. got_page (Shared 1) (pm, u) (page_alloc pm) = Ok (pm', u') \<and> pm_inv pm' u' ps' \<and>
      live_ok pm' u' \<and> pm_frames pm' = pm_frames pm"
    using page_alloc_none page_alloc_ok inv by (intro got_page_ok [OF _ _ inv live]) blast+
  then show ?thesis by (simp only: Get_Page page_step.simps)
next
  case Get_Zeroed
  have "\<exists>pm' u' ps'. got_page (Shared 1) (pm, u) (page_alloc_zeroed pm) = Ok (pm', u') \<and> pm_inv pm' u' ps' \<and>
      live_ok pm' u' \<and> pm_frames pm' = pm_frames pm"
    using page_alloc_zeroed_none page_alloc_zeroed_ok inv by (intro got_page_ok [OF _ _ inv live]) blast+
  then show ?thesis by (simp only: Get_Zeroed page_step.simps)
next
  case Get_Exclusive
  have "\<exists>pm' u' ps'. got_page Exclusive (pm, u) (page_alloc_non_shareable pm) = Ok (pm', u') \<and>
      pm_inv pm' u' ps' \<and> live_ok pm' u' \<and> pm_frames pm' = pm_frames pm"
    using page_alloc_none page_alloc_non_shareable_ok inv by (intro got_page_ok [OF _ _ inv live]) blast+
  then show ?thesis by (simp only: Get_Exclusive page_step.simps)
next
  case (Clone_Handle p)
  show ?thesis
  proof (cases "\<exists>n. u p = Shared n \<and> n + 2 < 2 ^ 32")
    case True
    then obtain n where n: "u p = Shared n" "n + 2 < 2 ^ 32" by blast
    then have pf: "p \<in> set (pm_frames pm)" using live by (auto simp: live_ok_def)
    have "n + 1 < 2 ^ 32 - 1" using n(2) by simp
    then show ?thesis
      using page_increment_ok [OF inv pf n(1)] live_ok_update [OF live pf] n by (auto simp: Clone_Handle)
  qed (use inv live in \<open>auto simp: Clone_Handle split: page_use.splits\<close>)
next
  case (Drop_Handle p)
  show ?thesis
  proof (cases "u p")
    case Unused
    then show ?thesis using inv live by (auto simp: Drop_Handle)
  next
    case (Shared n)
    then have pf: "p \<in> set (pm_frames pm)" using live by (auto simp: live_ok_def)
    have "0 < n" using pm_inv_use_ok [OF inv pf] Shared by simp
    then show ?thesis
      using page_drop_shared [OF inv pf Shared] page_drop_last [OF inv pf] live_ok_update [OF live pf] Shared
      by (cases "n = 1") (fastforce simp: Drop_Handle)+
  next
    case Exclusive
    then have pf: "p \<in> set (pm_frames pm)" using live by (auto simp: live_ok_def)
    then show ?thesis
      using page_drop_last [OF inv pf] live_ok_update [OF live pf] Exclusive by (fastforce simp: Drop_Handle)
  qed
qed

lemma page_run_ok:
  "pm_inv pm u ps \<Longrightarrow> live_ok pm u \<Longrightarrow> \<exists>pm' u' ps'. page_run rs (pm, u) = Ok (pm', u') \<and>
    pm_inv pm' u' ps' \<and> live_ok pm' u' \<and> pm_frames pm' = pm_frames pm"
proof (induction rs arbitrary: pm u ps)
  case (Cons r rs)
  obtain pm1 u1 ps1 where "page_step r (pm, u) = Ok (pm1, u1)" "pm_inv pm1 u1 ps1" "live_ok pm1 u1"
      "pm_frames pm1 = pm_frames pm"
    using page_step_ok [OF Cons.prems] by blast
  then show ?case using Cons.IH [of pm1 u1 ps1] by auto
qed auto

text \<open>Creation: what the asserted conditions of \<^verbatim>\<open>PageManager::new\<close> give.\<close>

lemma page_round_aligned: "page_roundup a mod PAGE_SIZE = 0" "page_rounddown a mod PAGE_SIZE = 0"
proof -
  have "push_bit 12 (w :: usize) mod 4096 = 0" for w
    by (rule bit_word_eqI) (auto simp: take_bit_eq_mod [of 12, symmetric, simplified] bit_simps)
  then show "page_roundup a mod PAGE_SIZE = 0" "page_rounddown a mod PAGE_SIZE = 0"
    by (simp_all add: page_roundup_def page_rounddown_def page_mask and_not_mask) (simp_all add: PAGE_SIZE_def)
qed

lemma page_count:
  assumes "h mod PAGE_SIZE = 0" and "e mod PAGE_SIZE = 0" and "h \<le> e" and "h \<noteq> 0"
  shows "region_ok PAGE_SIZE h e" and "block_count PAGE_SIZE h e = unat ((e - h) div PAGE_SIZE)"
proof -
  have "unat h mod 4096 = 0" "unat e mod 4096 = 0"
    using assms(1,2) by (metis unat_mod unat_0 PAGE_SIZE_nat)+
  then have "(unat e - unat h) mod 4096 = 0"
    by (simp add: mod_eq_0_iff_dvd)
  then show "region_ok PAGE_SIZE h e"
    using assms(3,4) by (simp add: region_ok_def word_le_nat_alt unat_gt_0)
  show "block_count PAGE_SIZE h e = unat ((e - h) div PAGE_SIZE)"
    using assms(3) by (simp add: block_count_def unat_div unat_sub)
qed

lemma pm_new_ok:
  assumes "pm_new pa_start pa_end m = r" and "r \<noteq> Some Panic"
  shows "\<exists>pm. r = Some (Ok pm) \<and> pm_inv pm (\<lambda>_. Unused) (pm_frames pm) \<and> live_ok pm (\<lambda>_. Unused)"
proof -
  define h where "h = page_roundup (next_multiple_of pa_start 4 +
    4 * ((page_rounddown pa_end - page_roundup pa_start) div PAGE_SIZE))"
  define e where "e = page_rounddown pa_end"
  define n where "n = (e - page_roundup pa_start) div PAGE_SIZE"
  define m' where "m' = mem_write m (next_multiple_of pa_start 4) (replicate (4 * unat n) 0)"
  have al: "h mod PAGE_SIZE = 0" "e mod PAGE_SIZE = 0" by (simp_all add: h_def e_def page_round_aligned)
  have ok: "h \<le> e" "h \<noteq> 0" "(e - h) div PAGE_SIZE \<le> n"
    and r: "r = map_option (\<lambda>r. obind (lift_panic r) (\<lambda>(a, m).
      Ok \<lparr>pm_states = replicate (unat n) 0, pm_heap_start = h, pm_heap_end = e, pm_allocator = a, pm_mem = m\<rparr>))
      (pf_new PAGE_SIZE h e m')"
    using assms by (auto simp: pm_new_def h_def e_def n_def m'_def Let_def split: if_splits)
  note cnt = page_count [OF al ok(1,2)]
  obtain a m'' where new: "pf_new PAGE_SIZE h e m' = Some (Ok (a, m''))"
      "pf_inv PAGE_SIZE (a, m'') (blocks PAGE_SIZE h e)" "pf_heap_start a = h" "pf_heap_end a = e"
    using pf_new_eq [OF cnt(1) al, of m'] by (fastforce simp: pf_new_def split: if_splits)
  let ?pm = "\<lparr>pm_states = replicate (unat n) 0, pm_heap_start = h, pm_heap_end = e,
    pm_allocator = a, pm_mem = m''\<rparr>"
  have "length (blocks PAGE_SIZE h e) \<le> unat n"
    using cnt(2) ok(3) by (simp add: blocks_def word_le_nat_alt)
  then have "pm_inv ?pm (\<lambda>_. Unused) (pm_frames ?pm)"
    using new by (auto simp: pm_inv_def heap_ok_def states_ok_def pm_frames_def)
  then show ?thesis
    using r new(1) by (simp add: lift_panic_def live_ok_def)
qed

lemma pm_inv_free_pages:
  assumes "pm_inv pm u ps"
  shows "pf_free_pages (pm_allocator pm) = of_nat (card {p \<in> set (pm_frames pm). u p = Unused})"
proof -
  have h: "heap_ok pm ps" using assms by (simp add: pm_inv_def)
  have "pf_free_pages (pm_allocator pm) = of_nat (length ps)"
    using heap_okD(1) [OF h] by (simp add: pf_inv.simps)
  moreover have "length ps = card (set ps)" using heap_ok_distinct [OF h] by (simp add: distinct_card)
  ultimately show ?thesis using assms by (simp add: pm_inv_def)
qed

section \<open>Properties\<close>

text \<open>
  C4. From a page manager that \<^verbatim>\<open>PageManager::new\<close> created without failing an assertion, any sequence of
  allocations (shared, zeroed, non-shareable), clones and drops of handles by clients that keep the
  rules of handles never panics: the count stored for every page of the heap is the number of its
  handles (\<^verbatim>\<open>u32::MAX\<close> for a non-shareable page), a page is on the free list exactly when it has
  none, and the number of free pages is that of the pages without a handle.
\<close>

theorem page_refcounts:
  assumes "pm_new pa_start pa_end m = Some (Ok pm0)"
  shows "\<exists>pm u ps. page_run rs (pm0, \<lambda>_. Unused) = Ok (pm, u) \<and> pm_frames pm = pm_frames pm0 \<and>
    list_all2 (\<lambda>p count. count = use_count (u p)) (pm_frames pm) (take (length (pm_frames pm)) (pm_states pm)) \<and>
    pf_inv PAGE_SIZE (pm_allocator pm, pm_mem pm) ps \<and> set ps = {p \<in> set (pm_frames pm). u p = Unused} \<and>
    pf_free_pages (pm_allocator pm) = of_nat (card {p \<in> set (pm_frames pm). u p = Unused})"
proof -
  have "pm_inv pm0 (\<lambda>_. Unused) (pm_frames pm0)" "live_ok pm0 (\<lambda>_. Unused)"
    using pm_new_ok [OF assms] by auto
  then obtain pm u ps where run: "page_run rs (pm0, \<lambda>_. Unused) = Ok (pm, u)" and inv: "pm_inv pm u ps"
      and fr: "pm_frames pm = pm_frames pm0"
    using page_run_ok by blast
  have h: "heap_ok pm ps" and st: "states_ok pm u"
    and un: "set ps = {p \<in> set (pm_frames pm). u p = Unused}"
    using inv unfolding pm_inv_def by blast+
  have "list_all2 (\<lambda>p count. count = use_count (u p)) (pm_frames pm) (take (length (pm_frames pm)) (pm_states pm))"
    using st by (simp add: list_all2_conv_all_nth states_ok_def)
  then show ?thesis
    using run fr heap_okD(1) [OF h] un pm_inv_free_pages [OF inv] by blast
qed

theorem page_refcounts_witness:
  "\<exists>pm0 pm u ps. pm_new 0x1000 0x8000 (\<lambda>_. 0) = Some (Ok pm0) \<and>
    page_run [Get_Page, Clone_Handle 0x2000, Drop_Handle 0x2000, Get_Exclusive, Drop_Handle 0x2000]
      (pm0, \<lambda>_. Unused) = Ok (pm, u) \<and> pm_frames pm = pm_frames pm0 \<and>
    list_all2 (\<lambda>p count. count = use_count (u p)) (pm_frames pm) (take (length (pm_frames pm)) (pm_states pm)) \<and>
    pf_inv PAGE_SIZE (pm_allocator pm, pm_mem pm) ps \<and> set ps = {p \<in> set (pm_frames pm). u p = Unused} \<and>
    pf_free_pages (pm_allocator pm) = of_nat (card {p \<in> set (pm_frames pm). u p = Unused})"
proof -
  have "pm_new 0x1000 0x8000 (\<lambda>_. 0) \<noteq> Some Panic"
  proof -
    obtain a m' where "pf_new 4096 0x2000 0x8000 (mem_write (\<lambda>_. 0) 0x1000 (replicate 28 0)) = Some (Ok (a, m'))"
      using pf_new_eq [of 4096 "0x2000" "0x8000" "mem_write (\<lambda>_. 0) 0x1000 (replicate 28 0)"]
      by (auto simp: region_ok_def)
    then show ?thesis
      by (simp add: pm_new_def page_roundup_def page_rounddown_def PAGE_SIZE_def next_multiple_of_def
          div_ceil_def lift_panic_def)
  qed
  then obtain pm0 where pm0: "pm_new 0x1000 0x8000 (\<lambda>_. 0) = Some (Ok pm0)"
    using pm_new_ok [OF refl] by blast
  show ?thesis
    using pm0 page_refcounts [OF pm0] by blast
qed

end
