(* ===== verification/Page_Table.thy ===== *)
theory Page_Table
  imports Page_Manager
begin

text \<open>
  Page tables: \<^verbatim>\<open>ov6_kernel/src/memory/page_table\<close> (\<^verbatim>\<open>entry.rs\<close>, \<^verbatim>\<open>iter.rs\<close>, \<^verbatim>\<open>mod.rs\<close>). A table is
  512 words of byte memory at its physical address, a reference to an entry is the address of its
  word, and the state is the page manager with its memory. The operations that the \<^verbatim>\<open>bitflags\<close> crate
  generates for \<^verbatim>\<open>PtEntryFlags\<close> are a parameter, with their documented meaning as a hypothesis.
\<close>

section \<open>Flags\<close>

record flag_fns =
  fl_contains :: "usize \<Rightarrow> usize \<Rightarrow> bool"
  fl_intersects :: "usize \<Rightarrow> usize \<Rightarrow> bool"
  fl_union :: "usize \<Rightarrow> usize \<Rightarrow> usize"
  fl_intersection :: "usize \<Rightarrow> usize \<Rightarrow> usize"
  fl_difference :: "usize \<Rightarrow> usize \<Rightarrow> usize"

definition flags_ok :: "flag_fns \<Rightarrow> bool" where
  "flags_ok B \<longleftrightarrow>
     (\<forall>a b. fl_contains B a b = (a AND b = b)) \<and> (\<forall>a b. fl_intersects B a b = (a AND b \<noteq> 0)) \<and>
     (\<forall>a b. fl_union B a b = a OR b) \<and> (\<forall>a b. fl_intersection B a b = a AND b) \<and>
     (\<forall>a b. fl_difference B a b = a AND NOT b)"

definition flags_ref :: flag_fns where
  "flags_ref = \<lparr>fl_contains = (\<lambda>a b. a AND b = b), fl_intersects = (\<lambda>a b. a AND b \<noteq> 0),
     fl_union = (OR), fl_intersection = (AND), fl_difference = (\<lambda>a b. a AND NOT b)\<rparr>"

definition PT_V :: usize where "PT_V = 1"
definition PT_R :: usize where "PT_R = 2"
definition PT_W :: usize where "PT_W = 4"
definition PT_X :: usize where "PT_X = 8"
definition PT_U :: usize where "PT_U = 16"
definition PT_G :: usize where "PT_G = 32"
definition PT_A :: usize where "PT_A = 64"
definition PT_D :: usize where "PT_D = 128"
definition PT_C :: usize where "PT_C = 256"
definition PT_RW :: usize where "PT_RW = PT_R OR PT_W"
definition PT_RX :: usize where "PT_RX = PT_R OR PT_X"
definition PT_RWX :: usize where "PT_RWX = PT_R OR PT_W OR PT_X"
definition PT_UR :: usize where "PT_UR = PT_U OR PT_R"
definition PT_UW :: usize where "PT_UW = PT_U OR PT_W"
definition PT_URW :: usize where "PT_URW = PT_U OR PT_RW"
definition PT_URX :: usize where "PT_URX = PT_U OR PT_RX"
definition PT_URWX :: usize where "PT_URWX = PT_U OR PT_RWX"

lemmas pt_flag_defs = PT_V_def PT_R_def PT_W_def PT_X_def PT_U_def PT_G_def PT_A_def PT_D_def PT_C_def
  PT_RW_def PT_RX_def PT_RWX_def PT_UR_def PT_UW_def PT_URW_def PT_URX_def PT_URWX_def

section \<open>Entries\<close>

type_synonym pte = usize

definition FLAGS_MASK :: usize where "FLAGS_MASK = 0x3FF"

definition pte_new :: "phys_page_num \<Rightarrow> usize \<Rightarrow> (pte, kernel_error) outcome" where
  "pte_new ppn flags =
     obind (require (flags AND FLAGS_MASK = flags)) (\<lambda>_. Ok (push_bit 10 ppn OR (flags AND 0x3FF)))"

definition pte_phys_page_num :: "pte \<Rightarrow> phys_page_num" where
  "pte_phys_page_num e = drop_bit 10 e"

definition pte_phys_addr :: "pte \<Rightarrow> phys_addr" where
  "pte_phys_addr e = ppn_phys_addr (pte_phys_page_num e)"

definition pte_flags :: "pte \<Rightarrow> usize" where
  "pte_flags e = e AND FLAGS_MASK"

definition pte_is_valid :: "flag_fns \<Rightarrow> pte \<Rightarrow> bool" where
  "pte_is_valid B e = fl_contains B (pte_flags e) PT_V"

definition pte_is_leaf :: "flag_fns \<Rightarrow> pte \<Rightarrow> bool" where
  "pte_is_leaf B e \<longleftrightarrow> pte_is_valid B e \<and> fl_intersects B (pte_flags e) PT_RWX"

definition pte_is_non_leaf :: "flag_fns \<Rightarrow> pte \<Rightarrow> bool" where
  "pte_is_non_leaf B e \<longleftrightarrow> pte_is_valid B e \<and> \<not> pte_is_leaf B e"

definition get_page_table :: "flag_fns \<Rightarrow> pte \<Rightarrow> (phys_addr option, kernel_error) outcome" where
  "get_page_table B e =
     (if pte_is_non_leaf B e then obind (as_non_null (pte_phys_addr e)) (\<lambda>pt. Ok (Some pt)) else Ok None)"

text \<open>The bytes of a leaf: their address and number.\<close>

definition get_page_bytes :: "flag_fns \<Rightarrow> nat \<Rightarrow> pte \<Rightarrow> ((phys_addr \<times> usize) option, kernel_error) outcome" where
  "get_page_bytes B level e =
     (if pte_is_leaf B e
      then obind (level_page_size level) (\<lambda>page_size. Ok (Some (pte_phys_addr e, page_size)))
      else Ok None)"

section \<open>Tables in memory\<close>

type_synonym 'a pcall = "(page_manager, 'a, kernel_error) call"

definition pt_slot :: "phys_addr \<Rightarrow> usize \<Rightarrow> usize" where
  "pt_slot pt idx = pt + 8 * idx"

definition pte_read :: "memory \<Rightarrow> usize \<Rightarrow> pte" where
  "pte_read m slot = le_word (mem_read m slot 8)"

definition pte_write :: "usize \<Rightarrow> pte \<Rightarrow> page_manager \<Rightarrow> page_manager" where
  "pte_write slot e pm = pm\<lparr>pm_mem := mem_write (pm_mem pm) slot (le_bytes e)\<rparr>"

definition load_pte :: "usize \<Rightarrow> pte pcall" where
  "load_pte slot = cread (\<lambda>pm. pte_read (pm_mem pm) slot)"

definition store_pte :: "usize \<Rightarrow> pte \<Rightarrow> unit pcall" where
  "store_pte slot e = cmodify (pte_write slot e)"

text \<open>
  \<^verbatim>\<open>Box::try_new_zeroed_in\<close>: \<^verbatim>\<open>Allocator::allocate_zeroed\<close> is not overridden, so it is \<^verbatim>\<open>allocate\<close> followed by
  filling the block with zeros. A table is a page, aligned to its words.
\<close>

definition pt_try_allocate :: "phys_addr pcall" where
  "pt_try_allocate =
     cbind (clift_state (allocator_allocate PAGE_SIZE 8)) (\<lambda>r.
     case r of
       None \<Rightarrow> clift (Err NoFreePage)
     | Some pt \<Rightarrow> cbind (cmodify (\<lambda>pm. pm\<lparr>pm_mem := fill_page 0 pt (pm_mem pm)\<rparr>)) (\<lambda>_. creturn pt))"

definition set_page_table :: "flag_fns \<Rightarrow> usize \<Rightarrow> phys_addr \<Rightarrow> unit pcall" where
  "set_page_table B slot pt =
     cbind (load_pte slot) (\<lambda>e.
     cbind (clift (require (\<not> pte_is_valid B e))) (\<lambda>_.
     cbind (clift (pte_new (phys_page_num pt) PT_V)) (\<lambda>e'.
     store_pte slot e')))"

definition set_phys_page_num :: "flag_fns \<Rightarrow> usize \<Rightarrow> phys_page_num \<Rightarrow> usize \<Rightarrow> unit pcall" where
  "set_phys_page_num B slot ppn flags =
     cbind (load_pte slot) (\<lambda>e.
     cbind (clift (require (\<not> pte_is_valid B e))) (\<lambda>_.
     cbind (clift (require (fl_contains B flags PT_V))) (\<lambda>_.
     cbind (clift (pte_new ppn flags)) (\<lambda>e'.
     store_pte slot e'))))"

definition make_copy_on_write :: "flag_fns \<Rightarrow> usize \<Rightarrow> unit pcall" where
  "make_copy_on_write B slot =
     cbind (load_pte slot) (\<lambda>e.
     let flags = pte_flags e in
     if fl_contains B flags PT_W
     then let flags = fl_union B (fl_difference B flags PT_W) PT_C in
          cbind (clift (pte_new (pte_phys_page_num e) flags)) (\<lambda>e'. store_pte slot e')
     else creturn ())"

definition call_drop :: "phys_addr \<Rightarrow> unit pcall" where
  "call_drop pa = clift_state (\<lambda>pm. obind (page_drop pa pm) (\<lambda>pm. Ok ((), pm)))"

text \<open>
  \<^verbatim>\<open>page\<close> is a handle to the shared page: when \<^verbatim>\<open>Page::alloc\<close> fails, the \<^verbatim>\<open>?\<close> operator returns from the
  function and so drops it.
\<close>

definition pte_request_user_write :: "flag_fns \<Rightarrow> nat \<Rightarrow> virt_addr \<Rightarrow> usize \<Rightarrow> unit pcall" where
  "pte_request_user_write B level va slot =
     cbind (load_pte slot) (\<lambda>e.
     let flags = pte_flags e in
     if fl_contains B flags PT_UW then creturn ()
     else if \<not> fl_contains B flags (fl_union B PT_U PT_C) then clift (Err (InaccessiblePage va))
     else
       let flags = fl_union B (fl_difference B flags PT_C) PT_W in
       cbind (clift (require (level = 0))) (\<lambda>_.
       let page = pte_phys_addr e in
       cbind (\<lambda>pm. (page_ref_count page pm, pm)) (\<lambda>ref_count.
       if ref_count = 1
       then cbind (clift (pte_new (phys_page_num page) flags)) (\<lambda>e'. store_pte slot e')
       else (\<lambda>pm.
         case page_alloc pm of
           Err err \<Rightarrow> cbind (call_drop page) (\<lambda>_. clift (Err err)) pm
         | Panic \<Rightarrow> (Panic, pm)
         | Ok (new_pa, pm) \<Rightarrow>
             cbind (clift (level_page_size level)) (\<lambda>page_size.
             cbind (cmodify (\<lambda>pm. pm\<lparr>pm_mem :=
                     mem_write (pm_mem pm) new_pa (mem_read (pm_mem pm) page (unat page_size))\<rparr>)) (\<lambda>_.
             cbind (clift (pte_new (phys_page_num new_pa) flags)) (\<lambda>e'.
             cbind (store_pte slot e') (\<lambda>_.
             call_drop page)))) pm))))"

definition table_indices :: "usize list" where
  "table_indices = map of_nat [0..<512]"

primrec pte_free :: "nat \<Rightarrow> flag_fns \<Rightarrow> usize \<Rightarrow> unit pcall" where
  "pte_free 0 B slot =
     cbind (load_pte slot) (\<lambda>e.
     if \<not> pte_is_valid B e then creturn ()
     else
       cbind (store_pte slot 0) (\<lambda>_.
       if pte_is_non_leaf B e then clift Panic
       else
         cbind (\<lambda>pm. (is_heap_addr pm (pte_phys_addr e), pm)) (\<lambda>heap.
         if heap then call_drop (pte_phys_addr e) else creturn ())))"
| "pte_free (Suc level) B slot =
     cbind (load_pte slot) (\<lambda>e.
     if \<not> pte_is_valid B e then creturn ()
     else
       cbind (store_pte slot 0) (\<lambda>_.
       if pte_is_non_leaf B e
       then
         cbind (cforeach (\<lambda>i. pte_free level B (pt_slot (pte_phys_addr e) i)) table_indices) (\<lambda>_.
         clift_state (\<lambda>pm.
           obind (allocator_deallocate (pte_phys_addr e) PAGE_SIZE 8 pm) (\<lambda>pm. Ok ((), pm))))
       else clift Panic))"

definition pt_free :: "flag_fns \<Rightarrow> nat \<Rightarrow> phys_addr \<Rightarrow> unit pcall" where
  "pt_free B level pt = cforeach (\<lambda>i. pte_free level B (pt_slot pt i)) table_indices"

section \<open>Finding and creating entries\<close>

text \<open>The loop over the levels 2, 1, 0 of \<^verbatim>\<open>find_leaf_entry\<close>; an entry is returned as its address.\<close>

primrec find_leaf_from :: "nat \<Rightarrow> flag_fns \<Rightarrow> memory \<Rightarrow> phys_addr \<Rightarrow> virt_addr \<Rightarrow> (nat \<times> usize, kernel_error) outcome" where
  "find_leaf_from 0 B m pt va =
     obind (level_idx va 0) (\<lambda>index.
     let slot = pt_slot pt index; e = pte_read m slot in
     if \<not> pte_is_valid B e then Err (VirtualPageNotMapped va)
     else if pte_is_leaf B e then Ok (0, slot)
     else Panic)"
| "find_leaf_from (Suc level) B m pt va =
     obind (level_idx va (Suc level)) (\<lambda>index.
     let slot = pt_slot pt index; e = pte_read m slot in
     if \<not> pte_is_valid B e then Err (VirtualPageNotMapped va)
     else if pte_is_leaf B e then Ok (Suc level, slot)
     else
       obind (require (pte_is_non_leaf B e)) (\<lambda>_.
       obind (get_page_table B e) (\<lambda>r.
       obind (expect r) (\<lambda>pt.
       find_leaf_from level B m pt va))))"

definition find_leaf_entry :: "flag_fns \<Rightarrow> memory \<Rightarrow> phys_addr \<Rightarrow> virt_addr \<Rightarrow> (nat \<times> usize, kernel_error) outcome" where
  "find_leaf_entry B m pt va = find_leaf_from 2 B m pt va"

text \<open>The loop of \<^verbatim>\<open>find_or_create_leaf\<close> over the given levels, from the root down.\<close>

primrec descend :: "nat list \<Rightarrow> flag_fns \<Rightarrow> phys_addr \<Rightarrow> virt_addr \<Rightarrow> phys_addr pcall" where
  "descend [] B pt va = creturn pt"
| "descend (level # levels) B pt va =
     cbind (clift (level_idx va level)) (\<lambda>index.
     let slot = pt_slot pt index in
     cbind (load_pte slot) (\<lambda>e.
     cbind (if \<not> pte_is_valid B e
            then cbind pt_try_allocate (\<lambda>new_pt. set_page_table B slot new_pt)
            else creturn ()) (\<lambda>_.
     cbind (load_pte slot) (\<lambda>e.
     cbind (clift (get_page_table B e)) (\<lambda>r.
     cbind (clift (expect r)) (\<lambda>pt.
     descend levels B pt va))))))"

definition find_or_create_leaf :: "flag_fns \<Rightarrow> phys_addr \<Rightarrow> nat \<Rightarrow> virt_addr \<Rightarrow> usize pcall" where
  "find_or_create_leaf B pt level va =
     cbind (clift (require (level \<le> 2))) (\<lambda>_.
     cbind (descend (rev [level + 1..<3]) B pt va) (\<lambda>pt.
     cbind (clift (level_idx va level)) (\<lambda>index.
     creturn (pt_slot pt index))))"

section \<open>Mapping\<close>

datatype map_target = AllocatedAddr (zeroed: bool) (allocate_new_flag: bool) | FixedAddr (fixed: phys_addr)

definition allocate_new_zeroed :: map_target where
  "allocate_new_zeroed = AllocatedAddr True True"

fun mt_is_page_aligned :: "map_target \<Rightarrow> bool" where
  "mt_is_page_aligned (AllocatedAddr z n) = True"
| "mt_is_page_aligned (FixedAddr addr) = is_page_aligned addr"

fun mt_is_level_page_aligned :: "map_target \<Rightarrow> nat \<Rightarrow> (bool, kernel_error) outcome" where
  "mt_is_level_page_aligned (AllocatedAddr z n) level = Ok True"
| "mt_is_level_page_aligned (FixedAddr addr) level = is_level_page_aligned addr level"

fun mt_level_offset :: "map_target \<Rightarrow> nat \<Rightarrow> (usize, kernel_error) outcome" where
  "mt_level_offset (AllocatedAddr z n) level = Ok 0"
| "mt_level_offset (FixedAddr addr) level = obind (level_page_size level) (\<lambda>page_size. Ok (addr mod page_size))"

fun mt_byte_add :: "map_target \<Rightarrow> usize \<Rightarrow> map_target option" where
  "mt_byte_add (AllocatedAddr z n) bytes = Some (AllocatedAddr z n)"
| "mt_byte_add (FixedAddr addr) bytes = map_option FixedAddr (checked_add addr bytes)"

fun mt_allocate_new :: "map_target \<Rightarrow> bool" where
  "mt_allocate_new (AllocatedAddr z n) = n"
| "mt_allocate_new (FixedAddr addr) = True"

fun mt_get_or_allocate :: "map_target \<Rightarrow> nat \<Rightarrow> phys_addr pcall" where
  "mt_get_or_allocate (AllocatedAddr z n) level =
     cbind (clift (require (level = 0))) (\<lambda>_.
     clift_state (if z then page_alloc_zeroed else page_alloc))"
| "mt_get_or_allocate (FixedAddr addr) level = creturn addr"

definition map_page :: "flag_fns \<Rightarrow> phys_addr \<Rightarrow> nat \<Rightarrow> virt_addr \<Rightarrow> map_target \<Rightarrow> usize \<Rightarrow> unit pcall" where
  "map_page B pt level va pa perm =
     cbind (clift (require (fl_intersects B perm PT_RWX))) (\<lambda>_.
     cbind (find_or_create_leaf B pt level va) (\<lambda>slot.
     cbind (load_pte slot) (\<lambda>e.
     if pte_is_valid B e
     then
       cbind (clift (require (\<not> mt_allocate_new pa))) (\<lambda>_.
       let pte_perm = fl_intersection B (pte_flags e) PT_URWX in
       if perm \<noteq> pte_perm then clift (Err (VirtualAddressWithUnexpectedPerm va perm pte_perm))
       else creturn ())
     else
       cbind (mt_get_or_allocate pa level) (\<lambda>pa.
       set_phys_page_num B slot (phys_page_num pa) (fl_union B perm PT_V)))))"

text \<open>
  The loop of \<^verbatim>\<open>map_addrs_level\<close>; \<^verbatim>\<open>page_size\<close> is the size of a page of the level. It moves \<^verbatim>\<open>va\<close> and \<^verbatim>\<open>pa\<close>,
  which the caller sees.
\<close>

function map_level_loop ::
  "flag_fns \<Rightarrow> phys_addr \<Rightarrow> nat \<Rightarrow> virt_addr \<Rightarrow> virt_addr \<Rightarrow> map_target \<Rightarrow> usize \<Rightarrow> page_manager
    \<Rightarrow> (virt_addr \<times> map_target, kernel_error) outcome \<times> page_manager" where
  "map_level_loop B pt level va_end va pa perm pm =
     (if va < va_end
      then case map_page B pt level va pa perm pm of
             (Err e, pm) \<Rightarrow> (Err e, pm)
           | (Panic, pm) \<Rightarrow> (Panic, pm)
           | (Ok _, pm) \<Rightarrow>
               (case obind (level_page_size level) (\<lambda>page_size.
                     obind (va_byte_add va page_size) (\<lambda>va.
                     obind (expect (mt_byte_add pa page_size)) (\<lambda>pa. Ok (va, pa)))) of
                  Ok (va', pa') \<Rightarrow> map_level_loop B pt level va_end va' pa' perm pm
                | _ \<Rightarrow> (Panic, pm))
      else (Ok (va, pa), pm))"
  by pat_completeness auto

lemma level_page_size_pos: "level_page_size level = Ok sz \<Longrightarrow> 4096 \<le> unat sz"
proof -
  assume "level_page_size level = Ok sz"
  then have "level = 0 \<and> sz = 4096 \<or> level = 1 \<and> sz = 2097152 \<or> level = 2 \<and> sz = 1073741824"
    by (auto simp: level_page_size_def PAGE_SIZE_def le_Suc_eq numeral_2_eq_2 push_bit_eq_mult)
  then show ?thesis by auto
qed

lemma map_level_step:
  assumes "obind (level_page_size level) (\<lambda>page_size. obind (va_byte_add va page_size) (\<lambda>va.
    obind (expect (mt_byte_add pa page_size)) (\<lambda>pa. Ok (va, pa)))) = Ok (va', pa')"
  shows "unat va + 4096 \<le> unat va'"
proof -
  obtain sz where "level_page_size level = (Ok sz :: (usize, kernel_error) outcome)" "va_byte_add va sz = Ok va'"
    using assms by auto
  then show ?thesis
    using level_page_size_pos [of level sz] va_byte_add_bound [of va sz va'] by simp
qed

termination map_level_loop
  by (relation "measure (\<lambda>(_, _, _, va_end, va, _). unat va_end - unat va)")
    (auto simp: word_less_nat_alt simp del: obind_eq_Ok dest!: map_level_step)

definition ounwrap :: "('a, 'e) outcome \<Rightarrow> ('a, 'f) outcome" where
  "ounwrap r = (case r of Ok x \<Rightarrow> Ok x | _ \<Rightarrow> Panic)"

definition map_addrs_level ::
  "flag_fns \<Rightarrow> phys_addr \<Rightarrow> nat \<Rightarrow> virt_addr \<Rightarrow> map_target \<Rightarrow> usize \<Rightarrow> usize \<Rightarrow> (virt_addr \<times> map_target) pcall" where
  "map_addrs_level B pt level va pa sz perm =
     cbind (clift (level_page_size level)) (\<lambda>page_size.
     cbind (clift (is_level_page_aligned va level)) (\<lambda>va_aligned.
     cbind (clift (require va_aligned)) (\<lambda>_.
     cbind (clift (mt_is_level_page_aligned pa level)) (\<lambda>pa_aligned.
     cbind (clift (require pa_aligned)) (\<lambda>_.
     cbind (clift (require (sz mod page_size = 0))) (\<lambda>_.
     cbind (clift (require (fl_intersects B perm PT_RWX))) (\<lambda>_.
     cbind (clift (va_byte_add va sz)) (\<lambda>va_end.
     map_level_loop B pt level va_end va pa perm))))))))"

definition map_addrs ::
  "flag_fns \<Rightarrow> phys_addr \<Rightarrow> virt_addr \<Rightarrow> map_target \<Rightarrow> usize \<Rightarrow> usize \<Rightarrow> unit pcall" where
  "map_addrs B pt va pa sz perm =
     cbind (clift (require (is_page_aligned va))) (\<lambda>_.
     cbind (clift (require (mt_is_page_aligned pa))) (\<lambda>_.
     cbind (clift (require (sz mod PAGE_SIZE = 0))) (\<lambda>_.
     cbind (clift (require (fl_intersects B perm PT_RWX))) (\<lambda>_.
     case pa of
       AllocatedAddr z n \<Rightarrow> cbind (map_addrs_level B pt 0 va pa sz perm) (\<lambda>_. creturn ())
     | FixedAddr addr \<Rightarrow>
         cbind (clift (level_page_size 1)) (\<lambda>lv1_size.
         cbind (clift (mt_level_offset pa 1)) (\<lambda>offset.
         if va mod lv1_size \<noteq> offset
         then cbind (map_addrs_level B pt 0 va pa sz perm) (\<lambda>_. creturn ())
         else
           cbind (clift (va_byte_add va sz)) (\<lambda>va_end.
           cbind (clift (obind (level_page_roundup va 1) (\<lambda>a. ounwrap (va_new a)))) (\<lambda>lv1_start_va.
           cbind (clift (obind (level_page_rounddown va_end 1) (\<lambda>a. ounwrap (va_new a)))) (\<lambda>lv1_end_va.
           if lv1_end_va \<le> lv1_start_va
           then cbind (map_addrs_level B pt 0 va pa sz perm) (\<lambda>_. creturn ())
           else
             cbind (if va < lv1_start_va then map_addrs_level B pt 0 va pa (lv1_start_va - va) perm
                    else creturn (va, pa)) (\<lambda>(va, pa).
             cbind (if lv1_start_va < lv1_end_va then map_addrs_level B pt 1 va pa (lv1_end_va - va) perm
                    else creturn (va, pa)) (\<lambda>(va, pa).
             cbind (if va < va_end then map_addrs_level B pt 0 va pa (va_end - va) perm
                    else creturn (va, pa)) (\<lambda>(va, pa).
             clift (require (va = va_end))))))))))))))"

section \<open>Iteration over a range of addresses\<close>

text \<open>
  A frame of the iterators' stacks: the level, the address its table starts at, the table, and the
  indices its zipped iterator still has. The stack is a list with the top first.
\<close>

type_synonym pt_frame = "nat \<times> virt_addr \<times> phys_addr \<times> usize list"
type_synonym pt_item = "nat \<times> virt_addr \<times> usize"

text \<open>The indices \<^verbatim>\<open>lo..=hi\<close> zipped with the slice of the 512 entries: slicing out of range panics.\<close>

definition index_range :: "usize \<Rightarrow> usize \<Rightarrow> (usize list, kernel_error) outcome" where
  "index_range lo hi =
     obind (require (unat lo \<le> unat hi + 1 \<and> unat hi < 512)) (\<lambda>_.
     Ok (map of_nat [unat lo..<unat hi + 1]))"

definition root_frame :: "phys_addr \<Rightarrow> virt_addr \<Rightarrow> virt_addr \<Rightarrow> (pt_frame, kernel_error) outcome" where
  "root_frame pt min_va max_va =
     obind (level_idx min_va 2) (\<lambda>lo.
     obind (level_idx max_va 2) (\<lambda>hi.
     obind (index_range lo hi) (\<lambda>idxs. Ok (2, VA_ZERO, pt, idxs))))"

record entries =
  en_min :: virt_addr
  en_max :: virt_addr
  en_stack :: "pt_frame list"
  en_last_non_leaf :: bool

definition entries_new :: "phys_addr \<Rightarrow> va_bound \<Rightarrow> va_bound \<Rightarrow> (entries option, kernel_error) outcome" where
  "entries_new pt lo hi =
     (case va_range_inclusive lo hi of
        None \<Rightarrow> Ok None
      | Some (min_va, max_va) \<Rightarrow>
          obind (root_frame pt min_va max_va) (\<lambda>frame.
          Ok (Some \<lparr>en_min = min_va, en_max = max_va, en_stack = [frame], en_last_non_leaf = False\<rparr>)))"

text \<open>The frame for the table that a non-leaf entry points to.\<close>

definition sub_frame :: "flag_fns \<Rightarrow> memory \<Rightarrow> virt_addr \<Rightarrow> virt_addr \<Rightarrow> nat \<Rightarrow> virt_addr \<Rightarrow> phys_addr \<Rightarrow> usize
    \<Rightarrow> (pt_frame, kernel_error) outcome" where
  "sub_frame B m min_va max_va l base_va pt idx =
     obind (with_level_idx base_va (Suc l) idx) (\<lambda>level_va.
     obind (level_idx level_va l) (\<lambda>i.
     obind (require (i = 0)) (\<lambda>_.
     obind (with_level_idx level_va l 0) (\<lambda>level_min_va.
     obind (with_level_idx level_va l 511) (\<lambda>level_max_va.
     obind (level_idx (max min_va level_min_va) l) (\<lambda>lo.
     obind (level_idx (min max_va level_max_va) l) (\<lambda>hi.
     obind (get_page_table B (pte_read m (pt_slot pt idx))) (\<lambda>r.
     obind (expect r) (\<lambda>table.
     obind (index_range lo hi) (\<lambda>is.
     Ok (l, level_min_va, table, is)))))))))))"

definition entries_push :: "flag_fns \<Rightarrow> memory \<Rightarrow> virt_addr \<Rightarrow> virt_addr \<Rightarrow> pt_frame list \<Rightarrow> (pt_frame list, kernel_error) outcome" where
  "entries_push B m min_va max_va stack =
     (case stack of
        (Suc l, base_va, pt, idx # idxs) # rest \<Rightarrow>
          obind (sub_frame B m min_va max_va l base_va pt idx) (\<lambda>frame.
          Ok (frame # (Suc l, base_va, pt, idxs) # rest))
      | _ \<Rightarrow> Panic)"

text \<open>The loop of \<^verbatim>\<open>Entries::next\<close>: drop exhausted frames, return the first entry left.\<close>

fun entries_loop :: "flag_fns \<Rightarrow> memory \<Rightarrow> pt_frame list \<Rightarrow> (pt_item option \<times> pt_frame list \<times> bool, kernel_error) outcome" where
  "entries_loop B m [] = Ok (None, [], False)"
| "entries_loop B m ((level, base_va, pt, []) # rest) = entries_loop B m rest"
| "entries_loop B m ((level, base_va, pt, idx # idxs) # rest) =
     (let e = pte_read m (pt_slot pt idx) in
      obind (with_level_idx base_va level idx) (\<lambda>level_min_va.
      if \<not> pte_is_valid B e \<or> pte_is_leaf B e
      then Ok (Some (level, level_min_va, pt_slot pt idx), (level, base_va, pt, idxs) # rest, False)
      else Ok (Some (level, level_min_va, pt_slot pt idx), (level, base_va, pt, idx # idxs) # rest, True)))"

definition entries_next :: "flag_fns \<Rightarrow> memory \<Rightarrow> entries \<Rightarrow> (pt_item option \<times> entries, kernel_error) outcome" where
  "entries_next B m it =
     obind (if en_last_non_leaf it then entries_push B m (en_min it) (en_max it) (en_stack it)
            else Ok (en_stack it)) (\<lambda>stack.
     obind (entries_loop B m stack) (\<lambda>(item, stack, lst).
     Ok (item, it\<lparr>en_stack := stack, en_last_non_leaf := lst\<rparr>)))"

text \<open>What is left to visit: the measure of the iterations.\<close>

definition stack_weight :: "pt_frame list \<Rightarrow> nat" where
  "stack_weight stack = sum_list (map (\<lambda>(level, _, _, idxs). length idxs * 1024 ^ level) stack)"

lemma stack_weight_simps [simp]:
  "stack_weight [] = 0"
  "stack_weight ((level, base_va, pt, idxs) # rest) = length idxs * 1024 ^ level + stack_weight rest"
  by (simp_all add: stack_weight_def)

lemma index_range_length: "index_range lo hi = Ok is \<Longrightarrow> length is \<le> 512"
  by (auto simp: index_range_def)

lemma entries_push_weight:
  assumes "entries_push B m min_va max_va stack = Ok stack'"
  shows "stack_weight stack' < stack_weight stack"
proof -
  obtain l base_va pt idx idxs rest where st: "stack = (Suc l, base_va, pt, idx # idxs) # rest"
    using assms by (auto simp: entries_push_def split: list.splits prod.splits nat.splits)
  then obtain a t "is" lo hi where "stack' = (l, a, t, is) # (Suc l, base_va, pt, idxs) # rest"
      "index_range lo hi = Ok is"
    using assms by (auto simp: entries_push_def sub_frame_def)
  moreover from this(2) have "length is * 1024 ^ l \<le> 512 * 1024 ^ l"
    using index_range_length by (intro mult_le_mono1) blast
  moreover have "512 * 1024 ^ l < (1024 * 1024 ^ l :: nat)" by simp
  ultimately show ?thesis using st by simp
qed

lemma entries_loop_weight:
  "entries_loop B m stack = Ok (Some item, stack', lst) \<Longrightarrow>
    stack_weight stack' \<le> stack_weight stack \<and> (\<not> lst \<longrightarrow> stack_weight stack' < stack_weight stack)"
  by (induction B m stack rule: entries_loop.induct) (auto simp: Let_def split: if_splits)

definition entries_measure :: "entries \<Rightarrow> nat" where
  "entries_measure it = 2 * stack_weight (en_stack it) + (if en_last_non_leaf it then 0 else 1)"

lemma entries_next_measure:
  assumes "entries_next B m it = Ok (Some item, it')"
  shows "entries_measure it' < entries_measure it"
proof -
  obtain stack stack' lst where
      st: "(if en_last_non_leaf it then entries_push B m (en_min it) (en_max it) (en_stack it)
            else Ok (en_stack it)) = Ok stack"
      and lp: "entries_loop B m stack = Ok (Some item, stack', lst)"
      and it': "it' = it\<lparr>en_stack := stack', en_last_non_leaf := lst\<rparr>"
    using assms by (auto simp: entries_next_def)
  note w = entries_loop_weight [OF lp]
  show ?thesis
  proof (cases "en_last_non_leaf it")
    case True
    then have "stack_weight stack < stack_weight (en_stack it)"
      using st entries_push_weight by auto
    then show ?thesis using w it' True by (auto simp: entries_measure_def)
  next
    case False
    then show ?thesis using w it' st by (cases lst) (auto simp: entries_measure_def)
  qed
qed

section \<open>Validation\<close>

definition validate_entry :: "flag_fns \<Rightarrow> memory \<Rightarrow> usize \<Rightarrow> pt_item \<Rightarrow> (unit, kernel_error) outcome" where
  "validate_entry B m flags item =
     (let (level, va, slot) = item; e = pte_read m slot in
      if \<not> pte_is_valid B e then Err (VirtualPageNotMapped va)
      else if pte_is_leaf B e
      then let f = pte_flags e;
               f = (if fl_contains B f PT_C then fl_union B f PT_W else f)
           in if \<not> fl_contains B f flags then Err (InaccessiblePage va) else Ok ()
      else Ok ())"

function validate_loop :: "flag_fns \<Rightarrow> memory \<Rightarrow> usize \<Rightarrow> entries \<Rightarrow> (unit, kernel_error) outcome" where
  "validate_loop B m flags it =
     (case entries_next B m it of
        Panic \<Rightarrow> Panic
      | Err e \<Rightarrow> Err e
      | Ok (None, it') \<Rightarrow> Ok ()
      | Ok (Some item, it') \<Rightarrow> obind (validate_entry B m flags item) (\<lambda>_. validate_loop B m flags it'))"
  by pat_completeness auto

termination validate_loop
  by (relation "measure (\<lambda>(_, _, _, it). entries_measure it)") (auto intro: entries_next_measure)

definition pt_validate :: "flag_fns \<Rightarrow> memory \<Rightarrow> phys_addr \<Rightarrow> va_bound \<Rightarrow> va_bound \<Rightarrow> usize \<Rightarrow> (unit, kernel_error) outcome" where
  "pt_validate B m pt lo hi flags =
     obind (entries_new pt lo hi) (\<lambda>it.
     case it of None \<Rightarrow> Ok () | Some it \<Rightarrow> validate_loop B m flags it)"

section \<open>Iteration over the leaves\<close>

text \<open>
  \<^verbatim>\<open>LeavesMut::next\<close>. The loop ends because every turn takes an index off the top frame or drops the frame.
\<close>

definition leaves_weight :: "pt_frame list \<Rightarrow> nat" where
  "leaves_weight stack = stack_weight stack + length stack"

definition leaves_push :: "flag_fns \<Rightarrow> virt_addr \<Rightarrow> virt_addr \<Rightarrow> nat \<Rightarrow> virt_addr \<Rightarrow> pte \<Rightarrow> (pt_frame, kernel_error) outcome" where
  "leaves_push B min_va max_va level level_min_va e =
     (case level of
        0 \<Rightarrow> Panic
      | Suc l \<Rightarrow>
          obind (with_level_idx level_min_va l 511) (\<lambda>level_max_va.
          obind (level_idx (max min_va level_min_va) l) (\<lambda>lo.
          obind (level_idx (min max_va level_max_va) l) (\<lambda>hi.
          obind (get_page_table B e) (\<lambda>r.
          obind (expect r) (\<lambda>table.
          obind (index_range lo hi) (\<lambda>is.
          Ok (l, level_min_va, table, is))))))))"

lemma leaves_push_frame:
  "leaves_push B min_va max_va level va e = Ok frame \<Longrightarrow>
    \<exists>l table is. level = Suc l \<and> frame = (l, va, table, is) \<and> length is \<le> 512"
  by (auto simp: leaves_push_def split: nat.splits dest: index_range_length)

function leaves_next :: "flag_fns \<Rightarrow> memory \<Rightarrow> virt_addr \<Rightarrow> virt_addr \<Rightarrow> pt_frame list
    \<Rightarrow> (pt_item option \<times> pt_frame list, kernel_error) outcome" where
  "leaves_next B m min_va max_va [] = Ok (None, [])"
| "leaves_next B m min_va max_va ((level, base_va, pt, []) # rest) = leaves_next B m min_va max_va rest"
| "leaves_next B m min_va max_va ((level, base_va, pt, idx # idxs) # rest) =
     (let e = pte_read m (pt_slot pt idx) in
      obind (with_level_idx base_va level idx) (\<lambda>level_min_va.
      obind (require (\<not> pte_is_leaf B e \<or> min_va \<le> level_min_va \<and> level_min_va \<le> max_va)) (\<lambda>_.
      if \<not> pte_is_valid B e then leaves_next B m min_va max_va ((level, base_va, pt, idxs) # rest)
      else if pte_is_leaf B e
      then Ok (Some (level, level_min_va, pt_slot pt idx), (level, base_va, pt, idxs) # rest)
      else
        obind (leaves_push B min_va max_va level level_min_va e) (\<lambda>frame.
        leaves_next B m min_va max_va (frame # (level, base_va, pt, idxs) # rest)))))"
  by pat_completeness auto

lemma leaves_push_weight:
  assumes "leaves_push B min_va max_va level va e = Ok frame"
  shows "leaves_weight (frame # (level, base_va, pt, idxs) # rest) <
    leaves_weight ((level, base_va, pt, idx # idxs) # rest)"
proof -
  obtain l table "is" where f: "level = Suc l" "frame = (l, va, table, is)" "length is \<le> 512"
    using leaves_push_frame [OF assms] by blast
  then have "length is * 1024 ^ l \<le> 512 * 1024 ^ l" by (intro mult_le_mono1)
  moreover have "512 * 1024 ^ l + 1 < (1024 * 1024 ^ l :: nat)"
  proof -
    have "1 \<le> (1024 ^ l :: nat)" by simp
    then show ?thesis by linarith
  qed
  ultimately have "length is * 1024 ^ l + 1 < (1024 * 1024 ^ l :: nat)" by linarith
  then show ?thesis using f by (simp add: leaves_weight_def)
qed

lemma leaves_weight_less:
  "leaves_weight rest < leaves_weight (frame # rest)"
  "leaves_weight ((level, base_va, pt, idxs) # rest) < leaves_weight ((level, base_va, pt, idx # idxs) # rest)"
  by (cases frame) (simp_all add: leaves_weight_def)

termination leaves_next
  by (relation "measure (\<lambda>(_, _, _, _, stack). leaves_weight stack)")
    (auto intro: leaves_push_weight leaves_weight_less)

lemma leaves_next_weight:
  "leaves_next B m min_va max_va stack = Ok (Some item, stack') \<Longrightarrow> leaves_weight stack' < leaves_weight stack"
proof (induction B m min_va max_va stack rule: leaves_next.induct)
  case (2 B m min_va max_va level base_va pt rest)
  then show ?case by (simp add: leaves_weight_def)
next
  case (3 B m min_va max_va level base_va pt idx idxs rest)
  obtain va where va: "with_level_idx base_va level idx = Ok va"
    using "3.prems" by (auto simp: Let_def)
  consider "\<not> pte_is_valid B (pte_read m (pt_slot pt idx))" | "pte_is_leaf B (pte_read m (pt_slot pt idx))"
    | "pte_is_valid B (pte_read m (pt_slot pt idx))" "\<not> pte_is_leaf B (pte_read m (pt_slot pt idx))" by blast
  then show ?case
  proof cases
    case 1
    then have "leaves_weight stack' < leaves_weight ((level, base_va, pt, idxs) # rest)"
      using "3.prems" "3.IH"(1) [OF refl va] by (auto simp: Let_def pte_is_leaf_def)
    then show ?thesis by (simp add: leaves_weight_def)
  next
    case 2
    then show ?thesis using "3.prems" va by (auto simp: Let_def pte_is_leaf_def leaves_weight_def)
  next
    case 3
    then obtain frame where f: "leaves_push B min_va max_va level va (pte_read m (pt_slot pt idx)) = Ok frame"
        "leaves_weight stack' < leaves_weight (frame # (level, base_va, pt, idxs) # rest)"
      using "3.prems" "3.IH"(2) [OF refl va] va by (auto simp: Let_def)
    then show ?thesis using leaves_push_weight [OF f(1)] by (meson less_trans)
  qed
qed simp

text \<open>The \<^verbatim>\<open>for\<close> loop over \<^verbatim>\<open>leaves_mut\<close>: the body may change the memory that the iterator reads next.\<close>

function for_leaves :: "flag_fns \<Rightarrow> (pt_item \<Rightarrow> unit pcall) \<Rightarrow> virt_addr \<Rightarrow> virt_addr \<Rightarrow> pt_frame list \<Rightarrow> page_manager
    \<Rightarrow> (unit, kernel_error) outcome \<times> page_manager" where
  "for_leaves B body min_va max_va stack pm =
     (case leaves_next B (pm_mem pm) min_va max_va stack of
        Panic \<Rightarrow> (Panic, pm)
      | Err e \<Rightarrow> (Err e, pm)
      | Ok (None, stack') \<Rightarrow> (Ok (), pm)
      | Ok (Some item, stack') \<Rightarrow> cbind (body item) (\<lambda>_ pm. for_leaves B body min_va max_va stack' pm) pm)"
  by pat_completeness auto

termination for_leaves
  by (relation "measure (\<lambda>(_, _, _, _, stack, _). leaves_weight stack)") (auto intro: leaves_next_weight)

definition leaves_mut :: "flag_fns \<Rightarrow> phys_addr \<Rightarrow> va_bound \<Rightarrow> va_bound \<Rightarrow> (pt_item \<Rightarrow> unit pcall) \<Rightarrow> unit pcall" where
  "leaves_mut B pt lo hi body =
     (case va_range_inclusive lo hi of
        None \<Rightarrow> creturn ()
      | Some (min_va, max_va) \<Rightarrow>
          cbind (clift (root_frame pt min_va max_va)) (\<lambda>frame.
          for_leaves B body min_va max_va [frame]))"

section \<open>The operations of a page table\<close>

definition unmap_range :: "flag_fns \<Rightarrow> phys_addr \<Rightarrow> va_bound \<Rightarrow> va_bound \<Rightarrow> unit pcall" where
  "unmap_range B pt lo hi = leaves_mut B pt lo hi (\<lambda>(level, _, slot). pte_free level B slot)"

definition unmap_addrs :: "flag_fns \<Rightarrow> phys_addr \<Rightarrow> virt_addr \<Rightarrow> usize \<Rightarrow> unit pcall" where
  "unmap_addrs B pt va sz =
     cbind (clift (va_byte_add va sz)) (\<lambda>va_end. unmap_range B pt (Included va) (Excluded va_end))"

definition clone_page :: "flag_fns \<Rightarrow> phys_addr \<Rightarrow> usize \<Rightarrow> pt_item \<Rightarrow> unit pcall" where
  "clone_page B pt flags item =
     (let (level, va, slot) = item in
      cbind (load_pte slot) (\<lambda>e.
      if \<not> pte_is_leaf B e then creturn ()
      else if \<not> fl_contains B (pte_flags e) flags then clift (Err (InaccessiblePage va))
      else
        cbind (clift (level_page_size level)) (\<lambda>page_size.
        cbind (make_copy_on_write B slot) (\<lambda>_.
        cbind (load_pte slot) (\<lambda>e.
        cbind (clift_state (page_increment_ref (pte_phys_addr e))) (\<lambda>_.
        cbind (map_addrs_level B pt level va (FixedAddr (pte_phys_addr e)) page_size (pte_flags e)) (\<lambda>_.
        creturn ())))))))"

definition clone_pages_from :: "flag_fns \<Rightarrow> phys_addr \<Rightarrow> phys_addr \<Rightarrow> va_bound \<Rightarrow> va_bound \<Rightarrow> usize \<Rightarrow> unit pcall" where
  "clone_pages_from B pt other lo hi flags = leaves_mut B other lo hi (clone_page B pt flags)"

text \<open>A chunk is the rest of its page: an address and a number of bytes.\<close>

definition page_rest :: "flag_fns \<Rightarrow> nat \<Rightarrow> pte \<Rightarrow> virt_addr \<Rightarrow> (phys_addr \<times> usize, kernel_error) outcome" where
  "page_rest B level e va =
     obind (get_page_bytes B level e) (\<lambda>r.
     obind (expect r) (\<lambda>(page, page_size).
     let offset = va mod page_size in
     Ok (page + offset, page_size - offset)))"

definition fetch_chunk :: "flag_fns \<Rightarrow> memory \<Rightarrow> phys_addr \<Rightarrow> virt_addr \<Rightarrow> usize \<Rightarrow> (phys_addr \<times> usize, kernel_error) outcome" where
  "fetch_chunk B m pt va flags =
     obind (find_leaf_entry B m pt va) (\<lambda>(level, slot).
     let e = pte_read m slot in
     obind (require (pte_is_valid B e \<and> pte_is_leaf B e)) (\<lambda>_.
     if \<not> fl_contains B (pte_flags e) flags then Err (InaccessiblePage va)
     else page_rest B level e va))"

definition fetch_chunk_mut :: "flag_fns \<Rightarrow> phys_addr \<Rightarrow> virt_addr \<Rightarrow> usize \<Rightarrow> (phys_addr \<times> usize) pcall" where
  "fetch_chunk_mut B pt va flags =
     cbind (\<lambda>pm. (find_leaf_entry B (pm_mem pm) pt va, pm)) (\<lambda>(level, slot).
     cbind (load_pte slot) (\<lambda>e.
     cbind (clift (require (pte_is_valid B e \<and> pte_is_leaf B e))) (\<lambda>_.
     cbind (if fl_contains B (pte_flags e) PT_C then pte_request_user_write B level va slot
            else creturn ()) (\<lambda>_.
     cbind (load_pte slot) (\<lambda>e.
     if \<not> fl_contains B (pte_flags e) flags then clift (Err (InaccessiblePage va))
     else clift (page_rest B level e va))))))"

definition pt_request_user_write :: "flag_fns \<Rightarrow> phys_addr \<Rightarrow> virt_addr \<Rightarrow> unit pcall" where
  "pt_request_user_write B pt va =
     cbind (\<lambda>pm. (find_leaf_entry B (pm_mem pm) pt va, pm)) (\<lambda>(level, slot).
     cbind (pte_request_user_write B level va slot) (\<lambda>_.
     cbind (load_pte slot) (\<lambda>e.
     clift (require (fl_contains B (pte_flags e) PT_W)))))"

text \<open>\<^verbatim>\<open>Drop for PageTable\<close>: free what the entries refer to, then the box of the root table.\<close>

definition pt_drop :: "flag_fns \<Rightarrow> phys_addr \<Rightarrow> unit pcall" where
  "pt_drop B pt =
     cbind (pt_free B 2 pt) (\<lambda>_.
     clift_state (\<lambda>pm. obind (allocator_deallocate pt PAGE_SIZE 8 pm) (\<lambda>pm. Ok ((), pm))))"

section \<open>Facts on entries and flags\<close>

lemma flags_okD:
  assumes "flags_ok B"
  shows "fl_contains B a b \<longleftrightarrow> a AND b = b" and "fl_intersects B a b \<longleftrightarrow> a AND b \<noteq> 0"
    and "fl_union B a b = a OR b" and "fl_intersection B a b = a AND b"
    and "fl_difference B a b = a AND NOT b"
  using assms by (simp_all add: flags_ok_def)

lemma flags_ref_ok: "flags_ok flags_ref"
  by (simp add: flags_ok_def flags_ref_def)

lemma page_ref_count_ok:
  assumes inv: "pm_inv pm u ps" and p: "p \<in> set (pm_frames pm)"
  shows "page_ref_count p pm = Ok (use_count (u p))"
proof -
  have h: "heap_ok pm ps" and st: "states_ok pm u" using inv by (simp_all add: pm_inv_def)
  obtain k where k: "k < length (pm_frames pm)" "pm_frames pm ! k = p" using pm_frame_index [OF p] by blast
  then show ?thesis
    using get_page_frame [OF h st k(1)] st by (auto simp: page_ref_count_def states_ok_def)
qed

section \<open>References that are dropped\<close>

text \<open>References to a page that are dropped one after the other, as by the other tables that map it.\<close>

primrec drop_refs :: "nat \<Rightarrow> phys_addr \<Rightarrow> page_manager \<Rightarrow> (page_manager, kernel_error) outcome" where
  "drop_refs 0 page pm = Ok pm"
| "drop_refs (Suc n) page pm = obind (page_drop page pm) (drop_refs n page)"

text \<open>What the page manager writes when a page is freed and when it is handed out lies in the page.\<close>

lemma free_page_apart:
  assumes "free_page p pm = Ok pm'" and "apart p 4096 slot 8"
  shows "mem_read (pm_mem pm') slot 8 = mem_read (pm_mem pm) slot 8"
proof -
  have "apart p 8 slot 8" using assms(2) by (rule apart_mono) simp_all
  then show ?thesis
    using assms by (auto simp: free_page_def lift_panic_def pf_free.simps Let_def fill_page_def mem_read_write_apart set_run_next_def split: outcome.splits)
qed

lemma page_drop_apart:
  assumes "page_drop p pm = Ok pm'" and "apart p 4096 slot 8"
  shows "pte_read (pm_mem pm') slot = pte_read (pm_mem pm) slot"
  using assms free_page_apart [OF _ assms(2)]
  by (auto simp: page_drop_def pte_read_def state_try_unmark_non_shareable_def state_decrement_ref_def as_non_null_def Let_def split: if_splits)

lemma page_alloc_apart:
  assumes "page_alloc pm = Ok (p, pm')" and "apart p 4096 slot 8"
  shows "pte_read (pm_mem pm') slot = pte_read (pm_mem pm) slot"
  using assms
  by (auto simp: page_alloc_def alloc_page_def pf_alloc.simps pte_read_def state_increment_ref_def Let_def fill_page_def mem_read_write_apart split: if_splits option.splits prod.splits)

lemma drop_refs_all:
  assumes "pm_inv pm u []" and "page \<in> set (pm_frames pm)" and "u page = Shared (Suc n)" and "apart page 4096 slot 8"
  shows "\<exists>pm'. drop_refs (Suc n) page pm = Ok pm' \<and> pm_inv pm' (u(page := Unused)) [page] \<and>
    pte_read (pm_mem pm') slot = pte_read (pm_mem pm) slot"
  using assms
proof (induction n arbitrary: pm u)
  case 0
  obtain pm' where pm': "page_drop page pm = Ok pm'" "pm_inv pm' (u(page := Unused)) [page]"
    using page_drop_last [OF 0(1,2)] 0(3) by auto
  show ?case
    by (rule exI [of _ pm'], intro conjI pm'(2) page_drop_apart [OF pm'(1) 0(4)]) (simp add: pm'(1))
next
  case (Suc n)
  obtain pm1 where pm1: "page_drop page pm = Ok pm1" "pm_inv pm1 (u(page := Shared (Suc n))) []" "pm_frames pm1 = pm_frames pm"
    using page_drop_shared [OF Suc.prems(1-3)] by auto
  have "\<exists>pm'. drop_refs (Suc n) page pm1 = Ok pm' \<and> pm_inv pm' ((u(page := Shared (Suc n)))(page := Unused)) [page] \<and>
      pte_read (pm_mem pm') slot = pte_read (pm_mem pm1) slot"
    by (rule Suc.IH [OF pm1(2)]) (use Suc.prems pm1(3) in simp_all)
  then show ?case
    unfolding fun_upd_upd page_drop_apart [OF pm1(1) Suc.prems(4)] drop_refs.simps(2) [of "Suc n"] pm1(1) outcome.case obind.simps .
qed

section \<open>Properties\<close>

text \<open>
  C35. Copy on write without memory: when a process writes to a page that has \<open>n\<close> references, one of which is that of its own entry,
  and no page is free, the request fails with \<^verbatim>\<open>NoFreePage\<close> and the entry still maps the page, but the
  reference of the entry has been dropped. When the \<open>n - 1\<close> other references are dropped, the page is on the free list, and the next
  allocation hands it out, while the entry, which does not lie in the page, maps it all the time.
\<close>

theorem failed_copy_drops_reference:
  assumes "flags_ok B" and "pm_inv pm u []" and "page \<in> set (pm_frames pm)" and "u page = Shared n" and "1 < n"
    and "pte_read (pm_mem pm) slot = e" and "pte_phys_addr e = page" and "apart page 4096 slot 8"
    and "pte_flags e AND PT_UW \<noteq> PT_UW" and "pte_flags e AND (PT_U OR PT_C) = PT_U OR PT_C"
  shows "\<exists>pm1 pm2 pm3. pte_request_user_write B 0 va slot pm = (Err NoFreePage, pm1) \<and> pm_inv pm1 (u(page := Shared (n - 1))) [] \<and>
    drop_refs (n - 1) page pm1 = Ok pm2 \<and> pm_inv pm2 (u(page := Unused)) [page] \<and>
    page_alloc pm2 = Ok (page, pm3) \<and>
    pte_read (pm_mem pm1) slot = e \<and> pte_read (pm_mem pm2) slot = e \<and> pte_read (pm_mem pm3) slot = e"
proof -
  note fl = flags_okD [OF assms(1)]
  have "use_ok (Shared n)" using pm_inv_use_ok [OF assms(2,3)] assms(4) by simp
  then have "unat (of_nat n :: u32) = n" by (intro unat_of_nat_small) simp
  then have one: "(of_nat n :: u32) \<noteq> 1" using assms(5) by auto
  have rc: "page_ref_count page pm = Ok (of_nat n)" using page_ref_count_ok [OF assms(2,3)] assms(4) by simp
  have al: "page_alloc pm = Err NoFreePage" using page_alloc_none [OF assms(2)] by simp
  obtain pm1 where pm1: "page_drop page pm = Ok pm1" "pm_inv pm1 (u(page := Shared (n - 1))) []"
      "pm_frames pm1 = pm_frames pm" "pm_mem pm1 = pm_mem pm"
    using page_drop_shared [OF assms(2-5)] by blast
  have "pte_request_user_write B 0 va slot pm = (Err NoFreePage, pm1)"
    using assms(6,7,9,10) rc one al pm1(1)
    by (simp add: pte_request_user_write_def load_pte_def call_drop_def clift_state_def cbind_def fl Let_def)
  moreover obtain pm2 where pm2: "drop_refs (n - 1) page pm1 = Ok pm2" "pm_inv pm2 (u(page := Unused)) [page]"
      "pte_read (pm_mem pm2) slot = pte_read (pm_mem pm1) slot"
    using drop_refs_all [OF pm1(2), of page "n - 2" slot] assms(3,5,8) pm1(3) by (auto simp: numeral_2_eq_2 Suc_diff_Suc)
  moreover obtain pm3 where "page_alloc pm2 = Ok (page, pm3)" using page_alloc_ok [OF pm2(2)] by blast
  ultimately show ?thesis using pm1(2,4) assms(6,8) page_alloc_apart [of pm2 page pm3 slot] by auto
qed

definition cow_pm :: page_manager where
  "cow_pm = \<lparr>pm_states = [2], pm_heap_start = 0x2000, pm_heap_end = 0x3000,
     pm_allocator = \<lparr>pf_heap_start = 0x2000, pf_heap_end = 0x3000, pf_free_list = None,
       pf_total_pages = 1, pf_free_pages = 0\<rparr>,
     pm_mem = mem_write (\<lambda>_. 0) 0x100 (le_bytes (2323 :: usize))\<rparr>"

lemma cow_pm_inv: "pm_inv cow_pm (\<lambda>p. if p = 0x2000 then Shared 2 else Unused) []"
  "pm_frames cow_pm = [0x2000]"
proof -
  show fr: "pm_frames cow_pm = [0x2000]"
    by (simp add: cow_pm_def pm_frames_def blocks_def block_count_def PAGE_SIZE_def block_addr_def)
  show "pm_inv cow_pm (\<lambda>p. if p = 0x2000 then Shared 2 else Unused) []"
    unfolding pm_inv_def heap_ok_def states_ok_def fr
    by (simp add: cow_pm_def pf_inv.simps region_ok_def PAGE_SIZE_def list_ok_def block_count_def)
qed

theorem failed_copy_drops_reference_witness:
  "\<exists>pm1 pm2 pm3. pte_request_user_write flags_ref 0 0x5000 0x100 cow_pm = (Err NoFreePage, pm1) \<and>
    page_drop 0x2000 pm1 = Ok pm2 \<and> page_alloc pm2 = Ok (0x2000, pm3) \<and> pte_read (pm_mem pm3) 0x100 = 2323"
proof -
  have "\<exists>pm1 pm2 pm3. pte_request_user_write flags_ref 0 0x5000 0x100 cow_pm = (Err NoFreePage, pm1) \<and>
      pm_inv pm1 ((\<lambda>p. if p = 0x2000 then Shared 2 else Unused)(0x2000 := Shared (2 - 1))) [] \<and>
      drop_refs (2 - 1) 0x2000 pm1 = Ok pm2 \<and> pm_inv pm2 ((\<lambda>p. if p = 0x2000 then Shared 2 else Unused)(0x2000 := Unused)) [0x2000] \<and>
      page_alloc pm2 = Ok (0x2000, pm3) \<and>
      pte_read (pm_mem pm1) 0x100 = 2323 \<and> pte_read (pm_mem pm2) 0x100 = 2323 \<and> pte_read (pm_mem pm3) 0x100 = 2323"
  proof (rule failed_copy_drops_reference [OF flags_ref_ok cow_pm_inv(1)])
    show "pte_read (pm_mem cow_pm) 0x100 = 2323"
      by (simp add: cow_pm_def pte_read_def mem_read_write_same le_word_le_bytes)
    show "apart 0x2000 4096 (0x100 :: usize) 8" by (rule apart_blocks) simp_all
  qed (simp_all add: cow_pm_inv(2) pte_phys_addr_def pte_phys_page_num_def ppn_phys_addr_def PAGE_SHIFT_def
      pte_flags_def FLAGS_MASK_def pt_flag_defs)
  then show ?thesis by (simp add: obind_eq_Ok) blast
qed

end
