(* ===== verification/User_Slice.thy ===== *)
theory User_Slice
  imports Sys_Register
begin

text \<open>
  References and slices of user memory: \<^verbatim>\<open>UserRef\<close>, \<^verbatim>\<open>UserMutRef\<close>, \<^verbatim>\<open>UserSlice\<close> and \<^verbatim>\<open>UserMutSlice\<close> of
  \<^verbatim>\<open>ov6_syscall/src/lib.rs\<close>. They carry an address that user code chose, so their arithmetic is on
  unchecked words; the size and the alignment of the element type are parameters.
\<close>

section \<open>Operations\<close>

definition ref_size :: "usize \<Rightarrow> user_ref \<Rightarrow> usize" where
  "ref_size tsize r = tsize"

definition ref_as_bytes :: "usize \<Rightarrow> user_ref \<Rightarrow> user_slice" where
  "ref_as_bytes tsize r = \<lparr>slice_addr = ref_addr r, slice_len = tsize\<rparr>"

definition mut_ref_size :: "usize \<Rightarrow> user_mut_ref \<Rightarrow> usize" where
  "mut_ref_size tsize r = tsize"

definition mut_ref_as_bytes :: "usize \<Rightarrow> user_mut_ref \<Rightarrow> user_mut_slice" where
  "mut_ref_as_bytes tsize r = \<lparr>mut_slice_addr = mut_ref_addr r, mut_slice_len = tsize\<rparr>"

definition slice_size :: "usize \<Rightarrow> user_slice \<Rightarrow> usize option" where
  "slice_size tsize s = checked_mul tsize (slice_len s)"

definition slice_cast :: "usize \<Rightarrow> usize \<Rightarrow> usize \<Rightarrow> user_slice \<Rightarrow> (user_slice, 'e) outcome" where
  "slice_cast tsize ualign usz s =
     obind (require (slice_addr s mod ualign = 0)) (\<lambda>_.
     obind (expect (slice_size tsize s)) (\<lambda>bytes.
     obind (require (bytes mod usz = 0)) (\<lambda>_.
     Ok \<lparr>slice_addr = slice_addr s, slice_len = bytes div usz\<rparr>)))"

definition slice_nth :: "usize \<Rightarrow> usize \<Rightarrow> user_slice \<Rightarrow> (user_ref, 'e) outcome" where
  "slice_nth tsize n s =
     obind (require (n < slice_len s)) (\<lambda>_. Ok \<lparr>ref_addr = slice_addr s + n * tsize\<rparr>)"

definition slice_skip :: "usize \<Rightarrow> usize \<Rightarrow> user_slice \<Rightarrow> (user_slice, 'e) outcome" where
  "slice_skip tsize amt s =
     obind (require (amt \<le> slice_len s)) (\<lambda>_.
     Ok \<lparr>slice_addr = slice_addr s + amt * tsize, slice_len = slice_len s - amt\<rparr>)"

definition slice_take :: "usize \<Rightarrow> user_slice \<Rightarrow> (user_slice, 'e) outcome" where
  "slice_take amt s =
     obind (require (amt \<le> slice_len s)) (\<lambda>_. Ok \<lparr>slice_addr = slice_addr s, slice_len = amt\<rparr>)"

definition mut_slice_size :: "usize \<Rightarrow> user_mut_slice \<Rightarrow> usize option" where
  "mut_slice_size tsize s = checked_mul tsize (mut_slice_len s)"

definition mut_slice_cast :: "usize \<Rightarrow> usize \<Rightarrow> usize \<Rightarrow> user_mut_slice \<Rightarrow> (user_mut_slice, 'e) outcome" where
  "mut_slice_cast tsize ualign usz s =
     obind (require (mut_slice_addr s mod ualign = 0)) (\<lambda>_.
     obind (expect (mut_slice_size tsize s)) (\<lambda>bytes.
     obind (require (bytes mod usz = 0)) (\<lambda>_.
     Ok \<lparr>mut_slice_addr = mut_slice_addr s, mut_slice_len = bytes div usz\<rparr>)))"

definition mut_slice_nth :: "usize \<Rightarrow> usize \<Rightarrow> user_mut_slice \<Rightarrow> (user_mut_ref, 'e) outcome" where
  "mut_slice_nth tsize n s =
     obind (require (n < mut_slice_len s)) (\<lambda>_. Ok \<lparr>mut_ref_addr = mut_slice_addr s + n * tsize\<rparr>)"

definition mut_slice_skip :: "usize \<Rightarrow> usize \<Rightarrow> user_mut_slice \<Rightarrow> (user_mut_slice, 'e) outcome" where
  "mut_slice_skip tsize amt s =
     obind (require (amt \<le> mut_slice_len s)) (\<lambda>_.
     Ok \<lparr>mut_slice_addr = mut_slice_addr s + amt * tsize, mut_slice_len = mut_slice_len s - amt\<rparr>)"

definition mut_slice_take :: "usize \<Rightarrow> user_mut_slice \<Rightarrow> (user_mut_slice, 'e) outcome" where
  "mut_slice_take amt s =
     obind (require (amt \<le> mut_slice_len s)) (\<lambda>_.
     Ok \<lparr>mut_slice_addr = mut_slice_addr s, mut_slice_len = amt\<rparr>)"

section \<open>The bytes of a slice\<close>

text \<open>
  The interval of addresses of a slice of elements of a size, when it does not run past the end of the
  address space; the two kinds of slices are instances of one contract.
\<close>

definition in_space :: "usize \<Rightarrow> usize \<Rightarrow> usize \<Rightarrow> bool" where
  "in_space tsize addr len \<longleftrightarrow> unat addr + unat tsize * unat len < 2 ^ 64"

definition byte_range :: "usize \<Rightarrow> usize \<Rightarrow> usize \<Rightarrow> nat set" where
  "byte_range tsize addr len = {unat addr..<unat addr + unat tsize * unat len}"

lemma interval_split:
  "x \<le> y \<Longrightarrow> {a..<a + x} \<union> {a + x..<a + y} = {a..<a + y :: nat}"
  "x \<le> y \<Longrightarrow> {a..<a + x} \<inter> {a + x..<a + y} = ({} :: nat set)"
  by auto

locale slice_ops =
  fixes mk :: "usize \<Rightarrow> usize \<Rightarrow> 's"
    and addr_of :: "'s \<Rightarrow> usize"
    and len_of :: "'s \<Rightarrow> usize"
    and bytes_of :: "usize \<Rightarrow> 's \<Rightarrow> usize option"
    and skip :: "usize \<Rightarrow> usize \<Rightarrow> 's \<Rightarrow> ('s, unit) outcome"
    and take_first :: "usize \<Rightarrow> 's \<Rightarrow> ('s, unit) outcome"
    and elem_addr :: "usize \<Rightarrow> usize \<Rightarrow> 's \<Rightarrow> (usize, unit) outcome"
  assumes parts [simp]: "addr_of (mk a n) = a" "len_of (mk a n) = n"
    and bytes_of_eq: "bytes_of tsize s = checked_mul tsize (len_of s)"
    and skip_eq: "skip tsize amt s =
      (if amt \<le> len_of s then Ok (mk (addr_of s + amt * tsize) (len_of s - amt)) else Panic)"
    and take_eq: "take_first amt s = (if amt \<le> len_of s then Ok (mk (addr_of s) amt) else Panic)"
    and elem_eq: "elem_addr tsize n s = (if n < len_of s then Ok (addr_of s + n * tsize) else Panic)"
begin

lemma offset_in_space:
  assumes "in_space tsize (addr_of s) (len_of s)" and "unat n \<le> unat (len_of s)"
  shows "unat (addr_of s + n * tsize) = unat (addr_of s) + unat tsize * unat n"
    and "unat (addr_of s) + unat tsize * unat n < 2 ^ 64"
proof -
  have "unat tsize * unat n \<le> unat tsize * unat (len_of s)"
    using assms(2) by (rule mult_le_mono2)
  then show lt: "unat (addr_of s) + unat tsize * unat n < 2 ^ 64"
    using assms(1) unfolding in_space_def by linarith
  then have "unat (n * tsize) = unat tsize * unat n"
    by (simp add: unat_word_ariths mult.commute)
  then show "unat (addr_of s + n * tsize) = unat (addr_of s) + unat tsize * unat n"
    using lt by (simp add: unat_word_ariths)
qed

lemma split_at:
  assumes sp: "in_space tsize (addr_of s) (len_of s)" and "amt \<le> len_of s"
  shows "\<exists>t u. take_first amt s = Ok t \<and> skip tsize amt s = Ok u \<and> len_of t = amt \<and>
    unat (len_of u) = unat (len_of s) - unat amt \<and>
    in_space tsize (addr_of t) (len_of t) \<and> in_space tsize (addr_of u) (len_of u) \<and>
    byte_range tsize (addr_of t) (len_of t) \<union> byte_range tsize (addr_of u) (len_of u) =
      byte_range tsize (addr_of s) (len_of s) \<and>
    byte_range tsize (addr_of t) (len_of t) \<inter> byte_range tsize (addr_of u) (len_of u) = {}"
proof -
  have le: "unat amt \<le> unat (len_of s)" using assms(2) by (simp add: word_le_nat_alt)
  note off = offset_in_space [OF sp le]
  have rest: "unat (len_of s - amt) = unat (len_of s) - unat amt"
    using assms(2) by (simp add: unat_sub)
  have sum: "unat tsize * unat amt + unat tsize * (unat (len_of s) - unat amt) = unat tsize * unat (len_of s)"
    using le by (simp flip: distrib_left)
  have t: "take_first amt s = Ok (mk (addr_of s) amt)"
    and u: "skip tsize amt s = Ok (mk (addr_of s + amt * tsize) (len_of s - amt))"
    using assms(2) by (simp_all add: take_eq skip_eq)
  have st: "in_space tsize (addr_of s) amt" using off(2) by (simp add: in_space_def)
  have su: "in_space tsize (addr_of s + amt * tsize) (len_of s - amt)"
    using sp sum unfolding in_space_def off rest by linarith
  have bu: "byte_range tsize (addr_of s + amt * tsize) (len_of s - amt) =
      {unat (addr_of s) + unat tsize * unat amt..<unat (addr_of s) + unat tsize * unat (len_of s)}"
    unfolding byte_range_def off rest sum [symmetric] by (simp only: add.assoc)
  have bt: "byte_range tsize (addr_of s) amt = {unat (addr_of s)..<unat (addr_of s) + unat tsize * unat amt}"
    by (simp only: byte_range_def)
  have bs: "byte_range tsize (addr_of s) (len_of s) =
      {unat (addr_of s)..<unat (addr_of s) + unat tsize * unat (len_of s)}"
    by (simp only: byte_range_def)
  have "unat tsize * unat amt \<le> unat tsize * unat (len_of s)" using le by (rule mult_le_mono2)
  note iv = interval_split [OF this, of "unat (addr_of s)"]
  show ?thesis
    by (rule exI [of _ "mk (addr_of s) amt"], rule exI [of _ "mk (addr_of s + amt * tsize) (len_of s - amt)"])
      (simp only: t u st su bt bu bs iv parts rest simp_thms)
qed

lemma elem_inside:
  assumes sp: "in_space tsize (addr_of s) (len_of s)" and n: "n < len_of s"
  shows "\<exists>a. elem_addr tsize n s = Ok a \<and> byte_range tsize a 1 \<subseteq> byte_range tsize (addr_of s) (len_of s)"
proof -
  have lt: "unat n < unat (len_of s)" using n by (simp add: word_less_nat_alt)
  note off = offset_in_space [OF sp less_imp_le [OF lt]]
  have "unat tsize * (unat n + 1) \<le> unat tsize * unat (len_of s)"
    using lt by (intro mult_le_mono2) simp
  then have "unat (addr_of s) + unat tsize * unat n + unat tsize \<le> unat (addr_of s) + unat tsize * unat (len_of s)"
    by simp
  then have "byte_range tsize (addr_of s + n * tsize) 1 \<subseteq> byte_range tsize (addr_of s) (len_of s)"
    unfolding byte_range_def off by (intro ivl_subset [THEN iffD2] disjI2) simp
  then show ?thesis
    using n by (simp add: elem_eq)
qed

end

interpretation us: slice_ops "\<lambda>a n. \<lparr>slice_addr = a, slice_len = n\<rparr>" slice_addr slice_len slice_size
  slice_skip slice_take "\<lambda>tsize n s. obind (slice_nth tsize n s) (\<lambda>r. Ok (ref_addr r))"
  by unfold_locales (simp_all add: slice_size_def slice_skip_def slice_take_def slice_nth_def)

interpretation ums: slice_ops "\<lambda>a n. \<lparr>mut_slice_addr = a, mut_slice_len = n\<rparr>" mut_slice_addr mut_slice_len
  mut_slice_size mut_slice_skip mut_slice_take
  "\<lambda>tsize n s. obind (mut_slice_nth tsize n s) (\<lambda>r. Ok (mut_ref_addr r))"
  by unfold_locales (simp_all add: mut_slice_size_def mut_slice_skip_def mut_slice_take_def mut_slice_nth_def)

lemma slice_size_in_space:
  "slice_size tsize s = Some n \<Longrightarrow> unat (slice_addr s) + unat n < 2 ^ 64 \<Longrightarrow>
    in_space tsize (slice_addr s) (slice_len s)"
  using checked_mul_SomeD [of tsize "slice_len s" n] by (simp add: slice_size_def in_space_def)

section \<open>Properties\<close>

text \<open>
  C23. A slice whose bytes lie in the address space is cut by \<^verbatim>\<open>take\<close> and \<^verbatim>\<open>skip\<close>, for any amount up to its
  length, into two slices whose bytes partition its own, and each \<^verbatim>\<open>nth\<close> element lies inside it: the
  unchecked word arithmetic does not wrap.
\<close>

theorem user_slice_parts:
  assumes "slice_size tsize s = Some bytes" and "unat (slice_addr s) + unat bytes < 2 ^ 64"
    and "amt \<le> slice_len s" and "n < slice_len s"
  shows "(\<exists>t u. slice_take amt s = (Ok t :: (user_slice, unit) outcome) \<and>
      slice_skip tsize amt s = (Ok u :: (user_slice, unit) outcome) \<and>
      byte_range tsize (slice_addr t) (slice_len t) \<union> byte_range tsize (slice_addr u) (slice_len u) =
        byte_range tsize (slice_addr s) (slice_len s) \<and>
      byte_range tsize (slice_addr t) (slice_len t) \<inter> byte_range tsize (slice_addr u) (slice_len u) = {}) \<and>
    (\<exists>r. slice_nth tsize n s = (Ok r :: (user_ref, unit) outcome) \<and>
      byte_range tsize (ref_addr r) 1 \<subseteq> byte_range tsize (slice_addr s) (slice_len s))"
proof -
  note sp = slice_size_in_space [OF assms(1,2)]
  show ?thesis
    using us.split_at [OF sp assms(3)] us.elem_inside [OF sp assms(4)] by auto
qed

theorem user_slice_parts_witness:
  "\<exists>t u. slice_take 2 \<lparr>slice_addr = 0x2000, slice_len = 5\<rparr> = (Ok t :: (user_slice, unit) outcome) \<and>
    slice_skip 8 2 \<lparr>slice_addr = 0x2000, slice_len = 5\<rparr> = (Ok u :: (user_slice, unit) outcome) \<and>
    byte_range 8 (slice_addr t) (slice_len t) \<union> byte_range 8 (slice_addr u) (slice_len u) = byte_range 8 0x2000 5"
  using user_slice_parts [of 8 "\<lparr>slice_addr = 0x2000, slice_len = 5\<rparr>" 40 2 4]
  by (auto simp: slice_size_def checked_mul_def)

end
