(* ===== verification/Vm_User.thy ===== *)
theory Vm_User
  imports Page_Table User_Slice
begin

text \<open>
  The memory of a user process: \<^verbatim>\<open>ov6_kernel/src/memory/vm_user.rs\<close> with the layout constants of
  \<^verbatim>\<open>layout.rs\<close>, the validated slices of \<^verbatim>\<open>addr.rs\<close>, and the system call that resizes the heap
  (\<^verbatim>\<open>proc/ops.rs\<close>, \<^verbatim>\<open>syscall/proc.rs\<close>). A call works on the process's page table record and the page
  manager; what it changed before an error stays changed.
\<close>

section \<open>Layout\<close>

definition NPROC :: nat where "NPROC = 64"
definition USER_STACK_PAGES :: usize where "USER_STACK_PAGES = 2"
definition USYSCALL_ADDR :: usize where "USYSCALL_ADDR = 0x2FFFFFF000"
definition USER_STACK_SIZE :: usize where "USER_STACK_SIZE = USER_STACK_PAGES * PAGE_SIZE"
definition USER_STACK_TOP_ADDR :: usize where "USER_STACK_TOP_ADDR = 0x2000000000"
definition USER_STACK_BOTTOM_ADDR :: usize where "USER_STACK_BOTTOM_ADDR = USER_STACK_TOP_ADDR - USER_STACK_SIZE"

text \<open>
  The addresses below are \<^verbatim>\<open>const\<close> matches on \<^verbatim>\<open>VirtAddr::new\<close> and \<^verbatim>\<open>byte_sub\<close>, whose error branch does
  not compile; \<open>const_va\<close> stands for the match.
\<close>

definition const_va :: "(virt_addr, kernel_error) outcome \<Rightarrow> virt_addr" where
  "const_va r = (case r of Ok va \<Rightarrow> va | _ \<Rightarrow> 0)"

definition USER_STACK_BOTTOM :: virt_addr where "USER_STACK_BOTTOM = const_va (va_new USER_STACK_BOTTOM_ADDR)"
definition USYSCALL :: virt_addr where "USYSCALL = const_va (va_new USYSCALL_ADDR)"
definition USYSCALL_SIZE :: usize where "USYSCALL_SIZE = PAGE_SIZE"
definition TRAMPOLINE_SIZE :: usize where "TRAMPOLINE_SIZE = PAGE_SIZE"
definition TRAMPOLINE :: virt_addr where "TRAMPOLINE = const_va (va_byte_sub VA_MAX TRAMPOLINE_SIZE)"
definition TRAPFRAME_SIZE :: usize where "TRAPFRAME_SIZE = PAGE_SIZE"
definition TRAPFRAME :: virt_addr where "TRAPFRAME = const_va (va_byte_sub TRAMPOLINE TRAPFRAME_SIZE)"
definition KSTACK_PAGES :: usize where "KSTACK_PAGES = 2"
definition KSTACK_GUARD_PAGES :: usize where "KSTACK_GUARD_PAGES = 1"

definition kstack :: "nat \<Rightarrow> (virt_addr, kernel_error) outcome" where
  "kstack p =
     obind (require (p < NPROC)) (\<lambda>_.
     ounwrap (va_byte_sub TRAPFRAME ((1 + (of_nat p + 1) * (KSTACK_GUARD_PAGES + KSTACK_PAGES)) * PAGE_SIZE)))"

section \<open>Validated references\<close>

text \<open>\<^verbatim>\<open>TryAsVirtAddrRange\<close> for the four kinds of user references.\<close>

definition va_range_of :: "usize \<Rightarrow> usize \<Rightarrow> (virt_addr \<times> virt_addr, kernel_error) outcome" where
  "va_range_of addr bytes =
     obind (va_new addr) (\<lambda>start. obind (va_byte_add start bytes) (\<lambda>fin. Ok (start, fin)))"

definition ref_va_range :: "usize \<Rightarrow> user_ref \<Rightarrow> (virt_addr \<times> virt_addr, kernel_error) outcome" where
  "ref_va_range tsize r = va_range_of (ref_addr r) (ref_size tsize r)"

definition mut_ref_va_range :: "usize \<Rightarrow> user_mut_ref \<Rightarrow> (virt_addr \<times> virt_addr, kernel_error) outcome" where
  "mut_ref_va_range tsize r = va_range_of (mut_ref_addr r) (mut_ref_size tsize r)"

definition slice_va_range :: "usize \<Rightarrow> user_slice \<Rightarrow> (virt_addr \<times> virt_addr, kernel_error) outcome" where
  "slice_va_range tsize s =
     obind (of_option (TooLargeVirtualAddress (- 1)) (slice_size tsize s)) (\<lambda>bytes.
     va_range_of (slice_addr s) bytes)"

definition mut_slice_va_range :: "usize \<Rightarrow> user_mut_slice \<Rightarrow> (virt_addr \<times> virt_addr, kernel_error) outcome" where
  "mut_slice_va_range tsize s =
     obind (of_option (TooLargeVirtualAddress (- 1)) (mut_slice_size tsize s)) (\<lambda>bytes.
     va_range_of (mut_slice_addr s) bytes)"

section \<open>User page tables\<close>

record user_page_table =
  upt_pt :: phys_addr
  upt_heap_start :: virt_addr
  upt_heap_size :: usize
  upt_stack_start :: virt_addr
  upt_stack_size :: usize

type_synonym 'a ucall = "(user_page_table \<times> page_manager, 'a, kernel_error) call"

definition on_pages :: "(phys_addr \<Rightarrow> 'a pcall) \<Rightarrow> 'a ucall" where
  "on_pages f s = (case f (upt_pt (fst s)) (snd s) of (r, pm) \<Rightarrow> (r, fst s, pm))"

definition set_upt :: "(user_page_table \<Rightarrow> user_page_table) \<Rightarrow> unit ucall" where
  "set_upt f = cmodify (\<lambda>(up, pm). (f up, pm))"

definition get_upt :: "(user_page_table \<Rightarrow> 'a) \<Rightarrow> 'a ucall" where
  "get_upt f = cread (\<lambda>(up, _). f up)"

definition upt_validate :: "flag_fns \<Rightarrow> memory \<Rightarrow> user_page_table \<Rightarrow> virt_addr \<Rightarrow> virt_addr \<Rightarrow> usize \<Rightarrow> (unit, kernel_error) outcome" where
  "upt_validate B m up start fin perm = pt_validate B m (upt_pt up) (Included start) (Excluded fin) perm"

definition validate_user_read :: "flag_fns \<Rightarrow> memory \<Rightarrow> user_page_table \<Rightarrow> virt_addr \<times> virt_addr \<Rightarrow> (unit, kernel_error) outcome" where
  "validate_user_read B m up va = upt_validate B m up (fst va) (snd va) PT_UR"

definition validate_user_write :: "flag_fns \<Rightarrow> memory \<Rightarrow> user_page_table \<Rightarrow> virt_addr \<times> virt_addr \<Rightarrow> (unit, kernel_error) outcome" where
  "validate_user_write B m up va = upt_validate B m up (fst va) (snd va) PT_UW"

text \<open>\<^verbatim>\<open>Validate::validate\<close>: the reference itself, once its range is checked.\<close>

definition validate_ref :: "flag_fns \<Rightarrow> memory \<Rightarrow> user_page_table \<Rightarrow> usize \<Rightarrow> user_ref \<Rightarrow> (user_ref, kernel_error) outcome" where
  "validate_ref B m up tsize r =
     obind (ref_va_range tsize r) (\<lambda>va. obind (validate_user_read B m up va) (\<lambda>_. Ok r))"

definition validate_mut_ref :: "flag_fns \<Rightarrow> memory \<Rightarrow> user_page_table \<Rightarrow> usize \<Rightarrow> user_mut_ref \<Rightarrow> (user_mut_ref, kernel_error) outcome" where
  "validate_mut_ref B m up tsize r =
     obind (mut_ref_va_range tsize r) (\<lambda>va. obind (validate_user_write B m up va) (\<lambda>_. Ok r))"

definition validate_slice :: "flag_fns \<Rightarrow> memory \<Rightarrow> user_page_table \<Rightarrow> usize \<Rightarrow> user_slice \<Rightarrow> (user_slice, kernel_error) outcome" where
  "validate_slice B m up tsize s =
     obind (slice_va_range tsize s) (\<lambda>va. obind (validate_user_read B m up va) (\<lambda>_. Ok s))"

definition validate_mut_slice :: "flag_fns \<Rightarrow> memory \<Rightarrow> user_page_table \<Rightarrow> usize \<Rightarrow> user_mut_slice \<Rightarrow> (user_mut_slice, kernel_error) outcome" where
  "validate_mut_slice B m up tsize s =
     obind (mut_slice_va_range tsize s) (\<lambda>va. obind (validate_user_write B m up va) (\<lambda>_. Ok s))"

section \<open>Growing and shrinking\<close>

definition round_va :: "(usize \<Rightarrow> usize) \<Rightarrow> virt_addr \<Rightarrow> (virt_addr, kernel_error) outcome" where
  "round_va f va = ounwrap (va_new (f va))"

definition program_break :: "virt_addr ucall" where
  "program_break s = (ounwrap (va_byte_add (upt_heap_start (fst s)) (upt_heap_size (fst s))), s)"

definition stack_top :: "user_page_table \<Rightarrow> (virt_addr, kernel_error) outcome" where
  "stack_top up = ounwrap (va_byte_add (upt_stack_start up) (upt_stack_size up))"

definition set_heap_start :: "virt_addr \<Rightarrow> unit ucall" where
  "set_heap_start va = set_upt (\<lambda>up. up\<lparr>upt_heap_start := va\<rparr>)"

definition shrink_heap_to_size :: "flag_fns \<Rightarrow> usize \<Rightarrow> unit ucall" where
  "shrink_heap_to_size B new_size =
     cbind (get_upt upt_heap_size) (\<lambda>heap_size.
     if heap_size \<le> new_size then creturn ()
     else
       cbind (if page_roundup new_size < page_roundup heap_size
              then
                let sz = page_roundup heap_size - page_roundup new_size in
                cbind (get_upt upt_heap_start) (\<lambda>heap_start.
                cbind (clift (obind (ounwrap (va_byte_add heap_start new_size)) (round_va page_roundup))) (\<lambda>start_va.
                cunwrap (on_pages (\<lambda>pt. unmap_addrs B pt start_va sz))))
              else creturn ()) (\<lambda>_.
       set_upt (\<lambda>up. up\<lparr>upt_heap_size := new_size\<rparr>)))"

definition grow_heap_to_size :: "flag_fns \<Rightarrow> usize \<Rightarrow> usize \<Rightarrow> unit ucall" where
  "grow_heap_to_size B new_size xperm =
     cbind (get_upt upt_heap_size) (\<lambda>old_size.
     if new_size < old_size then creturn ()
     else
       cbind (set_upt (\<lambda>up. up\<lparr>upt_heap_size := new_size\<rparr>)) (\<lambda>_.
       cbind (get_upt upt_heap_start) (\<lambda>heap_start.
       cbind (clift (obind (ounwrap (va_byte_add heap_start old_size)) (round_va page_roundup))) (\<lambda>map_start.
       cbind (clift (va_byte_add heap_start new_size)) (\<lambda>map_end.
       if map_start < map_end
       then
         cbind (clift (obind (round_va page_roundup map_end) (\<lambda>e. expect (checked_sub e map_start)))) (\<lambda>map_size s.
         case on_pages (\<lambda>pt. map_addrs B pt map_start allocate_new_zeroed map_size xperm) s of
           (Err e, s) \<Rightarrow> cbind (shrink_heap_to_size B old_size) (\<lambda>_. clift (Err e)) s
         | r \<Rightarrow> r)
       else creturn ())))))"

definition grow_heap_by :: "flag_fns \<Rightarrow> usize \<Rightarrow> usize \<Rightarrow> unit ucall" where
  "grow_heap_by B increment xperm =
     cbind (get_upt upt_heap_size) (\<lambda>heap_size.
     cbind (clift (of_option HeapSizeOverflow (checked_add heap_size increment))) (\<lambda>new_size.
     grow_heap_to_size B new_size xperm))"

definition shrink_heap_by :: "flag_fns \<Rightarrow> usize \<Rightarrow> unit ucall" where
  "shrink_heap_by B decrement =
     cbind (get_upt upt_heap_size) (\<lambda>heap_size.
     cbind (clift (of_option HeapSizeUnderflow (checked_sub heap_size decrement))) (\<lambda>new_size.
     shrink_heap_to_size B new_size))"

text \<open>\<^verbatim>\<open>proc::ops::resize_by\<close> and the \<^verbatim>\<open>Sbrk\<close> system call.\<close>

definition saturating_abs :: "isize \<Rightarrow> usize" where
  "saturating_abs n = (if n = 0x8000000000000000 then 0x7FFFFFFFFFFFFFFF else if sint n < 0 then - n else n)"

definition resize_by :: "flag_fns \<Rightarrow> isize \<Rightarrow> unit ucall" where
  "resize_by B increment =
     (let amt = saturating_abs increment in
      if sint increment < 0 then shrink_heap_by B amt
      else if sint increment = 0 then creturn ()
      else grow_heap_by B amt PT_URW)"

definition sys_sbrk :: "flag_fns \<Rightarrow> isize \<Rightarrow> usize ucall" where
  "sys_sbrk B increment =
     cbind program_break (\<lambda>pb.
     cbind (resize_by B increment) (\<lambda>_.
     creturn pb))"

section \<open>Creating and cloning\<close>

text \<open>An error after the page table exists drops it on the way out.\<close>

definition or_drop :: "flag_fns \<Rightarrow> unit ucall \<Rightarrow> unit ucall" where
  "or_drop B m s =
     (case m s of
        (Err e, s) \<Rightarrow> cbind (on_pages (pt_drop B)) (\<lambda>_. clift (Err e)) s
      | r \<Rightarrow> r)"

definition alloc_stack :: "flag_fns \<Rightarrow> unit ucall" where
  "alloc_stack B =
     cbind (get_upt upt_stack_start) (\<lambda>stack_start.
     cbind (get_upt upt_stack_size) (\<lambda>stack_size.
     on_pages (\<lambda>pt. map_addrs B pt stack_start allocate_new_zeroed stack_size PT_URW)))"

text \<open>\<^verbatim>\<open>USyscallData\<close> is the process id, four bytes.\<close>

definition alloc_usyscall :: "flag_fns \<Rightarrow> u32 \<Rightarrow> unit ucall" where
  "alloc_usyscall B pid =
     cbind (on_pages (\<lambda>pt. map_addrs B pt USYSCALL allocate_new_zeroed USYSCALL_SIZE PT_UR)) (\<lambda>_.
     cbind (on_pages (\<lambda>pt. fetch_chunk_mut B pt USYSCALL PT_U)) (\<lambda>(addr, n).
     cbind (clift (require (4 \<le> n))) (\<lambda>_.
     on_pages (\<lambda>_. cmodify (\<lambda>pm. pm\<lparr>pm_mem := mem_write (pm_mem pm) addr (le_bytes pid)\<rparr>)))))"

text \<open>\<^verbatim>\<open>trampoline\<close> is the address of the trampoline code, a symbol of the linker.\<close>

definition upt_new :: "flag_fns \<Rightarrow> phys_addr \<Rightarrow> u32 \<Rightarrow> page_manager \<Rightarrow> (user_page_table, kernel_error) outcome \<times> page_manager" where
  "upt_new B trampoline pid =
     cbind pt_try_allocate (\<lambda>pt pm.
       let up = \<lparr>upt_pt = pt, upt_heap_start = VA_MIN_AVA, upt_heap_size = 0,
                 upt_stack_start = USER_STACK_BOTTOM, upt_stack_size = USER_STACK_SIZE\<rparr>;
           (r, up, pm) = or_drop B
             (cbind (alloc_usyscall B pid) (\<lambda>_.
              cbind (on_pages (\<lambda>pt. map_addrs B pt TRAMPOLINE (FixedAddr trampoline) TRAMPOLINE_SIZE PT_RX)) (\<lambda>_.
              on_pages (\<lambda>pt. map_addrs B pt TRAPFRAME allocate_new_zeroed TRAPFRAME_SIZE PT_RW)))) (up, pm)
       in (obind r (\<lambda>_. Ok up), pm))"

text \<open>\<^verbatim>\<open>clone_from\<close>: the program, the stack and the heap of the other process, shared copy on write.\<close>

definition upt_clone_from :: "flag_fns \<Rightarrow> user_page_table \<Rightarrow> unit ucall" where
  "upt_clone_from B other =
     cbind (on_pages (\<lambda>pt. clone_pages_from B pt (upt_pt other) (Included VA_MIN_AVA)
              (Excluded (upt_heap_start other)) PT_U)) (\<lambda>_.
     cbind (clift (stack_top other)) (\<lambda>top.
     cbind (on_pages (\<lambda>pt. clone_pages_from B pt (upt_pt other) (Included (upt_stack_start other))
              (Excluded top) PT_U)) (\<lambda>_.
     cbind (set_upt (\<lambda>up. up\<lparr>upt_stack_start := upt_stack_start other, upt_stack_size := upt_stack_size other\<rparr>)) (\<lambda>_.
     cbind (clift (va_byte_add (upt_heap_start other) (upt_heap_size other))) (\<lambda>heap_end.
     cbind (on_pages (\<lambda>pt. clone_pages_from B pt (upt_pt other) (Included (upt_heap_start other))
              (Excluded heap_end) PT_U)) (\<lambda>_.
     set_upt (\<lambda>up. up\<lparr>upt_heap_start := upt_heap_start other, upt_heap_size := upt_heap_size other\<rparr>)))))))"

definition upt_request_user_write :: "flag_fns \<Rightarrow> virt_addr \<Rightarrow> unit ucall" where
  "upt_request_user_write B va = on_pages (\<lambda>pt. pt_request_user_write B pt va)"

section \<open>Copying between the kernel and user memory\<close>

text \<open>
  The loops go chunk by chunk. \<open>None\<close> is a loop that does not end, \<open>Panic\<close> an \<^verbatim>\<open>unwrap\<close> or \<^verbatim>\<open>assert!\<close> that
  fails; a loop hands back the address it stopped at.
\<close>

partial_function (option) u2k_loop :: "flag_fns \<Rightarrow> memory \<Rightarrow> phys_addr \<Rightarrow> virt_addr \<Rightarrow> virt_addr \<Rightarrow> u8 list \<Rightarrow> u8 list
    \<Rightarrow> (virt_addr \<times> u8 list, kernel_error) outcome option" where
  "u2k_loop B m pt src_start src_end done dst =
     (if src_start < src_end
      then case fetch_chunk B m pt src_start PT_UR of
             Ok (addr, len) \<Rightarrow>
               let n = min (length dst) (unat len) in
               (case va_byte_add src_start (of_nat n) of
                  Ok src_start \<Rightarrow> u2k_loop B m pt src_start src_end (done @ mem_read m addr n) (drop n dst)
                | _ \<Rightarrow> Some Panic)
           | _ \<Rightarrow> Some Panic
      else Some (Ok (src_start, done @ dst)))"

definition copy_u2k_bytes :: "flag_fns \<Rightarrow> memory \<Rightarrow> user_page_table \<Rightarrow> u8 list \<Rightarrow> user_slice \<Rightarrow> (u8 list, kernel_error) outcome option" where
  "copy_u2k_bytes B m up dst src =
     (if unat (slice_len src) \<noteq> length dst then Some Panic
      else case slice_va_range 1 src of
             Ok (src_start, src_end) \<Rightarrow>
               map_option (\<lambda>r. obind r (\<lambda>(src_start, bytes). obind (require (src_start = src_end)) (\<lambda>_. Ok bytes)))
                 (u2k_loop B m (upt_pt up) src_start src_end [] dst)
           | _ \<Rightarrow> Some Panic)"

definition copy_u2k :: "flag_fns \<Rightarrow> memory \<Rightarrow> user_page_table \<Rightarrow> usize \<Rightarrow> user_ref \<Rightarrow> (u8 list, kernel_error) outcome option" where
  "copy_u2k B m up tsize src = copy_u2k_bytes B m up (replicate (unat tsize) 0) (ref_as_bytes tsize src)"

partial_function (option) k2u_loop :: "flag_fns \<Rightarrow> phys_addr \<Rightarrow> virt_addr \<Rightarrow> virt_addr \<Rightarrow> u8 list \<Rightarrow> page_manager
    \<Rightarrow> ((virt_addr, kernel_error) outcome \<times> page_manager) option" where
  "k2u_loop B pt dst_start dst_end src pm =
     (if dst_start < dst_end
      then case fetch_chunk_mut B pt dst_start PT_UW pm of
             (Ok (addr, len), pm) \<Rightarrow>
               let n = min (length src) (unat len);
                   pm = pm\<lparr>pm_mem := mem_write (pm_mem pm) addr (take n src)\<rparr>
               in (case va_byte_add dst_start (of_nat n) of
                     Ok dst_start \<Rightarrow> k2u_loop B pt dst_start dst_end (drop n src) pm
                   | _ \<Rightarrow> Some (Panic, pm))
           | (_, pm) \<Rightarrow> Some (Panic, pm)
      else Some (Ok dst_start, pm))"

definition copy_k2u_bytes :: "flag_fns \<Rightarrow> user_page_table \<Rightarrow> user_mut_slice \<Rightarrow> u8 list \<Rightarrow> page_manager
    \<Rightarrow> ((unit, kernel_error) outcome \<times> page_manager) option" where
  "copy_k2u_bytes B up dst src pm =
     (if unat (mut_slice_len dst) \<noteq> length src then Some (Panic, pm)
      else case mut_slice_va_range 1 dst of
             Ok (dst_start, dst_end) \<Rightarrow>
               map_option (\<lambda>(r, pm). (obind r (\<lambda>dst_start. require (dst_start = dst_end)), pm))
                 (k2u_loop B (upt_pt up) dst_start dst_end src pm)
           | _ \<Rightarrow> Some (Panic, pm))"

definition copy_k2u :: "flag_fns \<Rightarrow> user_page_table \<Rightarrow> usize \<Rightarrow> user_mut_ref \<Rightarrow> u8 list \<Rightarrow> page_manager
    \<Rightarrow> ((unit, kernel_error) outcome \<times> page_manager) option" where
  "copy_k2u B up tsize dst src pm = copy_k2u_bytes B up (mut_ref_as_bytes tsize dst) src pm"

text \<open>
  The loop of \<^verbatim>\<open>copy_u2u_bytes\<close> with the two current chunks as pairs of address and number of bytes.
\<close>

definition refill_dst :: "flag_fns \<Rightarrow> phys_addr \<Rightarrow> virt_addr \<Rightarrow> virt_addr \<Rightarrow> phys_addr \<times> nat \<Rightarrow> (virt_addr \<times> phys_addr \<times> nat) pcall" where
  "refill_dst B pt dst_start dst_end chunk =
     (if snd chunk \<noteq> 0 then creturn (dst_start, chunk)
      else
        cbind (clift (require (dst_start < dst_end))) (\<lambda>_.
        cbind (cunwrap (fetch_chunk_mut B pt dst_start PT_UW)) (\<lambda>(addr, len).
        let n = min (unat len) (unat (dst_end - dst_start)) in
        cbind (clift (ounwrap (va_byte_add dst_start (of_nat n)))) (\<lambda>dst_start.
        creturn (dst_start, addr, n)))))"

definition refill_src :: "flag_fns \<Rightarrow> phys_addr \<Rightarrow> virt_addr \<Rightarrow> virt_addr \<Rightarrow> phys_addr \<times> nat \<Rightarrow> (virt_addr \<times> phys_addr \<times> nat) pcall" where
  "refill_src B pt src_start src_end chunk =
     (if snd chunk \<noteq> 0 then creturn (src_start, chunk)
      else
        cbind (clift (require (src_start < src_end))) (\<lambda>_.
        cbind (\<lambda>pm. (ounwrap (fetch_chunk B (pm_mem pm) pt src_start PT_UR), pm)) (\<lambda>(addr, len).
        let n = min (unat len) (unat (src_end - src_start)) in
        cbind (clift (ounwrap (va_byte_add src_start (of_nat n)))) (\<lambda>src_start.
        creturn (src_start, addr, n)))))"

partial_function (option) u2u_loop :: "flag_fns \<Rightarrow> phys_addr \<Rightarrow> phys_addr \<Rightarrow> nat \<Rightarrow> virt_addr \<Rightarrow> virt_addr
    \<Rightarrow> virt_addr \<times> phys_addr \<times> nat \<Rightarrow> virt_addr \<times> phys_addr \<times> nat \<Rightarrow> page_manager
    \<Rightarrow> ((virt_addr \<times> virt_addr, kernel_error) outcome \<times> page_manager) option" where
  "u2u_loop B dst_pt src_pt left dst_end src_end dst src pm =
     (if 0 < left
      then case cbind (refill_dst B dst_pt (fst dst) dst_end (snd dst)) (\<lambda>dst.
                cbind (refill_src B src_pt (fst src) src_end (snd src)) (\<lambda>src.
                creturn (dst, src))) pm of
             (Ok ((dst_start, d, dn), (src_start, sa, sn)), pm) \<Rightarrow>
               let n = min dn sn;
                   pm = pm\<lparr>pm_mem := mem_write (pm_mem pm) d (mem_read (pm_mem pm) sa n)\<rparr>
               in u2u_loop B dst_pt src_pt (left - n) dst_end src_end
                    (dst_start, d + of_nat n, dn - n) (src_start, sa + of_nat n, sn - n) pm
           | (_, pm) \<Rightarrow> Some (Panic, pm)
      else Some (Ok (fst dst, fst src), pm))"

definition copy_u2u_bytes :: "flag_fns \<Rightarrow> user_page_table \<Rightarrow> user_mut_slice \<Rightarrow> user_page_table \<Rightarrow> user_slice \<Rightarrow> page_manager
    \<Rightarrow> ((unit, kernel_error) outcome \<times> page_manager) option" where
  "copy_u2u_bytes B dst_up dst src_up src pm =
     (if slice_len src \<noteq> mut_slice_len dst then Some (Panic, pm)
      else case (mut_slice_va_range 1 dst, slice_va_range 1 src) of
             (Ok (dst_start, dst_end), Ok (src_start, src_end)) \<Rightarrow>
               map_option (\<lambda>(r, pm). (obind r (\<lambda>(d, s). require (d = dst_end \<and> s = src_end)), pm))
                 (u2u_loop B (upt_pt dst_up) (upt_pt src_up) (unat (slice_len src)) dst_end src_end
                   (dst_start, 0, 0) (src_start, 0, 0) pm)
           | _ \<Rightarrow> Some (Panic, pm))"

section \<open>Slices of either kind\<close>

text \<open>\<^verbatim>\<open>GenericSlice<u8>\<close>: validated user memory of some page table, or bytes of the kernel.\<close>

datatype generic_slice = User_Bytes user_page_table user_slice | Kernel_Bytes "u8 list"

fun generic_len :: "generic_slice \<Rightarrow> nat" where
  "generic_len (User_Bytes up s) = unat (slice_len s)"
| "generic_len (Kernel_Bytes bs) = length bs"

definition generic_skip :: "usize \<Rightarrow> generic_slice \<Rightarrow> (generic_slice, kernel_error) outcome" where
  "generic_skip amt g =
     obind (require (unat amt \<le> generic_len g)) (\<lambda>_.
     case g of
       User_Bytes up s \<Rightarrow> obind (slice_skip 1 amt s) (\<lambda>s. Ok (User_Bytes up s))
     | Kernel_Bytes bs \<Rightarrow> Ok (Kernel_Bytes (drop (unat amt) bs)))"

definition generic_take :: "usize \<Rightarrow> generic_slice \<Rightarrow> (generic_slice, kernel_error) outcome" where
  "generic_take amt g =
     obind (require (unat amt \<le> generic_len g)) (\<lambda>_.
     case g of
       User_Bytes up s \<Rightarrow> obind (slice_take amt s) (\<lambda>s. Ok (User_Bytes up s))
     | Kernel_Bytes bs \<Rightarrow> Ok (Kernel_Bytes (take (unat amt) bs)))"

definition copy_x2k_bytes :: "flag_fns \<Rightarrow> memory \<Rightarrow> u8 list \<Rightarrow> generic_slice \<Rightarrow> (u8 list, kernel_error) outcome option" where
  "copy_x2k_bytes B m dst src =
     (if length dst \<noteq> generic_len src then Some Panic
      else case src of
             User_Bytes up s \<Rightarrow> copy_u2k_bytes B m up dst s
           | Kernel_Bytes bs \<Rightarrow> Some (Ok bs))"

definition copy_x2u_bytes :: "flag_fns \<Rightarrow> user_page_table \<Rightarrow> user_mut_slice \<Rightarrow> generic_slice \<Rightarrow> page_manager
    \<Rightarrow> ((unit, kernel_error) outcome \<times> page_manager) option" where
  "copy_x2u_bytes B up dst src pm =
     (if unat (mut_slice_len dst) \<noteq> generic_len src then Some (Panic, pm)
      else case src of
             User_Bytes src_up s \<Rightarrow> copy_u2u_bytes B up dst src_up s pm
           | Kernel_Bytes bs \<Rightarrow> copy_k2u_bytes B up dst bs pm)"

section \<open>Facts on the heap\<close>

lemma unat_positive:
  assumes "0 < sint (n :: isize)"
  shows "unat n < 2 ^ 63"
proof -
  have "uint n = take_bit 64 (sint n)"
    using unsigned_of_int [of "sint n", where 'b = 64 and 'a = int] by (simp add: of_int_sint)
  then have "uint n = sint n"
    using assms sint_lt [of n] by (simp add: take_bit_int_eq_self)
  then show ?thesis using sint_lt [of n] by (simp add: unat_eq_nat_uint)
qed

lemma VA_MAX_nat [simp]: "unat VA_MAX = 2 ^ 38"
  by (simp add: VA_MAX_def PAGE_SHIFT_def)

lemma va_new_Ok: "va_new a = Ok b \<longleftrightarrow> b = a \<and> unat a \<le> 2 ^ 38"
  by (auto simp: va_new_def word_less_nat_alt)

lemma va_byte_add_Ok:
  "va_byte_add va off = Ok b \<longleftrightarrow> unat va + unat off \<le> 2 ^ 38 \<and> b = va + off"
proof -
  have "unat (va + off) = unat va + unat off" if "unat va + unat off < 2 ^ 64"
    using that by (intro unat_add_small) simp
  then show ?thesis
    by (auto simp: va_byte_add_def checked_add_def va_new_Ok)
qed

lemma va_byte_add_Err: "2 ^ 38 < unat va + unat off \<Longrightarrow> \<exists>a. va_byte_add va off = Err (TooLargeVirtualAddress a)"
  by (auto simp: va_byte_add_def va_new_def word_less_nat_alt dest: checked_add_SomeD split: option.splits)

lemma ounwrap_simps [simp]: "ounwrap (Ok x) = Ok x" "ounwrap (Err e) = Panic" "ounwrap Panic = Panic"
  by (simp_all add: ounwrap_def)

lemma round_va_up:
  assumes "unat va \<le> 2 ^ 38"
  shows "round_va page_roundup va = Ok (page_roundup va)"
proof -
  have "(unat va + 4095) div 4096 \<le> (2 ^ 38 + 4095) div 4096"
    using assms by (intro div_le_mono) simp
  then have "unat (page_roundup va) \<le> 2 ^ 38"
    using assms by (simp add: unat_page_roundup)
  then show ?thesis by (simp add: round_va_def va_new_def not_less word_le_nat_alt)
qed

section \<open>Properties\<close>

text \<open>
  C36. A process whose heap lies in the address space and that asks \<^verbatim>\<open>sbrk\<close> for more than the address
  space has room for gets an error, but \<^verbatim>\<open>grow_heap_to_size\<close> has stored the new size before it finds
  this out: the next \<^verbatim>\<open>sbrk\<close> of the process, with any argument, panics the kernel.
\<close>

theorem sbrk_too_large_then_panic:
  assumes "unat (upt_heap_start up) + unat (upt_heap_size up) \<le> 2 ^ 38" and "0 < sint increment"
    and "2 ^ 38 < unat (upt_heap_start up) + unat (upt_heap_size up) + unat increment"
  shows "\<exists>a s'. sys_sbrk B increment (up, pm) = (Err (TooLargeVirtualAddress a), s') \<and>
    sys_sbrk B increment' s' = (Panic, s')"
proof -
  let ?h = "upt_heap_start up" and ?n = "upt_heap_size up"
  have pos: "saturating_abs increment = increment"
  proof -
    have "increment \<noteq> 0x8000000000000000" using assms(2) by auto
    then show ?thesis using assms(2) by (simp add: saturating_abs_def)
  qed
  have "unat increment < 2 ^ 63" using assms(2) by (rule unat_positive)
  then have sum: "unat ?n + unat increment < 2 ^ 64" using assms(1) by simp
  then have add: "checked_add ?n increment = Some (?n + increment)" and un: "unat (?n + increment) = unat ?n + unat increment"
    by (simp_all add: checked_add_def unat_add_small)
  obtain a where err: "va_byte_add ?h (?n + increment) = Err (TooLargeVirtualAddress a)"
    using va_byte_add_Err [of ?h "?n + increment"] assms(3) un by auto
  have brk: "va_byte_add ?h ?n = Ok (?h + ?n)" using assms(1) by (simp add: va_byte_add_Ok)
  have "unat (?h + ?n) \<le> 2 ^ 38" using brk va_byte_add_bound by (metis VA_MAX_nat word_le_nat_alt)
  then have rnd: "round_va page_roundup (?h + ?n) = Ok (page_roundup (?h + ?n))" by (rule round_va_up)
  have "\<not> ?n + increment < ?n" using un by (simp add: word_less_nat_alt)
  then have "sys_sbrk B increment (up, pm) =
      (Err (TooLargeVirtualAddress a), up\<lparr>upt_heap_size := ?n + increment\<rparr>, pm)"
    using assms(2) brk rnd err add
    by (simp add: sys_sbrk_def program_break_def resize_by_def grow_heap_by_def grow_heap_to_size_def
        cbind_def get_upt_def set_upt_def pos)
  moreover have "sys_sbrk B increment' (up\<lparr>upt_heap_size := ?n + increment\<rparr>, pm) =
      (Panic, up\<lparr>upt_heap_size := ?n + increment\<rparr>, pm)"
    using err by (simp add: sys_sbrk_def program_break_def cbind_def)
  ultimately show ?thesis by blast
qed

definition example_pm :: page_manager where
  "example_pm = \<lparr>pm_states = [], pm_heap_start = 0, pm_heap_end = 0,
     pm_allocator = \<lparr>pf_heap_start = 0, pf_heap_end = 0, pf_free_list = None, pf_total_pages = 0, pf_free_pages = 0\<rparr>,
     pm_mem = (\<lambda>_. 0)\<rparr>"

definition example_upt :: user_page_table where
  "example_upt = \<lparr>upt_pt = 0x80000000, upt_heap_start = 0x5000, upt_heap_size = 0x2000,
     upt_stack_start = USER_STACK_BOTTOM, upt_stack_size = USER_STACK_SIZE\<rparr>"

theorem sbrk_too_large_then_panic_witness:
  "\<exists>a s'. sys_sbrk flags_ref 0x7FFFFFFFFFFFFFFF (example_upt, example_pm) = (Err (TooLargeVirtualAddress a), s') \<and>
    sys_sbrk flags_ref 0 s' = (Panic, s')"
  by (rule sbrk_too_large_then_panic) (simp_all add: example_upt_def)

end
