(* ===== verification/Page_Walk.thy ===== *)
theory Page_Walk
  imports Vm_User
begin

text \<open>
  What validation of a range of user addresses gives, and that the copies from validated user memory
  do not fail. The iterator over the entries of a range is shown to visit exactly the pages of the
  range, by way of a recursive check of a table.
\<close>

section \<open>The iterator as a recursive check\<close>

primrec oforeach :: "('a \<Rightarrow> (unit, 'e) outcome) \<Rightarrow> 'a list \<Rightarrow> (unit, 'e) outcome" where
  "oforeach f [] = Ok ()"
| "oforeach f (x # xs) = obind (f x) (\<lambda>_. oforeach f xs)"

lemma oforeach_Ok: "oforeach f xs = Ok () \<longleftrightarrow> (\<forall>x \<in> set xs. f x = Ok ())"
  by (induction xs) auto

lemma oforeach_no_Panic: "(\<And>x. x \<in> set xs \<Longrightarrow> f x \<noteq> Panic) \<Longrightarrow> oforeach f xs \<noteq> Panic"
  by (induction xs) (auto simp: obind_eq_Panic)

lemma oforeach_append: "oforeach f (xs @ ys) = obind (oforeach f xs) (\<lambda>_. oforeach f ys)"
  by (induction xs) (auto simp: obind_assoc)


primrec check_entry :: "nat \<Rightarrow> flag_fns \<Rightarrow> memory \<Rightarrow> usize \<Rightarrow> virt_addr \<Rightarrow> virt_addr \<Rightarrow> virt_addr \<Rightarrow> phys_addr \<Rightarrow> usize
    \<Rightarrow> (unit, kernel_error) outcome" where
  "check_entry 0 B m flags min_va max_va base_va pt idx =
     obind (with_level_idx base_va 0 idx) (\<lambda>va.
     obind (validate_entry B m flags (0, va, pt_slot pt idx)) (\<lambda>_.
     if pte_is_leaf B (pte_read m (pt_slot pt idx)) then Ok () else Panic))"
| "check_entry (Suc l) B m flags min_va max_va base_va pt idx =
     obind (with_level_idx base_va (Suc l) idx) (\<lambda>va.
     obind (validate_entry B m flags (Suc l, va, pt_slot pt idx)) (\<lambda>_.
     if pte_is_leaf B (pte_read m (pt_slot pt idx)) then Ok ()
     else
       obind (sub_frame B m min_va max_va l base_va pt idx) (\<lambda>(_, base_va, pt, idxs).
       oforeach (check_entry l B m flags min_va max_va base_va pt) idxs)))"

definition check_stack :: "flag_fns \<Rightarrow> memory \<Rightarrow> usize \<Rightarrow> virt_addr \<Rightarrow> virt_addr \<Rightarrow> pt_frame list \<Rightarrow> (unit, kernel_error) outcome" where
  "check_stack B m flags min_va max_va =
     oforeach (\<lambda>(l, base_va, pt, idxs). oforeach (check_entry l B m flags min_va max_va base_va pt) idxs)"

definition check_from :: "flag_fns \<Rightarrow> memory \<Rightarrow> usize \<Rightarrow> virt_addr \<Rightarrow> virt_addr \<Rightarrow> pt_frame list \<Rightarrow> bool
    \<Rightarrow> (unit, kernel_error) outcome" where
  "check_from B m flags min_va max_va stack non_leaf =
     (if non_leaf then obind (entries_push B m min_va max_va stack) (check_stack B m flags min_va max_va)
      else check_stack B m flags min_va max_va stack)"

lemma check_stack_simps [simp]:
  "check_stack B m flags min_va max_va [] = Ok ()"
  "check_stack B m flags min_va max_va ((l, base_va, pt, []) # rest) = check_stack B m flags min_va max_va rest"
  "check_stack B m flags min_va max_va ((l, base_va, pt, idx # idxs) # rest) =
     obind (check_entry l B m flags min_va max_va base_va pt idx) (\<lambda>_.
     check_stack B m flags min_va max_va ((l, base_va, pt, idxs) # rest))"
  by (simp_all add: check_stack_def obind_assoc)

lemma check_entry_invalid:
  "\<not> pte_is_valid B (pte_read m (pt_slot pt idx)) \<Longrightarrow> with_level_idx base_va l idx = Ok va \<Longrightarrow>
    check_entry l B m flags min_va max_va base_va pt idx = Err (VirtualPageNotMapped va)"
  by (cases l) (simp_all add: validate_entry_def)

lemma check_entry_leaf:
  "pte_is_leaf B (pte_read m (pt_slot pt idx)) \<Longrightarrow> with_level_idx base_va l idx = Ok va \<Longrightarrow>
    check_entry l B m flags min_va max_va base_va pt idx = validate_entry B m flags (l, va, pt_slot pt idx)"
  by (cases l) simp_all

lemma check_stack_Cons:
  "check_stack B m flags min_va max_va (f # g # rest) =
     obind (check_stack B m flags min_va max_va [f]) (\<lambda>_. check_stack B m flags min_va max_va (g # rest))"
  by (simp add: check_stack_def)

lemma sub_frame_level: "sub_frame B m min_va max_va l base_va pt idx = Ok f \<Longrightarrow> fst f = l"
  by (auto simp: sub_frame_def)

lemma check_sub_frame:
  "obind (sub_frame B m min_va max_va l base_va pt idx) (\<lambda>(_, base_va, pt, idxs).
     oforeach (check_entry l B m flags min_va max_va base_va pt) idxs) =
   obind (sub_frame B m min_va max_va l base_va pt idx) (\<lambda>f. check_stack B m flags min_va max_va [f])"
  by (rule obind_cong) (auto simp: check_stack_def dest: sub_frame_level)

lemma entries_loop_check:
  "check_stack B m flags min_va max_va stack =
     (case entries_loop B m stack of
        Panic \<Rightarrow> Panic
      | Err e \<Rightarrow> Err e
      | Ok (None, _) \<Rightarrow> Ok ()
      | Ok (Some item, stack', non_leaf) \<Rightarrow>
          obind (validate_entry B m flags item) (\<lambda>_. check_from B m flags min_va max_va stack' non_leaf))"
proof (induction B m stack rule: entries_loop.induct)
  case (3 B m level base_va pt idx idxs rest)
  let ?e = "pte_read m (pt_slot pt idx)"
  show ?case
  proof (cases "with_level_idx base_va level idx")
    case (Ok va)
    consider "\<not> pte_is_valid B ?e" | "pte_is_leaf B ?e" | "pte_is_valid B ?e" "\<not> pte_is_leaf B ?e" by blast
    then show ?thesis
    proof cases
      case 1
      then show ?thesis
        using Ok by (simp add: check_entry_invalid validate_entry_def Let_def)
    next
      case 2
      then show ?thesis using Ok by (simp add: check_entry_leaf check_from_def Let_def)
    next
      case 3
      then have "validate_entry B m flags (level, va, pt_slot pt idx) = Ok ()"
        by (simp add: validate_entry_def)
      moreover have "check_entry level B m flags min_va max_va base_va pt idx =
          obind (validate_entry B m flags (level, va, pt_slot pt idx)) (\<lambda>_.
          case level of 0 \<Rightarrow> Panic | Suc l \<Rightarrow> obind (sub_frame B m min_va max_va l base_va pt idx) (\<lambda>f.
            check_stack B m flags min_va max_va [f]))"
        using 3(2) Ok by (cases level) (simp_all add: check_sub_frame)
      ultimately show ?thesis
        using 3 Ok by (cases level) (simp_all add: check_from_def entries_push_def obind_assoc Let_def
            check_stack_Cons)
    qed
  qed (cases level; simp add: Let_def)+
qed simp_all

lemma validate_loop_check:
  "validate_loop B m flags it =
     check_from B m flags (en_min it) (en_max it) (en_stack it) (en_last_non_leaf it)"
proof (induction B m flags it rule: validate_loop.induct)
  case (1 B m flags it)
  show ?case
  proof (cases "if en_last_non_leaf it then entries_push B m (en_min it) (en_max it) (en_stack it)
            else Ok (en_stack it)")
    case (Ok stack)
    have "check_from B m flags (en_min it) (en_max it) (en_stack it) (en_last_non_leaf it) =
        check_stack B m flags (en_min it) (en_max it) stack"
      using Ok by (auto simp: check_from_def split: if_splits)
    then have rhs: "check_from B m flags (en_min it) (en_max it) (en_stack it) (en_last_non_leaf it) =
       (case entries_loop B m stack of Panic \<Rightarrow> Panic | Err e \<Rightarrow> Err e | Ok (None, _) \<Rightarrow> Ok ()
        | Ok (Some item, stack', non_leaf) \<Rightarrow> obind (validate_entry B m flags item) (\<lambda>_.
            check_from B m flags (en_min it) (en_max it) stack' non_leaf))"
      by (simp only: entries_loop_check [of B m flags _ _ stack])
    have nxt: "entries_next B m it = obind (entries_loop B m stack) (\<lambda>(item, stack', non_leaf).
        Ok (item, it\<lparr>en_stack := stack', en_last_non_leaf := non_leaf\<rparr>))"
      by (simp only: entries_next_def Ok obind.simps)
    show ?thesis
    proof (cases "entries_loop B m stack")
      case lp: (Ok r)
      obtain item stack' non_leaf where r: "r = (item, stack', non_leaf)" by (cases r)
      have nx: "entries_next B m it = Ok (item, it\<lparr>en_stack := stack', en_last_non_leaf := non_leaf\<rparr>)"
        by (simp only: nxt lp r obind.simps prod.case)
      show ?thesis
      proof (cases item)
        case None
        then show ?thesis unfolding rhs validate_loop.simps [of B m flags it] nx by (simp add: lp r)
      next
        case (Some i)
        have "obind (validate_entry B m flags i) (\<lambda>_. validate_loop B m flags
              (it\<lparr>en_stack := stack', en_last_non_leaf := non_leaf\<rparr>)) =
            obind (validate_entry B m flags i) (\<lambda>_. check_from B m flags (en_min it) (en_max it) stack' non_leaf)"
          using "1.IH" [OF nx refl Some] by (intro obind_cong refl) simp
        then show ?thesis unfolding rhs validate_loop.simps [of B m flags it] nx by (simp add: lp r Some)
      qed
    qed (simp_all add: rhs nxt validate_loop.simps [of B m flags it])
  qed (auto simp: entries_next_def check_from_def split: if_splits)
qed

section \<open>Indices as numbers\<close>

text \<open>The number of bytes that an entry of a level maps.\<close>

definition level_bytes :: "nat \<Rightarrow> nat" where
  "level_bytes l = 2 ^ (9 * l + 12)"

lemma level_bytes_pos [simp]: "0 < level_bytes l"
  by (simp add: level_bytes_def)

lemma level_bytes_Suc: "level_bytes (Suc l) = 512 * level_bytes l"
  by (simp add: level_bytes_def power_add)

lemma level_bytes_3: "level_bytes 3 = 2 ^ 39"
  by (simp add: level_bytes_def)

lemma mask_9: "(0x1ff :: usize) = mask 9"
  by (simp add: mask_eq_exp_minus_1)

lemma unat_drop_small: "n < 64 \<Longrightarrow> unat (drop_bit n (w :: usize)) = unat w div 2 ^ n"
  by (simp add: drop_bit_eq_div unat_div unat_power_two)

lemma unat_take_small: "n < 64 \<Longrightarrow> unat (take_bit n (w :: usize)) = unat w mod 2 ^ n"
  by (simp add: take_bit_eq_mod unat_mod unat_power_two)

lemma level_idx_nat:
  assumes "l \<le> 2"
  shows "level_idx va l = Ok (of_nat (unat va div level_bytes l mod 512))"
proof -
  have "unat (drop_bit (9 * l + 12) va AND mask 9) = unat va div level_bytes l mod 512"
    using assms unat_drop_small [of "9 * l + 12" va] unat_take_small [of 9 "drop_bit (9 * l + 12) va"]
    by (simp add: level_bytes_def flip: take_bit_eq_mask)
  then have "drop_bit (9 * l + 12) va AND mask 9 = of_nat (unat va div level_bytes l mod 512)"
    by (metis of_nat_unat ucast_id)
  then show ?thesis
    using assms by (simp only: level_idx_def PAGE_SHIFT_def mask_9) simp
qed

lemma level_idx_unat:
  assumes "l \<le> 2" and "level_idx va l = Ok i"
  shows "unat i = unat va div level_bytes l mod 512" and "unat i < 512"
proof -
  have "i = of_nat (unat va div level_bytes l mod 512)" using assms by (simp add: level_idx_nat)
  moreover have "unat va div level_bytes l mod 512 < 512" by simp
  ultimately show "unat i = unat va div level_bytes l mod 512" "unat i < 512"
    by (simp_all add: unat_of_nat_small)
qed

lemma with_level_idx_nat:
  assumes l: "l \<le> 2" and i: "unat idx < 512" and al: "level_bytes (Suc l) dvd unat base"
    and b: "unat base < 2 ^ 39"
  shows "\<exists>va. with_level_idx base l idx = Ok va \<and> unat va = unat base + unat idx * level_bytes l"
proof -
  let ?s = "9 * l + 12"
  have "take_bit (?s + 9) base = 0"
  proof -
    have "unat (take_bit (?s + 9) base) = unat base mod 2 ^ (?s + 9)"
      using l by (intro unat_take_small) simp
    also have "2 ^ (?s + 9) = level_bytes (Suc l)" by (simp add: level_bytes_def ac_simps)
    finally show ?thesis using al by (simp add: unat_zero_iff dvd_eq_mod_eq_0)
  qed
  then have low: "\<not> bit base n" if "n < ?s + 9" for n
    using that bit_take_bit_iff [of "?s + 9" base n] by simp
  have idx: "\<not> bit idx n" if "9 \<le> n" for n
  proof -
    have "take_bit 9 idx = idx"
      using i unat_take_small [of 9 idx] by (simp add: word_unat_eq_iff)
    then show ?thesis using that bit_take_bit_iff [of 9 idx n] by (metis not_less)
  qed
  have "base AND NOT (push_bit ?s 0x1ff) = base"
    using low by (intro bit_word_eqI) (auto simp: mask_9 bit_simps)
  moreover have "base AND push_bit ?s idx = 0"
  proof (rule bit_word_eqI)
    fix n
    show "bit (base AND push_bit ?s idx) n = bit 0 n"
      using low [of n] idx [of "n - ?s"] by (cases "n < ?s + 9") (auto simp: bit_simps)
  qed
  then have "base OR push_bit ?s idx = base + push_bit ?s idx"
    by (simp add: disjunctive_add_eq_or)
  moreover have "unat idx * level_bytes l < 2 ^ 39"
  proof -
    have "unat idx * level_bytes l < 512 * level_bytes l" using i by simp
    also have "\<dots> = level_bytes (Suc l)" by (simp only: level_bytes_Suc)
    also have "\<dots> \<le> 2 ^ 39" using l unfolding level_bytes_def by (intro power_increasing) simp_all
    finally show ?thesis .
  qed
  then have "unat (push_bit ?s idx) = unat idx * level_bytes l"
    using l by (simp add: push_bit_eq_mult unat_word_ariths unat_power_two level_bytes_def)
  moreover have "unat idx * level_bytes l + unat base < 2 ^ 64"
    using b \<open>unat idx * level_bytes l < 2 ^ 39\<close> by simp
  ultimately have "unat (base AND NOT (push_bit ?s 0x1ff) OR push_bit ?s idx) = unat base + unat idx * level_bytes l"
    by (simp add: unat_word_ariths)
  moreover have "idx < 512" using i by (simp add: word_less_nat_alt)
  ultimately show ?thesis
    using l by (simp add: with_level_idx_def PAGE_SHIFT_def Let_def)
qed

section \<open>The entries that a range touches\<close>

definition touched :: "nat \<Rightarrow> nat \<Rightarrow> nat \<Rightarrow> nat \<Rightarrow> nat \<Rightarrow> bool" where
  "touched lo hi p base i \<longleftrightarrow> i < 512 \<and> base + i * p \<le> hi \<and> lo < base + (i + 1) * p"

lemma index_in_table:
  assumes "512 * p dvd base" and "base \<le> x" and "x < base + 512 * p" and "0 < (p::nat)"
  shows "x div p mod 512 = (x - base) div p" and "(x - base) div p < 512"
proof -
  obtain q where q: "base = 512 * p * q" using assms(1) by (rule dvdE)
  obtain y where y: "x = base + y" using le_Suc_ex [OF assms(2)] ..
  have "y < 512 * p" using y assms(3) by linarith
  then have lt: "y div p < 512" by (rule less_mult_imp_div_less)
  have "x = y + p * (512 * q)" using y q by simp
  then have d: "x div p = 512 * q + y div p" using assms(4) by simp
  have e: "x - base = y" using y by simp
  show "x div p mod 512 = (x - base) div p" unfolding d e using lt by simp
  show "(x - base) div p < 512" unfolding e by (rule lt)
qed

lemma div_le_iff: "0 < p \<Longrightarrow> (x :: nat) div p \<le> i \<longleftrightarrow> x < (i + 1) * p"
  using div_less_iff_less_mult [of p x "i + 1"] by linarith

lemma le_div_iff: "0 < p \<Longrightarrow> i \<le> (x :: nat) div p \<longleftrightarrow> i * p \<le> x"
  by (simp add: less_eq_div_iff_mult_less_eq)

text \<open>The indices between that of the larger start and that of the smaller end are those touched.\<close>

lemma touched_range:
  assumes al: "512 * p dvd base" and p: "0 < p" and le: "lo \<le> hi"
    and ov: "lo < base + 512 * p" "base \<le> hi"
  shows "touched lo hi p base i \<longleftrightarrow>
    max lo base div p mod 512 \<le> i \<and> i \<le> min hi (base + 511 * p) div p mod 512"
    and "max lo base div p mod 512 \<le> min hi (base + 511 * p) div p mod 512"
proof -
  have ps: "base + 511 * p < base + 512 * p" using p by simp
  have a: "max lo base div p mod 512 = (max lo base - base) div p" "(max lo base - base) div p < 512"
    using index_in_table [OF al, of "max lo base"] ov p by simp_all
  have b: "min hi (base + 511 * p) div p mod 512 = (min hi (base + 511 * p) - base) div p"
      "(min hi (base + 511 * p) - base) div p < 512"
    using index_in_table [OF al, of "min hi (base + 511 * p)"] ov p by simp_all
  have c: "(max lo base - base) div p \<le> i \<longleftrightarrow> lo < base + (i + 1) * p" for i
    using p by (auto simp: div_le_iff max_def)
  have d: "i \<le> (min hi (base + 511 * p) - base) div p \<longleftrightarrow> i \<le> 511 \<and> base + i * p \<le> hi" for i
  proof -
    have eq: "i * p \<le> 511 * p \<longleftrightarrow> i \<le> 511" using p by simp
    have "i * p \<le> min hi (base + 511 * p) - base \<longleftrightarrow> i * p \<le> 511 * p \<and> base + i * p \<le> hi"
      using ov(2) by linarith
    then show ?thesis using p by (simp only: le_div_iff eq)
  qed
  show "touched lo hi p base i \<longleftrightarrow>
      max lo base div p mod 512 \<le> i \<and> i \<le> min hi (base + 511 * p) div p mod 512"
    unfolding a(1) b(1) c d touched_def by auto
  have "(max lo base - base) div p \<le> (min hi (base + 511 * p) - base) div p"
  proof (cases "base + 511 * p \<le> hi")
    case True
    then have "(min hi (base + 511 * p) - base) div p = 511" using p by (simp add: min_def)
    then show ?thesis using a(2) by simp
  next
    case False
    then show ?thesis using le ov(2) by (intro div_le_mono diff_le_mono) (simp add: min_def max_def)
  qed
  then show "max lo base div p mod 512 \<le> min hi (base + 511 * p) div p mod 512"
    unfolding a(1) b(1) .
qed

definition frame_covers :: "virt_addr \<Rightarrow> virt_addr \<Rightarrow> nat \<Rightarrow> virt_addr \<Rightarrow> usize list \<Rightarrow> bool" where
  "frame_covers min_va max_va l base idxs \<longleftrightarrow>
     set idxs = {i. touched (unat min_va) (unat max_va) (level_bytes l) (unat base) (unat i)}"

lemma index_range_covers:
  assumes "lo \<le> hi" and "hi < 512"
  shows "\<exists>is. index_range (of_nat lo) (of_nat hi) = Ok is \<and> set is = {i. lo \<le> unat i \<and> unat i \<le> hi}"
proof -
  have n: "unat (of_nat lo :: usize) = lo" "unat (of_nat hi :: usize) = hi"
    using assms by (simp_all add: unat_of_nat_small)
  have "of_nat ` {lo..<hi + 1} = {i :: usize. lo \<le> unat i \<and> unat i \<le> hi}"
  proof (intro set_eqI iffI)
    fix i :: usize assume "i \<in> {i. lo \<le> unat i \<and> unat i \<le> hi}"
    then have "i = of_nat (unat i)" "unat i \<in> {lo..<hi + 1}" by auto
    then show "i \<in> of_nat ` {lo..<hi + 1}" by blast
  next
    fix i :: usize assume "i \<in> of_nat ` {lo..<hi + 1}"
    then show "i \<in> {i. lo \<le> unat i \<and> unat i \<le> hi}" using assms by (auto simp: unat_of_nat_small)
  qed
  then show ?thesis using assms n by (simp add: index_range_def del: upt_Suc)
qed

lemma root_frame_covers:
  assumes "unat min_va \<le> unat max_va" and "unat max_va < 2 ^ 39"
  shows "\<exists>is. root_frame pt min_va max_va = Ok (2, 0, pt, is) \<and> frame_covers min_va max_va 2 0 is"
proof -
  let ?p = "level_bytes 2" and ?lo = "unat min_va" and ?hi = "unat max_va"
  have sz: "512 * ?p = 2 ^ 39" using level_bytes_Suc [of 2] level_bytes_3 by simp
  then have lt: "?lo div ?p < 512" "?hi div ?p < 512"
    using assms by (intro less_mult_imp_div_less; simp)+
  have le: "?lo div ?p \<le> ?hi div ?p" using assms(1) by (rule div_le_mono)
  obtain ix where ix: "index_range (of_nat (?lo div ?p)) (of_nat (?hi div ?p)) = Ok ix"
      "set ix = {i. ?lo div ?p \<le> unat i \<and> unat i \<le> ?hi div ?p}"
    using index_range_covers [OF le lt(2)] by blast
  have "touched ?lo ?hi ?p 0 i \<longleftrightarrow> ?lo div ?p \<le> i \<and> i \<le> ?hi div ?p" for i
    using lt div_le_iff [OF level_bytes_pos, of ?lo 2 i] le_div_iff [OF level_bytes_pos, of i ?hi 2]
    by (auto simp: touched_def simp del: mult_Suc add_Suc_right)
  then have "frame_covers min_va max_va 2 0 ix" by (simp add: frame_covers_def ix(2))
  moreover have "root_frame pt min_va max_va = Ok (2, 0, pt, ix)"
    using ix(1) lt by (simp add: root_frame_def level_idx_nat VA_ZERO_def)
  ultimately show ?thesis by blast
qed

text \<open>A table of a level at an address of the virtual address space.\<close>

definition table_at :: "nat \<Rightarrow> virt_addr \<Rightarrow> bool" where
  "table_at l base \<longleftrightarrow> l \<le> 2 \<and> level_bytes (Suc l) dvd unat base \<and> unat base + level_bytes (Suc l) \<le> 2 ^ 39"

lemma sub_table_at:
  assumes "table_at (Suc l) base" and "unat b = unat base + unat idx * level_bytes (Suc l)" and "unat idx < 512"
  shows "table_at l b"
proof -
  have "level_bytes (Suc l) dvd unat base"
    using assms(1) by (auto simp: table_at_def level_bytes_Suc [of "Suc l"] dvd_mult_right)
  moreover have "unat idx * level_bytes (Suc l) + level_bytes (Suc l) \<le> level_bytes (Suc (Suc l))"
    using assms(3) unfolding level_bytes_Suc [of "Suc l"] by (metis add.commute mult_Suc mult_le_mono1 Suc_leI)
  ultimately show ?thesis
    using assms by (simp add: table_at_def)
qed

lemma get_page_table_ok:
  "pte_is_non_leaf B e \<Longrightarrow> pte_phys_addr e \<noteq> 0 \<Longrightarrow> get_page_table B e = Ok (Some (pte_phys_addr e))"
  by (simp add: get_page_table_def as_non_null_def)

lemma sub_frame_covers:
  assumes t: "table_at (Suc l) base" and le: "unat min_va \<le> unat max_va"
    and tc: "touched (unat min_va) (unat max_va) (level_bytes (Suc l)) (unat base) (unat idx)"
    and e: "pte_is_non_leaf B (pte_read m (pt_slot pt idx))" "pte_phys_addr (pte_read m (pt_slot pt idx)) \<noteq> 0"
  shows "\<exists>b is. sub_frame B m min_va max_va l base pt idx =
      Ok (l, b, pte_phys_addr (pte_read m (pt_slot pt idx)), is) \<and>
    unat b = unat base + unat idx * level_bytes (Suc l) \<and> table_at l b \<and> frame_covers min_va max_va l b is"
proof -
  let ?p = "level_bytes l"
  have i: "unat idx < 512" using tc by (simp add: touched_def)
  have l: "Suc l \<le> 2" "l \<le> 2" using t by (simp_all add: table_at_def)
  have "unat base < 2 ^ 39" using t level_bytes_pos [of "Suc (Suc l)"] unfolding table_at_def by linarith
  then obtain b where b: "with_level_idx base (Suc l) idx = Ok b" "unat b = unat base + unat idx * level_bytes (Suc l)"
    using with_level_idx_nat [OF l(1) i] t by (auto simp: table_at_def)
  have tb: "table_at l b" by (rule sub_table_at [OF t b(2) i])
  then have al: "level_bytes (Suc l) dvd unat b" "unat b < 2 ^ 39"
    using level_bytes_pos [of "Suc l"] unfolding table_at_def by linarith+
  then have al': "512 * ?p dvd unat b" by (simp only: level_bytes_Suc)
  obtain b0 where b0: "with_level_idx b l 0 = Ok b0" "unat b0 = unat b"
    using with_level_idx_nat [OF l(2) _ al, of 0] by auto
  then have b0b: "b0 = b" by (simp add: word_unat_eq_iff)
  obtain b5 where b5: "with_level_idx b l 511 = Ok b5" "unat b5 = unat b + 511 * ?p"
    using with_level_idx_nat [OF l(2) _ al, of 511] by auto
  have i0: "level_idx b l = Ok 0"
  proof -
    have "unat b div ?p mod 512 = 0"
      using index_in_table(1) [OF al', of "unat b"] by simp
    then show ?thesis by (simp add: level_idx_nat [OF l(2)])
  qed
  have ov: "unat min_va < unat b + 512 * ?p" "unat b \<le> unat max_va"
    using tc b(2) by (simp_all add: touched_def level_bytes_Suc algebra_simps)
  note tr = touched_range [OF al' level_bytes_pos le ov]
  let ?lo = "max (unat min_va) (unat b) div ?p mod 512" and ?hi = "min (unat max_va) (unat b + 511 * ?p) div ?p mod 512"
  have "level_idx (max min_va b0) l = Ok (of_nat ?lo)" "level_idx (min max_va b5) l = Ok (of_nat ?hi)"
    by (simp_all add: level_idx_nat [OF l(2)] b0b b5(2)[symmetric] max_def min_def word_le_nat_alt)
  moreover obtain ix where ix: "index_range (of_nat ?lo) (of_nat ?hi) = Ok ix"
      "set ix = {i. ?lo \<le> unat i \<and> unat i \<le> ?hi}"
    using index_range_covers [OF tr(2)] by auto
  moreover have "frame_covers min_va max_va l b ix"
    by (simp add: frame_covers_def ix(2) tr(1))
  ultimately show ?thesis
    using b b0 b5(1) i0 tb e by (simp add: sub_frame_def b0b get_page_table_ok)
qed

section \<open>Well-formed tables\<close>

text \<open>Below every table entry there is a table, down to level 0, whose entries are leaves or invalid.\<close>

primrec pt_wf :: "nat \<Rightarrow> flag_fns \<Rightarrow> memory \<Rightarrow> phys_addr \<Rightarrow> bool" where
  "pt_wf 0 B m pt \<longleftrightarrow> (\<forall>i < 512. \<not> pte_is_non_leaf B (pte_read m (pt_slot pt (of_nat i))))"
| "pt_wf (Suc l) B m pt \<longleftrightarrow>
     (\<forall>i < 512. let e = pte_read m (pt_slot pt (of_nat i)) in
        pte_is_non_leaf B e \<longrightarrow> pte_phys_addr e \<noteq> 0 \<and> pt_wf l B m (pte_phys_addr e))"

definition access_ok :: "flag_fns \<Rightarrow> usize \<Rightarrow> pte \<Rightarrow> bool" where
  "access_ok B flags e \<longleftrightarrow>
     fl_contains B (if fl_contains B (pte_flags e) PT_C then fl_union B (pte_flags e) PT_W else pte_flags e) flags"

definition leaf_ok :: "flag_fns \<Rightarrow> memory \<Rightarrow> usize \<Rightarrow> (nat \<times> usize, kernel_error) outcome \<Rightarrow> bool" where
  "leaf_ok B m flags r \<longleftrightarrow> (\<exists>l slot. r = Ok (l, slot) \<and> access_ok B flags (pte_read m slot))"

lemma leaf_ok_simps [simp]:
  "leaf_ok B m flags (Ok (l, slot)) = access_ok B flags (pte_read m slot)" "\<not> leaf_ok B m flags (Err e)"
  by (simp_all add: leaf_ok_def)

lemma pt_wfD:
  assumes "pt_wf l B m pt" and "unat idx < 512" and "pte_is_non_leaf B (pte_read m (pt_slot pt idx))"
  shows "\<exists>k. l = Suc k \<and> pte_phys_addr (pte_read m (pt_slot pt idx)) \<noteq> 0 \<and>
    pt_wf k B m (pte_phys_addr (pte_read m (pt_slot pt idx)))"
proof -
  have "idx = of_nat (unat idx)" by simp
  then show ?thesis using assms by (cases l) (metis pt_wf.simps)+
qed

text \<open>The walk from a table, for an address that its entry \<open>idx\<close> maps.\<close>

definition sub_range :: "nat \<Rightarrow> virt_addr \<Rightarrow> usize \<Rightarrow> virt_addr \<Rightarrow> bool" where
  "sub_range l base idx va \<longleftrightarrow>
     unat base + unat idx * level_bytes l \<le> unat va \<and> unat va < unat base + (unat idx + 1) * level_bytes l"

lemma sub_range_idx:
  assumes t: "table_at l base" and "unat idx < 512" and "sub_range l base idx va"
  shows "level_idx va l = Ok idx"
proof -
  let ?p = "level_bytes l"
  have al: "512 * ?p dvd unat base" using t by (simp add: table_at_def level_bytes_Suc)
  have "(unat idx + 1) * ?p \<le> 512 * ?p" using assms(2) by (intro mult_le_mono1) simp
  then have "unat va < unat base + 512 * ?p" "unat base \<le> unat va"
    using assms(3) unfolding sub_range_def by linarith+
  note i = index_in_table(1) [OF al this(2,1) level_bytes_pos]
  have "(unat va - unat base) div ?p = unat idx"
    using assms(3) unfolding sub_range_def
    by (intro div_nat_eqI; simp add: algebra_simps; linarith)
  then show ?thesis
    using i t by (simp add: level_idx_nat table_at_def)
qed

lemma find_leaf_step:
  assumes "level_idx va l = Ok idx" and "e = pte_read m (pt_slot pt idx)"
  shows "\<not> pte_is_valid B e \<Longrightarrow> find_leaf_from l B m pt va = Err (VirtualPageNotMapped va)"
    and "pte_is_leaf B e \<Longrightarrow> find_leaf_from l B m pt va = Ok (l, pt_slot pt idx)"
    and "pte_is_non_leaf B e \<Longrightarrow> pte_phys_addr e \<noteq> 0 \<Longrightarrow> l = Suc k \<Longrightarrow>
      find_leaf_from l B m pt va = find_leaf_from k B m (pte_phys_addr e) va"
  using assms by (cases l; simp add: Let_def pte_is_leaf_def pte_is_non_leaf_def get_page_table_ok)+

lemma touched_nonempty:
  assumes "touched (unat min_va) (unat max_va) (level_bytes l) (unat base) (unat idx)"
    and le: "unat min_va \<le> unat max_va" and t: "table_at l base"
  shows "\<exists>va. sub_range l base idx va \<and> min_va \<le> va \<and> va \<le> max_va"
proof -
  let ?b = "unat base + unat idx * level_bytes l"
  have "?b < 2 ^ 64"
    using assms(1) unat_lt_width [of max_va] unfolding touched_def by simp
  then have b: "unat (of_nat ?b :: usize) = ?b" by (intro unat_of_nat_small) simp
  have "sub_range l base idx (max min_va (of_nat ?b)) \<and> min_va \<le> max min_va (of_nat ?b) \<and>
      max min_va (of_nat ?b) \<le> max_va"
    using assms(1) le b by (auto simp: sub_range_def touched_def max_def word_le_nat_alt algebra_simps)
  then show ?thesis by blast
qed

lemma sub_range_cover:
  assumes "frame_covers min_va max_va k c ix" and "unat c \<le> unat va" and "unat va < unat c + 512 * level_bytes k"
    and "min_va \<le> va" and "va \<le> max_va"
  shows "\<exists>j \<in> set ix. sub_range k c j va"
proof -
  let ?p = "level_bytes k"
  define i where "i = (unat va - unat c) div ?p"
  have lt: "i < 512" using assms(2,3) unfolding i_def by (intro less_mult_imp_div_less) simp
  have "i * ?p \<le> unat va - unat c" "unat va - unat c < (i + 1) * ?p"
    unfolding i_def using le_div_iff [of ?p "(unat va - unat c) div ?p" "unat va - unat c"]
      div_le_iff [of ?p "unat va - unat c" "(unat va - unat c) div ?p"] by simp_all
  then have r: "unat c + i * ?p \<le> unat va" "unat va < unat c + (i + 1) * ?p"
    using assms(2) by linarith+
  have u: "unat (of_nat i :: usize) = i" using lt by (intro unat_of_nat_small) simp
  have "touched (unat min_va) (unat max_va) ?p (unat c) (unat (of_nat i :: usize))"
    using r lt assms(4,5) unfolding touched_def u word_le_nat_alt by linarith
  then show ?thesis
    using assms(1) r by (intro bexI [of _ "of_nat i"]) (simp_all add: frame_covers_def sub_range_def u)
qed

lemma sub_range_inside:
  assumes "touched lo hi (level_bytes k) (unat c) (unat j)" and "sub_range k c j va"
  shows "unat c \<le> unat va \<and> unat va < unat c + 512 * level_bytes k"
proof -
  have "(unat j + 1) * level_bytes k \<le> 512 * level_bytes k"
    using assms(1) by (intro mult_le_mono1) (simp add: touched_def)
  then show ?thesis using assms(2) unfolding sub_range_def by linarith
qed

lemma check_cover:
  assumes cov: "frame_covers min_va max_va k c ix"
    and each: "\<And>j. j \<in> set ix \<Longrightarrow> f j \<noteq> Panic \<and>
      (f j = Ok () \<longleftrightarrow> (\<forall>va. sub_range k c j va \<and> min_va \<le> va \<and> va \<le> max_va \<longrightarrow> P va))"
  shows "oforeach f ix \<noteq> Panic \<and>
    (oforeach f ix = Ok () \<longleftrightarrow> (\<forall>va. unat c \<le> unat va \<and> unat va < unat c + 512 * level_bytes k \<and>
       min_va \<le> va \<and> va \<le> max_va \<longrightarrow> P va))"
proof (intro conjI iffI allI impI)
  show "oforeach f ix \<noteq> Panic" by (rule oforeach_no_Panic) (use each in blast)
next
  fix va
  assume ok: "oforeach f ix = Ok ()"
    and va: "unat c \<le> unat va \<and> unat va < unat c + 512 * level_bytes k \<and> min_va \<le> va \<and> va \<le> max_va"
  then obtain j where "j \<in> set ix" "sub_range k c j va"
    using sub_range_cover [OF cov, of va] by blast
  then show "P va" using each [of j] ok va unfolding oforeach_Ok by blast
next
  assume all: "\<forall>va. unat c \<le> unat va \<and> unat va < unat c + 512 * level_bytes k \<and>
    min_va \<le> va \<and> va \<le> max_va \<longrightarrow> P va"
  have "f j = Ok ()" if j: "j \<in> set ix" for j
  proof -
    have "touched (unat min_va) (unat max_va) (level_bytes k) (unat c) (unat j)"
      using cov j by (simp add: frame_covers_def)
    then have "P va" if "sub_range k c j va" "min_va \<le> va" "va \<le> max_va" for va
      using all that sub_range_inside by blast
    then show ?thesis using each [OF j] by blast
  qed
  then show "oforeach f ix = Ok ()" unfolding oforeach_Ok by blast
qed

lemma check_frame:
  assumes "pt_wf l B m pt" and "table_at l base" and "unat min_va \<le> unat max_va"
    and "touched (unat min_va) (unat max_va) (level_bytes l) (unat base) (unat idx)"
  shows "check_entry l B m flags min_va max_va base pt idx \<noteq> Panic \<and>
    (check_entry l B m flags min_va max_va base pt idx = Ok () \<longleftrightarrow>
      (\<forall>va. sub_range l base idx va \<and> min_va \<le> va \<and> va \<le> max_va \<longrightarrow>
         leaf_ok B m flags (find_leaf_from l B m pt va)))"
  using assms
proof (induction l arbitrary: pt base idx rule: less_induct)
  case (less l)
  let ?e = "pte_read m (pt_slot pt idx)"
  have i: "unat idx < 512" using less.prems(4) by (simp add: touched_def)
  have l: "l \<le> 2" "level_bytes (Suc l) dvd unat base" "unat base < 2 ^ 39"
    using less.prems(2) level_bytes_pos [of "Suc l"] unfolding table_at_def by linarith+
  obtain b where b: "with_level_idx base l idx = Ok b" using with_level_idx_nat [OF l(1) i l(2,3)] by blast
  note lx = sub_range_idx [OF less.prems(2) i]
  obtain v0 where v0: "sub_range l base idx v0" "min_va \<le> v0" "v0 \<le> max_va"
    using touched_nonempty [OF less.prems(4,3,2)] by blast
  consider "\<not> pte_is_valid B ?e" | "pte_is_leaf B ?e" | "pte_is_non_leaf B ?e"
    by (auto simp: pte_is_non_leaf_def)
  then show ?case
  proof cases
    case 1
    then have "find_leaf_from l B m pt v0 = Err (VirtualPageNotMapped v0)"
      using find_leaf_step(1) [OF lx [OF v0(1)] refl] by simp
    then show ?thesis using 1 b v0 by (auto simp: check_entry_invalid)
  next
    case 2
    then have "find_leaf_from l B m pt va = Ok (l, pt_slot pt idx)" if "sub_range l base idx va" for va
      using find_leaf_step(2) [OF lx [OF that] refl] by simp
    moreover have "validate_entry B m flags (l, b, pt_slot pt idx) =
        (if access_ok B flags ?e then Ok () else Err (InaccessiblePage b))"
      using 2 by (simp add: validate_entry_def access_ok_def pte_is_leaf_def Let_def)
    ultimately show ?thesis
      using v0 by (auto simp: check_entry_leaf [OF 2 b])
  next
    case 3
    then obtain k where k: "l = Suc k" "pte_phys_addr ?e \<noteq> 0" "pt_wf k B m (pte_phys_addr ?e)"
      using pt_wfD [OF less.prems(1) i] by blast
    obtain c ix where f: "sub_frame B m min_va max_va k base pt idx = Ok (k, c, pte_phys_addr ?e, ix)"
        "unat c = unat base + unat idx * level_bytes l" "table_at k c" "frame_covers min_va max_va k c ix"
      using sub_frame_covers [of k base min_va max_va idx B m pt] less.prems 3 k by auto
    have ix: "touched (unat min_va) (unat max_va) (level_bytes k) (unat c) (unat j)" if "j \<in> set ix" for j
      using that f(4) by (simp add: frame_covers_def)
    note IH = less.IH [OF _ k(3) f(3) less.prems(3) ix, of _, unfolded k(1), OF lessI]
    have ve: "validate_entry B m flags (l, b, pt_slot pt idx) = Ok ()" and nl: "\<not> pte_is_leaf B ?e"
      using 3 by (auto simp: validate_entry_def pte_is_non_leaf_def)
    have chk: "check_entry l B m flags min_va max_va base pt idx =
        oforeach (check_entry k B m flags min_va max_va c (pte_phys_addr ?e)) ix"
      using b ve nl f(1) by (simp add: k(1))
    have sub: "sub_range l base idx va \<longleftrightarrow> unat c \<le> unat va \<and> unat va < unat c + 512 * level_bytes k" for va
      by (simp add: sub_range_def f(2) k(1) level_bytes_Suc algebra_simps)
    have walk: "find_leaf_from l B m pt va = find_leaf_from k B m (pte_phys_addr ?e) va" if "sub_range l base idx va" for va
      using find_leaf_step(3) [OF lx [OF that] refl 3 k(2,1)] .
    have "oforeach (check_entry k B m flags min_va max_va c (pte_phys_addr ?e)) ix \<noteq> Panic \<and>
        (oforeach (check_entry k B m flags min_va max_va c (pte_phys_addr ?e)) ix = Ok () \<longleftrightarrow>
          (\<forall>va. unat c \<le> unat va \<and> unat va < unat c + 512 * level_bytes k \<and> min_va \<le> va \<and> va \<le> max_va \<longrightarrow>
             leaf_ok B m flags (find_leaf_from k B m (pte_phys_addr ?e) va)))"
      by (rule check_cover [OF f(4) IH])
    then show ?thesis unfolding chk using sub walk by auto
  qed
qed

lemma va_range_excluded:
  assumes "fin \<le> VA_MAX"
  shows "va_range_inclusive (Included start) (Excluded fin) = (if start < fin then Some (start, fin - 1) else None)"
proof (cases "fin = 0")
  case True
  then show ?thesis by (simp add: va_range_inclusive_def va_byte_sub_def checked_sub_def)
next
  case False
  then have "1 \<le> unat fin" by (simp add: unat_gt_0 Suc_leI)
  then have "unat (fin - 1) = unat fin - 1" by (simp add: unat_sub word_le_nat_alt)
  then have "va_byte_sub fin 1 = Ok (fin - 1)" and "fin - 1 < start \<longleftrightarrow> \<not> start < fin"
    using assms \<open>1 \<le> unat fin\<close>
    by (auto simp: va_byte_sub_def checked_sub_def va_new_def word_less_nat_alt word_le_nat_alt)
  then show ?thesis by (simp add: va_range_inclusive_def)
qed

lemma pt_validate_iff:
  assumes wf: "pt_wf 2 B m pt" and fin: "fin \<le> VA_MAX"
  shows "pt_validate B m pt (Included start) (Excluded fin) flags \<noteq> Panic \<and>
    (pt_validate B m pt (Included start) (Excluded fin) flags = Ok () \<longleftrightarrow>
      (\<forall>va. start \<le> va \<and> va < fin \<longrightarrow> leaf_ok B m flags (find_leaf_entry B m pt va)))"
proof (cases "start < fin")
  case False
  then show ?thesis
    by (auto simp: pt_validate_def entries_new_def va_range_excluded [OF fin])
next
  case True
  have f: "unat fin \<le> 2 ^ 38" using fin by (simp add: word_le_nat_alt)
  have u: "unat (fin - 1) = unat fin - 1"
    using True by (simp add: unat_sub word_le_nat_alt word_less_nat_alt)
  then have le: "unat start \<le> unat (fin - 1)" and lt: "unat (fin - 1) < 2 ^ 39"
    using True f by (simp_all add: word_less_nat_alt)
  obtain ix where ix: "root_frame pt start (fin - 1) = Ok (2, 0, pt, ix)" "frame_covers start (fin - 1) 2 0 ix"
    using root_frame_covers [OF le lt] by blast
  have t: "table_at 2 0" using level_bytes_3 by (simp add: table_at_def numeral_3_eq_3 numeral_2_eq_2)
  have eq: "pt_validate B m pt (Included start) (Excluded fin) flags =
      oforeach (check_entry 2 B m flags start (fin - 1) 0 pt) ix"
    using True ix(1)
    by (simp add: pt_validate_def entries_new_def va_range_excluded [OF fin] validate_loop_check check_from_def
        check_stack_def del: validate_loop.simps)
  have "oforeach (check_entry 2 B m flags start (fin - 1) 0 pt) ix \<noteq> Panic \<and>
      (oforeach (check_entry 2 B m flags start (fin - 1) 0 pt) ix = Ok () \<longleftrightarrow>
        (\<forall>va. unat (0 :: usize) \<le> unat va \<and> unat va < unat (0 :: usize) + 512 * level_bytes 2 \<and> start \<le> va \<and> va \<le> fin - 1 \<longrightarrow>
           leaf_ok B m flags (find_leaf_from 2 B m pt va)))"
  proof (rule check_cover [OF ix(2)])
    fix j assume "j \<in> set ix"
    then have "touched (unat start) (unat (fin - 1)) (level_bytes 2) (unat (0 :: usize)) (unat j)"
      using ix(2) by (simp add: frame_covers_def)
    then show "check_entry 2 B m flags start (fin - 1) 0 pt j \<noteq> Panic \<and>
        (check_entry 2 B m flags start (fin - 1) 0 pt j = Ok () \<longleftrightarrow>
          (\<forall>va. sub_range 2 0 j va \<and> start \<le> va \<and> va \<le> fin - 1 \<longrightarrow>
             leaf_ok B m flags (find_leaf_from 2 B m pt va)))"
      by (rule check_frame [OF wf t le])
  qed
  moreover have "va \<le> fin - 1 \<longleftrightarrow> va < fin" "va < fin \<Longrightarrow> unat va < 512 * level_bytes 2" for va
    using True u f by (auto simp: word_le_nat_alt word_less_nat_alt level_bytes_def)
  ultimately show ?thesis unfolding eq find_leaf_entry_def by auto
qed

section \<open>Translation\<close>

definition va_to_pa :: "flag_fns \<Rightarrow> memory \<Rightarrow> phys_addr \<Rightarrow> virt_addr \<Rightarrow> phys_addr" where
  "va_to_pa B m pt va =
     (case find_leaf_entry B m pt va of
        Ok (l, slot) \<Rightarrow> pte_phys_addr (pte_read m slot) + of_nat (unat va mod level_bytes l)
      | _ \<Rightarrow> 0)"

lemma find_leaf_from_leaf:
  "find_leaf_from l B m pt va = Ok (k, slot) \<Longrightarrow> k \<le> l \<and> pte_is_leaf B (pte_read m slot)"
proof (induction l arbitrary: pt)
  case 0
  then show ?case by (auto simp: Let_def split: if_splits)
next
  case (Suc l)
  then show ?case by (fastforce simp: Let_def split: if_splits)
qed

lemma div_level_bytes:
  assumes "k \<le> l" and "x div level_bytes k = y div level_bytes k"
  shows "x div level_bytes l = y div level_bytes l"
proof -
  have "level_bytes l = level_bytes k * 2 ^ (9 * (l - k))"
    using assms(1) by (simp add: level_bytes_def flip: power_add)
  then show ?thesis using assms(2) by (simp add: div_mult2_eq)
qed

lemma find_leaf_same_page:
  "find_leaf_from l B m pt va = Ok (k, slot) \<Longrightarrow> l \<le> 2 \<Longrightarrow>
    unat va div level_bytes k = unat va' div level_bytes k \<Longrightarrow> find_leaf_from l B m pt va' = Ok (k, slot)"
proof (induction l arbitrary: pt)
  case 0
  then have "k = 0" using find_leaf_from_leaf by blast
  then have "level_idx va' 0 = level_idx va 0" using 0 by (simp add: level_idx_nat)
  then show ?case using 0 by (auto simp: Let_def split: if_splits)
next
  case (Suc l)
  have "k \<le> Suc l" using find_leaf_from_leaf [OF Suc.prems(1)] by simp
  then have "level_idx va' (Suc l) = level_idx va (Suc l)"
    using div_level_bytes [OF _ Suc.prems(3)] Suc.prems(2) by (simp add: level_idx_nat)
  then show ?case using Suc by (auto simp: Let_def split: if_splits)
qed

lemma level_page_size_bytes:
  assumes "k \<le> 2"
  shows "\<exists>sz. level_page_size k = Ok sz \<and> unat sz = level_bytes k"
proof -
  have "k = 0 \<or> k = 1 \<or> k = 2" using assms by auto
  then show ?thesis by (auto simp: level_page_size_def PAGE_SIZE_def level_bytes_def push_bit_eq_mult)
qed

lemma fetch_chunk_leaf:
  assumes f: "find_leaf_entry B m pt va = Ok (k, slot)" and fl: "fl_contains B (pte_flags (pte_read m slot)) flags"
  shows "\<exists>len. fetch_chunk B m pt va flags = Ok (va_to_pa B m pt va, len) \<and>
    unat len = level_bytes k - unat va mod level_bytes k"
proof -
  have k: "k \<le> 2" "pte_is_leaf B (pte_read m slot)"
    using find_leaf_from_leaf f unfolding find_leaf_entry_def by blast+
  obtain sz where sz: "level_page_size k = (Ok sz :: (usize, kernel_error) outcome)" "unat sz = level_bytes k"
    using level_page_size_bytes [OF k(1)] by blast
  have md: "unat (va mod sz) = unat va mod level_bytes k" by (simp add: unat_mod sz(2))
  then have off: "va mod sz = of_nat (unat va mod level_bytes k)" by (metis of_nat_unat ucast_id)
  have "unat va mod level_bytes k < level_bytes k" by simp
  then have "unat (sz - va mod sz) = level_bytes k - unat va mod level_bytes k"
    using md sz(2) by (simp add: unat_sub word_le_nat_alt)
  then show ?thesis
    using f fl k(2) sz(1) off
    by (simp add: fetch_chunk_def page_rest_def get_page_bytes_def va_to_pa_def pte_is_leaf_def Let_def)
qed

lemma div_mod_inside:
  assumes "a mod p + i < (p :: nat)"
  shows "(a + i) div p = a div p" and "(a + i) mod p = a mod p + i"
proof -
  have "i < p" using assms by simp
  then have "i div p = 0" "i mod p = i" by simp_all
  moreover have "(a + i) div p = a div p + i div p + (a mod p + i mod p) div p" by (rule div_add1_eq)
  ultimately show "(a + i) div p = a div p" using assms by simp
  have "(a + i) mod p = (a mod p + i) mod p" by (rule mod_add_left_eq [symmetric])
  then show "(a + i) mod p = a mod p + i" using assms by simp
qed

lemma va_to_pa_same_page:
  assumes f: "find_leaf_entry B m pt va = Ok (k, slot)" and i: "i < level_bytes k - unat va mod level_bytes k"
    and fit: "unat va + i < 2 ^ 64"
  shows "va_to_pa B m pt (va + of_nat i) = va_to_pa B m pt va + of_nat i"
proof -
  let ?p = "level_bytes k" and ?o = "unat va mod level_bytes k"
  have "unat (of_nat i :: usize) = i" using fit by (intro unat_of_nat_small) simp
  then have u: "unat (va + of_nat i) = unat va + i" using fit by (simp add: unat_add_small)
  have "?o + i < ?p" using i by simp
  note d = div_mod_inside(1) [OF this] and md = div_mod_inside(2) [OF this]
  have "find_leaf_entry B m pt (va + of_nat i) = Ok (k, slot)"
    using f unfolding find_leaf_entry_def by (rule find_leaf_same_page) (simp_all add: u d)
  then show ?thesis
    using f by (simp add: va_to_pa_def u md)
qed

section \<open>Copies from validated memory\<close>

text \<open>A range of user memory that may be read: what \<^verbatim>\<open>validate_user_read\<close> has checked.\<close>

definition readable :: "flag_fns \<Rightarrow> memory \<Rightarrow> phys_addr \<Rightarrow> virt_addr \<Rightarrow> virt_addr \<Rightarrow> bool" where
  "readable B m pt start fin \<longleftrightarrow> (\<forall>va. start \<le> va \<and> va < fin \<longrightarrow>
     (\<exists>k slot. find_leaf_entry B m pt va = Ok (k, slot) \<and> fl_contains B (pte_flags (pte_read m slot)) PT_UR))"

lemma access_ok_read:
  assumes "flags_ok B"
  shows "access_ok B PT_UR e \<longleftrightarrow> fl_contains B (pte_flags e) PT_UR"
proof -
  have "(f OR PT_W) AND PT_UR = PT_UR \<longleftrightarrow> f AND PT_UR = PT_UR" for f :: usize
  proof -
    have "PT_W AND PT_UR = 0" by (simp add: pt_flag_defs)
    then show ?thesis by (simp add: bit.conj_disj_distrib2)
  qed
  then show ?thesis by (simp add: access_ok_def flags_okD [OF assms])
qed

lemma map_upt_split:
  "n \<le> k \<Longrightarrow> map f [0..<k] = map f [0..<n] @ map (\<lambda>i. f (n + i)) [0..<k - n]"
  by (rule nth_equalityI) (auto simp: nth_append)

text \<open>One turn of the loop copies what is left of a page.\<close>

lemma u2k_step:
  assumes rd: "readable B m pt start fin" and fin: "fin \<le> VA_MAX" and True: "start < fin"
    and len: "length dst = unat fin - unat start"
  shows "\<exists>n. 0 < n \<and> n \<le> length dst \<and> unat (start + of_nat n) = unat start + n \<and>
    u2k_loop B m pt start fin acc dst = u2k_loop B m pt (start + of_nat n) fin
      (acc @ map (\<lambda>i. m (va_to_pa B m pt (start + of_nat i))) [0..<n]) (drop n dst)"
proof -
  obtain k slot where f: "find_leaf_entry B m pt start = Ok (k, slot)"
      "fl_contains B (pte_flags (pte_read m slot)) PT_UR"
    using rd True unfolding readable_def by blast
  obtain cl where c: "fetch_chunk B m pt start PT_UR = Ok (va_to_pa B m pt start, cl)"
      "unat cl = level_bytes k - unat start mod level_bytes k"
    using fetch_chunk_leaf [OF f] by blast
  define n where "n = min (length dst) (unat cl)"
  have f38: "unat fin \<le> 2 ^ 38" using fin by (simp add: word_le_nat_alt)
  have lt: "unat start < unat fin" using True by (simp add: word_less_nat_alt)
  have "0 < unat cl" using c(2) by simp
  then have n: "0 < n" "n \<le> length dst" "n \<le> unat cl" "unat start + n \<le> 2 ^ 38"
    using len lt f38 by (auto simp: n_def)
  have un: "unat (of_nat n :: usize) = n" using n(4) by (intro unat_of_nat_small) simp
  have us: "unat (start + of_nat n) = unat start + n"
    using n(4) by (subst unat_add_small) (simp_all add: un)
  have add: "va_byte_add start (of_nat n) = Ok (start + of_nat n)"
    using n(4) by (simp add: va_byte_add_Ok un)
  have "m (va_to_pa B m pt start + of_nat i) = m (va_to_pa B m pt (start + of_nat i))" if "i < n" for i
  proof -
    have "i < level_bytes k - unat start mod level_bytes k" using that n(3) c(2) by linarith
    moreover have "unat start + i < 2 ^ 64" using that n(4) by simp
    ultimately show ?thesis using va_to_pa_same_page [OF f(1)] by simp
  qed
  then have rd': "mem_read m (va_to_pa B m pt start) n = map (\<lambda>i. m (va_to_pa B m pt (start + of_nat i))) [0..<n]"
    by (simp add: mem_read_def)
  have "u2k_loop B m pt start fin acc dst =
      u2k_loop B m pt (start + of_nat n) fin (acc @ mem_read m (va_to_pa B m pt start) n) (drop n dst)"
    using True c(1) add by (subst u2k_loop.simps) (simp add: n_def [symmetric] Let_def)
  then show ?thesis using n(1,2) us rd' by (intro exI [of _ n]) simp
qed

lemma u2k_loop_readable:
  assumes "readable B m pt start fin" and "fin \<le> VA_MAX" and "start \<le> fin"
    and "length dst = unat fin - unat start"
  shows "u2k_loop B m pt start fin acc dst =
    Some (Ok (fin, acc @ map (\<lambda>i. m (va_to_pa B m pt (start + of_nat i))) [0..<length dst]))"
  using assms
proof (induction "length dst" arbitrary: start acc dst rule: less_induct)
  case less
  show ?case
  proof (cases "start < fin")
    case False
    then have "start = fin" using less.prems(3) by simp
    then show ?thesis using less.prems(4) by (simp add: u2k_loop.simps [of B m pt fin fin])
  next
    case True
    obtain n where n: "0 < n" "n \<le> length dst" "unat (start + of_nat n) = unat start + n"
        and step: "u2k_loop B m pt start fin acc dst = u2k_loop B m pt (start + of_nat n) fin
          (acc @ map (\<lambda>i. m (va_to_pa B m pt (start + of_nat i))) [0..<n]) (drop n dst)"
      using u2k_step [OF less.prems(1,2) True less.prems(4)] by blast
    have "readable B m pt (start + of_nat n) fin"
      using less.prems(1) n(3) by (auto simp: readable_def word_le_nat_alt)
    then have "u2k_loop B m pt start fin acc dst =
        Some (Ok (fin, (acc @ map (\<lambda>i. m (va_to_pa B m pt (start + of_nat i))) [0..<n]) @
          map (\<lambda>i. m (va_to_pa B m pt (start + of_nat n + of_nat i))) [0..<length (drop n dst)]))"
      unfolding step using n less.prems(2,4) by (intro less.hyps) (simp_all add: word_le_nat_alt)
    then show ?thesis
      by (simp add: map_upt_split [OF n(2)] add.assoc)
  qed
qed

section \<open>An example\<close>

text \<open>Tables at 0x10000, 0x11000 and 0x12000 that map the one page at 0x5000 to 0x20000, readable by the user.\<close>

lemma aligned_slot:
  assumes "unat (a :: usize) mod 8 = 0"
  shows "unat a + 8 \<le> 2 ^ 64"
proof -
  obtain k where k: "unat a = 8 * k" by (rule dvdE [OF mod_0_imp_dvd [OF assms]])
  then have "8 * k < 8 * 2 ^ 61" using unat_lt_width [of a] by simp
  then have "k + 1 \<le> 2 ^ 61" by simp
  then show ?thesis using k by simp
qed

lemma pte_read_write:
  assumes "unat (a :: usize) mod 8 = 0" and "unat b mod 8 = 0"
  shows "pte_read (mem_write m a (le_bytes (e :: usize))) b = (if b = a then e else pte_read m b)"
proof (cases "b = a")
  case True
  then show ?thesis by (simp add: pte_read_def mem_read_write_same le_word_le_bytes)
next
  case False
  then have "unat a \<noteq> unat b" by (simp add: word_unat_eq_iff)
  moreover obtain j where "unat a = 8 * j" by (rule dvdE [OF mod_0_imp_dvd [OF assms(1)]])
  moreover obtain k where "unat b = 8 * k" by (rule dvdE [OF mod_0_imp_dvd [OF assms(2)]])
  ultimately have "unat a + 8 \<le> unat b \<or> unat b + 8 \<le> unat a" by auto
  then have "apart a 8 b 8" using aligned_slot assms by (intro apart_blocks) auto
  then show ?thesis using False by (simp add: pte_read_def mem_read_write_apart)
qed

definition example_mem :: memory where
  "example_mem =
     mem_write (mem_write (mem_write (\<lambda>_. 0) 0x10000 (le_bytes (0x4401 :: usize))) 0x11000 (le_bytes (0x4801 :: usize)))
       0x12028 (le_bytes (0x8013 :: usize))"

lemma example_read:
  "unat b mod 8 = 0 \<Longrightarrow> pte_read example_mem b =
     (if b = 0x12028 then 0x8013 else if b = 0x11000 then 0x4801 else if b = 0x10000 then 0x4401 else 0)"
proof -
  have "le_word (replicate n 0) = (0 :: usize)" for n by (induction n) simp_all
  then have "pte_read (\<lambda>_. 0) b = 0" by (simp add: pte_read_def mem_read_def map_replicate_const)
  then show "unat b mod 8 = 0 \<Longrightarrow> ?thesis" by (simp add: example_mem_def pte_read_write)
qed

lemma unat_pt_slot:
  "i < 512 \<Longrightarrow> unat pt + 4096 \<le> 2 ^ 64 \<Longrightarrow> unat (pt_slot pt (of_nat i)) = unat pt + 8 * i"
  by (simp add: pt_slot_def unat_word_ariths unat_of_nat_small)

lemma example_table:
  assumes "i < 512"
  shows "pte_read example_mem (pt_slot 0x10000 (of_nat i)) = (if i = 0 then 0x4401 else 0)"
    and "pte_read example_mem (pt_slot 0x11000 (of_nat i)) = (if i = 0 then 0x4801 else 0)"
    and "pte_read example_mem (pt_slot 0x12000 (of_nat i)) = (if i = 5 then 0x8013 else 0)"
  using assms by (auto simp: example_read unat_pt_slot word_unat_eq_iff)

lemma example_pte:
  "\<not> pte_is_valid flags_ref 0" "pte_is_non_leaf flags_ref 0x4401" "pte_is_non_leaf flags_ref 0x4801"
  "pte_is_leaf flags_ref 0x8013" "pte_phys_addr 0x4401 = 0x11000" "pte_phys_addr 0x4801 = 0x12000"
  by (simp_all add: pte_is_non_leaf_def pte_is_leaf_def pte_is_valid_def flags_ref_def pte_flags_def FLAGS_MASK_def
      pt_flag_defs pte_phys_addr_def pte_phys_page_num_def ppn_phys_addr_def PAGE_SHIFT_def)

lemma example_wf: "pt_wf 2 flags_ref example_mem 0x10000"
proof -
  have "pt_wf 0 flags_ref example_mem 0x12000"
    using example_pte by (auto simp: example_table Let_def pte_is_non_leaf_def pte_is_leaf_def)
  then have "pt_wf (Suc 0) flags_ref example_mem 0x11000"
    using example_pte by (auto simp: example_table Let_def pte_is_non_leaf_def pte_is_leaf_def)
  then have "pt_wf (Suc (Suc 0)) flags_ref example_mem 0x10000"
    using example_pte by (auto simp: example_table Let_def pte_is_non_leaf_def pte_is_leaf_def simp del: pt_wf.simps(1))
  then show ?thesis by (simp only: numeral_2_eq_2)
qed

definition mapped_upt :: user_page_table where
  "mapped_upt = example_upt\<lparr>upt_pt := 0x10000\<rparr>"

lemma example_leaf:
  assumes "0x5000 \<le> va" and "va < 0x6000"
  shows "find_leaf_entry flags_ref example_mem 0x10000 va = Ok (0, 0x12028) \<and>
    access_ok flags_ref PT_UR (pte_read example_mem 0x12028)"
proof -
  have "level_idx 0x5000 (Suc (Suc 0)) = Ok (of_nat 0)" "level_idx 0x5000 (Suc 0) = Ok (of_nat 0)" "level_idx 0x5000 0 = Ok (of_nat 5)"
    by (simp_all add: level_idx_nat level_bytes_def)
  then have "find_leaf_from (Suc (Suc 0)) flags_ref example_mem 0x10000 0x5000 = Ok (0, 0x12028)"
    using example_pte example_table [of 0] example_table [of 5]
    by (simp add: Let_def pte_is_non_leaf_def pte_is_leaf_def pt_slot_def get_page_table_def as_non_null_def require_def)
  moreover have "unat va div level_bytes 0 = 5"
    using assms by (simp add: level_bytes_def word_le_nat_alt word_less_nat_alt)
  ultimately have "find_leaf_from (Suc (Suc 0)) flags_ref example_mem 0x10000 va = Ok (0, 0x12028)"
    using find_leaf_same_page [of "Suc (Suc 0)" flags_ref example_mem "0x10000" "0x5000" 0 "0x12028" va]
    by (simp add: level_bytes_def del: find_leaf_from.simps)
  moreover have "access_ok flags_ref PT_UR (pte_read example_mem 0x12028)"
    by (simp add: example_read access_ok_def flags_ref_def pte_flags_def FLAGS_MASK_def pt_flag_defs)
  ultimately show ?thesis by (simp only: find_leaf_entry_def numeral_2_eq_2 simp_thms)
qed

section \<open>Properties\<close>

text \<open>
  C7. On a well-formed page table, validation of a range of addresses that ends at or below the greatest virtual address
  terminates without a panic. When the range starts at or before its end, it succeeds exactly when every address of
  the range is mapped by a leaf with the required flags (a copy-on-write page counts as writable). When the range is reversed,
  it succeeds whatever is mapped, where the documentation of the function says that it panics.
\<close>

theorem validate_exact:
  assumes "pt_wf 2 B m (upt_pt up)" and "fin \<le> VA_MAX"
  shows "upt_validate B m up start fin flags \<noteq> Panic \<and>
    (if start \<le> fin
     then upt_validate B m up start fin flags = Ok () \<longleftrightarrow>
      (\<forall>va. start \<le> va \<and> va < fin \<longrightarrow>
        (\<exists>l slot. find_leaf_entry B m (upt_pt up) va = Ok (l, slot) \<and> access_ok B flags (pte_read m slot)))
     else upt_validate B m up start fin flags = Ok ())"
  using pt_validate_iff [OF assms] by (auto simp: upt_validate_def leaf_ok_def)

theorem validate_exact_witness:
  "upt_validate flags_ref example_mem mapped_upt 0x5800 0x6000 PT_UR = Ok ()"
proof -
  have "pt_wf 2 flags_ref example_mem (upt_pt mapped_upt)" by (simp add: mapped_upt_def example_wf)
  moreover have "\<exists>l slot. find_leaf_entry flags_ref example_mem (upt_pt mapped_upt) va = Ok (l, slot) \<and>
      access_ok flags_ref PT_UR (pte_read example_mem slot)" if "0x5800 \<le> va" "va < 0x6000" for va
    using example_leaf [of va] that by (auto simp: mapped_upt_def word_le_nat_alt)
  ultimately show ?thesis
    using validate_exact [of flags_ref example_mem mapped_upt "0x6000" "0x5800" PT_UR]
    by (simp add: VA_MAX_def PAGE_SHIFT_def)
qed

text \<open>
  C15. A byte slice that was validated for reading is copied into the kernel without a panic and without
  an endless loop, and the bytes are those at the physical addresses the page table translates the
  slice's addresses to, in order, also across page boundaries.
\<close>

theorem copy_u2k_validated:
  assumes "flags_ok B" and "pt_wf 2 B m (upt_pt up)" and "validate_slice B m up 1 s = Ok s"
    and "length dst = unat (slice_len s)"
  shows "copy_u2k_bytes B m up dst s =
    Some (Ok (map (\<lambda>i. m (va_to_pa B m (upt_pt up) (slice_addr s + of_nat i))) [0..<length dst]))"
proof -
  obtain start fin where r: "slice_va_range 1 s = Ok (start, fin)" and v: "validate_user_read B m up (start, fin) = Ok ()"
    using assms(3) by (auto simp: validate_slice_def)
  then have st: "start = slice_addr s" "unat start + unat (slice_len s) \<le> 2 ^ 38" "fin = start + slice_len s"
    by (auto simp: slice_va_range_def va_range_of_def slice_size_def checked_mul_def va_new_Ok va_byte_add_Ok
        split: if_splits)
  have uf: "unat fin = unat start + unat (slice_len s)"
    using st by (simp add: unat_add_small)
  then have fin: "fin \<le> VA_MAX" "start \<le> fin" using st by (simp_all add: word_le_nat_alt)
  have "readable B m (upt_pt up) start fin"
    using pt_validate_iff [OF assms(2) fin(1)] v access_ok_read [OF assms(1)]
    by (auto simp: readable_def validate_user_read_def upt_validate_def leaf_ok_def)
  then have "u2k_loop B m (upt_pt up) start fin [] dst =
      Some (Ok (fin, [] @ map (\<lambda>i. m (va_to_pa B m (upt_pt up) (start + of_nat i))) [0..<length dst]))"
    using fin assms(4) uf by (intro u2k_loop_readable) simp_all
  then show ?thesis
    using r assms(4) st(1) by (simp add: copy_u2k_bytes_def)
qed

theorem copy_u2k_validated_witness:
  "copy_u2k_bytes flags_ref example_mem mapped_upt [9, 9] \<lparr>slice_addr = 0x5FFE, slice_len = 2\<rparr> =
    Some (Ok (map (\<lambda>i. example_mem (va_to_pa flags_ref example_mem 0x10000 (0x5FFE + of_nat i))) [0..<2]))"
proof -
  let ?s = "\<lparr>slice_addr = 0x5FFE, slice_len = 2\<rparr>"
  have wf: "pt_wf 2 flags_ref example_mem (upt_pt mapped_upt)" by (simp add: mapped_upt_def example_wf)
  have "leaf_ok flags_ref example_mem PT_UR (find_leaf_entry flags_ref example_mem (upt_pt mapped_upt) va)"
    if "0x5FFE \<le> va" "va < 0x6000" for va
    using example_leaf [of va] that by (auto simp: mapped_upt_def word_le_nat_alt)
  then have "upt_validate flags_ref example_mem mapped_upt 0x5FFE 0x6000 PT_UR = Ok ()"
    using pt_validate_iff [OF wf, of "0x6000" "0x5FFE" PT_UR] by (simp add: VA_MAX_def PAGE_SHIFT_def upt_validate_def)
  then have "validate_slice flags_ref example_mem mapped_upt 1 ?s = Ok ?s"
    by (simp add: validate_slice_def slice_va_range_def slice_size_def checked_mul_def va_range_of_def va_new_def
        va_byte_add_def checked_add_def VA_MAX_def PAGE_SHIFT_def validate_user_read_def)
  then have "copy_u2k_bytes flags_ref example_mem mapped_upt [9, 9] ?s = Some (Ok (map (\<lambda>i. example_mem
      (va_to_pa flags_ref example_mem (upt_pt mapped_upt) (slice_addr ?s + of_nat i))) [0..<length [9, 9 :: u8]]))"
    by (intro copy_u2k_validated flags_ref_ok wf) simp_all
  then show ?thesis by (simp add: mapped_upt_def numeral_2_eq_2)
qed

end
