(* ===== verification/Lru.thy ===== *)
theory Lru
  imports Prelude "HOL-Library.Multiset" "HOL-Library.Sublist"
begin

text \<open>
  The least recently used cache of \<^verbatim>\<open>crates/kernel/lru/src/lib.rs\<close>. The list of a map holds keys and
  reference-counted values; a value is named by a number, and the state has its strong count and its
  content. A handle is an \<^verbatim>\<open>LruValue\<close>. The mutex around the map makes each operation one step.
\<close>

section \<open>The map\<close>

type_synonym 'k lru_entry = "'k option \<times> nat"

record ('k, 'v) lru_map =
  lru_list :: "'k lru_entry list"
  lru_strong :: "nat \<Rightarrow> nat"
  lru_vals :: "nat \<Rightarrow> 'v"

record 'k lru_value =
  lv_key :: 'k
  lv_arc :: nat

definition lru_new :: "'v \<Rightarrow> nat \<Rightarrow> (('k, 'v) lru_map, 'e) outcome" where
  "lru_new dflt sz =
     obind (require (0 < sz)) (\<lambda>_.
     Ok \<lparr>lru_list = map (\<lambda>a. (None, a)) [0..<sz], lru_strong = (\<lambda>a. if a < sz then 1 else 0), lru_vals = (\<lambda>_. dflt)\<rparr>)"

text \<open>\<^verbatim>\<open>Arc::clone\<close>, and the drop of an \<^verbatim>\<open>Arc\<close>.\<close>

definition arc_clone :: "nat \<Rightarrow> ('k, 'v) lru_map \<Rightarrow> ('k, 'v) lru_map" where
  "arc_clone a s = s\<lparr>lru_strong := (lru_strong s)(a := lru_strong s a + 1)\<rparr>"

definition arc_drop :: "nat \<Rightarrow> ('k, 'v) lru_map \<Rightarrow> ('k, 'v) lru_map" where
  "arc_drop a s = s\<lparr>lru_strong := (lru_strong s)(a := lru_strong s a - 1)\<rparr>"

text \<open>The search for a value that only the map references, in the order of the given list.\<close>

primrec recycle :: "(nat \<Rightarrow> nat) \<Rightarrow> 'k \<Rightarrow> 'k lru_entry list \<Rightarrow> (nat \<times> 'k lru_entry list) option" where
  "recycle strong key [] = None"
| "recycle strong key (e # l) =
     (if strong (snd e) = 1 then Some (snd e, (Some key, snd e) # l)
      else map_option (\<lambda>(a, l'). (a, e # l')) (recycle strong key l))"

definition lru_get :: "'k \<Rightarrow> ('k, 'v) lru_map \<Rightarrow> 'k lru_value option \<times> ('k, 'v) lru_map" where
  "lru_get key s =
     (case find (\<lambda>e. fst e = Some key) (lru_list s) of
        Some (_, a) \<Rightarrow> (Some \<lparr>lv_key = key, lv_arc = a\<rparr>, arc_clone a s)
      | None \<Rightarrow>
          (case recycle (lru_strong s) key (rev (lru_list s)) of
             Some (a, l) \<Rightarrow> (Some \<lparr>lv_key = key, lv_arc = a\<rparr>, arc_clone a (s\<lparr>lru_list := rev l\<rparr>))
           | None \<Rightarrow> (None, s)))"

text \<open>The first entry with the key, taken out of the list.\<close>

primrec extract_key :: "'k \<Rightarrow> 'k lru_entry list \<Rightarrow> ('k lru_entry \<times> 'k lru_entry list) option" where
  "extract_key key [] = None"
| "extract_key key (e # l) =
     (if fst e = Some key then Some (e, l) else map_option (\<lambda>(e', l'). (e', e # l')) (extract_key key l))"

definition lru_promote :: "'k \<Rightarrow> ('k, 'v) lru_map \<Rightarrow> ('k, 'v) lru_map" where
  "lru_promote key s =
     (case extract_key key (lru_list s) of
        Some (e, l) \<Rightarrow> s\<lparr>lru_list := e # l\<rparr>
      | None \<Rightarrow> s)"

section \<open>Handles\<close>

definition lru_drop :: "'k lru_value \<Rightarrow> ('k, 'v) lru_map \<Rightarrow> ('k, 'v) lru_map" where
  "lru_drop v s = arc_drop (lv_arc v) (lru_promote (lv_key v) s)"

definition lru_clone :: "'k lru_value \<Rightarrow> ('k, 'v) lru_map \<Rightarrow> 'k lru_value \<times> ('k, 'v) lru_map" where
  "lru_clone v s = (\<lparr>lv_key = lv_key v, lv_arc = lv_arc v\<rparr>, arc_clone (lv_arc v) s)"

definition lru_value :: "'k lru_value \<Rightarrow> ('k, 'v) lru_map \<Rightarrow> 'v" where
  "lru_value v s = lru_vals s (lv_arc v)"

text \<open>A write through a handle, for values with interior mutability.\<close>

definition lru_put :: "'k lru_value \<Rightarrow> 'v \<Rightarrow> ('k, 'v) lru_map \<Rightarrow> ('k, 'v) lru_map" where
  "lru_put v x s = s\<lparr>lru_vals := (lru_vals s)(lv_arc v := x)\<rparr>"

section \<open>The list operations\<close>

lemma recycle_None: "recycle strong key l = None \<longleftrightarrow> (\<forall>e \<in> set l. strong (snd e) \<noteq> 1)"
  by (induction l) auto

lemma recycle_SomeD:
  "recycle strong key l = Some (a, l') \<Longrightarrow>
    \<exists>xs k ys. l = xs @ (k, a) # ys \<and> l' = xs @ (Some key, a) # ys \<and> strong a = 1 \<and> (\<forall>e \<in> set xs. strong (snd e) \<noteq> 1)"
proof (induction l arbitrary: l')
  case (Cons e l)
  show ?case
  proof (cases "strong (snd e) = 1")
    case True
    then show ?thesis using Cons.prems by (cases e) (auto intro!: exI [of _ "[]"])
  next
    case False
    then obtain m where m: "recycle strong key l = Some (a, m)" "l' = e # m" using Cons.prems by auto
    obtain xs k ys where "l = xs @ (k, a) # ys" "m = xs @ (Some key, a) # ys" "strong a = 1" "\<forall>e \<in> set xs. strong (snd e) \<noteq> 1"
      using Cons.IH [OF m(1)] by blast
    then show ?thesis using m(2) False by (intro exI [of _ "e # xs"] exI [of _ k] exI [of _ ys]) simp
  qed
qed simp

lemma extract_key_None: "extract_key key l = None \<longleftrightarrow> (\<forall>e \<in> set l. fst e \<noteq> Some key)"
  by (induction l) auto

lemma extract_key_SomeD:
  "extract_key key l = Some (e, l') \<Longrightarrow>
    \<exists>xs ys. l = xs @ e # ys \<and> l' = xs @ ys \<and> fst e = Some key \<and> (\<forall>e \<in> set xs. fst e \<noteq> Some key)"
proof (induction l arbitrary: l')
  case (Cons x l)
  show ?case
  proof (cases "fst x = Some key")
    case True
    then have "x # l = [] @ e # l' \<and> l' = [] @ l' \<and> fst e = Some key \<and> (\<forall>e \<in> set []. fst e \<noteq> Some key)"
      using Cons.prems by simp
    then show ?thesis by blast
  next
    case False
    then obtain m where m: "extract_key key l = Some (e, m)" "l' = x # m" using Cons.prems by auto
    obtain xs ys where "l = xs @ e # ys" "m = xs @ ys" "fst e = Some key" "\<forall>e \<in> set xs. fst e \<noteq> Some key"
      using Cons.IH [OF m(1)] by blast
    then show ?thesis using m(2) False by (intro exI [of _ "x # xs"] exI [of _ ys]) simp
  qed
qed simp

section \<open>The invariant\<close>

text \<open>
  With \<open>n\<close> values and the given live handles: every value is in the list once, no key is there twice,
  a strong count is the number of the handles plus the map's own, and a handle's key is that of its value.
\<close>

definition lru_ok :: "nat \<Rightarrow> 'k lru_value multiset \<Rightarrow> ('k, 'v) lru_map \<Rightarrow> bool" where
  "lru_ok n live s \<longleftrightarrow>
     distinct (map snd (lru_list s)) \<and> set (map snd (lru_list s)) = {..<n} \<and>
     (\<forall>k a b. (Some k, a) \<in> set (lru_list s) \<longrightarrow> (Some k, b) \<in> set (lru_list s) \<longrightarrow> a = b) \<and>
     (\<forall>a < n. lru_strong s a = Suc (size {#v \<in># live. lv_arc v = a#})) \<and>
     (\<forall>v \<in># live. (Some (lv_key v), lv_arc v) \<in> set (lru_list s))"

lemma lru_okD:
  assumes "lru_ok n live s"
  shows "distinct (map snd (lru_list s))" and "set (map snd (lru_list s)) = {..<n}"
    and "\<And>k a b. (Some k, a) \<in> set (lru_list s) \<Longrightarrow> (Some k, b) \<in> set (lru_list s) \<Longrightarrow> a = b"
    and "\<And>a. a < n \<Longrightarrow> lru_strong s a = Suc (size {#v \<in># live. lv_arc v = a#})"
    and "\<And>v. v \<in># live \<Longrightarrow> (Some (lv_key v), lv_arc v) \<in> set (lru_list s)"
  using assms by (auto simp: lru_ok_def)

lemma lru_ok_arc:
  assumes "lru_ok n live s" and "(k, a) \<in> set (lru_list s)"
  shows "a < n" and "(k', a) \<in> set (lru_list s) \<Longrightarrow> k' = k"
proof -
  show "a < n" using lru_okD(2) [OF assms(1)] assms(2) by force
  show "k' = k" if "(k', a) \<in> set (lru_list s)"
    using lru_okD(1) [OF assms(1)] assms(2) that by (auto simp: distinct_map dest: inj_onD [where x = "(k', a)" and y = "(k, a)"])
qed

lemma lru_find:
  assumes "lru_ok n live s"
  shows "find (\<lambda>e. fst e = Some key) (lru_list s) = Some e \<longleftrightarrow> fst e = Some key \<and> e \<in> set (lru_list s)"
proof
  assume "find (\<lambda>e. fst e = Some key) (lru_list s) = Some e"
  then show "fst e = Some key \<and> e \<in> set (lru_list s)" by (auto simp: find_Some_iff)
next
  assume e: "fst e = Some key \<and> e \<in> set (lru_list s)"
  then obtain e' where f: "find (\<lambda>e. fst e = Some key) (lru_list s) = Some e'"
    by (cases "find (\<lambda>e. fst e = Some key) (lru_list s)") (auto simp: find_None_iff, metis prod.collapse)
  then have "fst e' = Some key" "e' \<in> set (lru_list s)" by (auto simp: find_Some_iff)
  then have "e' = e" using e lru_okD(3) [OF assms, of key "snd e'" "snd e"] by (cases e; cases e') simp
  then show "find (\<lambda>e. fst e = Some key) (lru_list s) = Some e" using f by simp
qed

lemma lru_new_ok: "lru_new x n = Ok s \<Longrightarrow> lru_ok n {#} s"
  by (force simp: lru_new_def lru_ok_def comp_def image_image)

lemma arc_clone_ok:
  assumes ok: "lru_ok n live s" and e: "(Some key, a) \<in> set (lru_list s)"
  shows "lru_ok n (add_mset \<lparr>lv_key = key, lv_arc = a\<rparr> live) (arc_clone a s)"
  using lru_okD [OF ok] e by (auto simp: lru_ok_def arc_clone_def)

lemma lru_clone_ok:
  assumes "lru_ok n live s" and "v \<in># live"
  shows "lru_ok n (add_mset (fst (lru_clone v s)) live) (snd (lru_clone v s))"
  using assms lru_okD(5) [OF assms] by (simp add: lru_clone_def arc_clone_ok)

lemma lru_hit:
  assumes "lru_ok n live s" and "(Some key, a) \<in> set (lru_list s)"
  shows "lru_get key s = (Some \<lparr>lv_key = key, lv_arc = a\<rparr>, arc_clone a s)"
  using lru_find [OF assms(1), of key "(Some key, a)"] assms(2) by (simp add: lru_get_def)

text \<open>A value that is recycled gets the new key in its place.\<close>

lemma lru_miss:
  assumes ok: "lru_ok n live s" and miss: "\<And>a. (Some key, a) \<notin> set (lru_list s)"
    and got: "lru_get key s = (Some v, s')"
  obtains xs k a ys where "lru_list s = xs @ (k, a) # ys" "lru_strong s a = 1" "\<forall>e \<in> set ys. lru_strong s (snd e) \<noteq> 1"
    "v = \<lparr>lv_key = key, lv_arc = a\<rparr>" "s' = arc_clone a (s\<lparr>lru_list := xs @ (Some key, a) # ys\<rparr>)"
proof -
  have "find (\<lambda>e. fst e = Some key) (lru_list s) = None" using miss by (force simp: find_None_iff)
  then obtain a l where r: "recycle (lru_strong s) key (rev (lru_list s)) = Some (a, l)"
      "v = \<lparr>lv_key = key, lv_arc = a\<rparr>" "s' = arc_clone a (s\<lparr>lru_list := rev l\<rparr>)"
    using got by (auto simp: lru_get_def split: option.splits)
  obtain xs k ys where "rev (lru_list s) = xs @ (k, a) # ys" "l = xs @ (Some key, a) # ys" "lru_strong s a = 1"
      "\<forall>e \<in> set xs. lru_strong s (snd e) \<noteq> 1"
    using recycle_SomeD [OF r(1)] by blast
  then show thesis using that [of "rev ys" k a "rev xs"] r by (simp add: rev_swap)
qed

lemma lru_unreferenced:
  assumes "lru_ok n live s" and "(k, a) \<in> set (lru_list s)"
  shows "lru_strong s a = 1 \<longleftrightarrow> (\<forall>v \<in># live. lv_arc v \<noteq> a)"
proof -
  have "lru_strong s a = 1 \<longleftrightarrow> {#v \<in># live. lv_arc v = a#} = {#}"
    using lru_okD(4) [OF assms(1) lru_ok_arc(1) [OF assms]] by simp
  then show ?thesis by (auto simp: filter_mset_eq_mempty_iff)
qed

lemma lru_ok_rekey:
  assumes ok: "lru_ok n live s" and l: "lru_list s = xs @ (k, a) # ys"
    and fr: "\<forall>v \<in># live. lv_arc v \<noteq> a" and miss: "\<And>b. (Some key, b) \<notin> set (lru_list s)"
  shows "lru_ok n live (s\<lparr>lru_list := xs @ (Some key, a) # ys\<rparr>)"
proof -
  let ?t = "s\<lparr>lru_list := xs @ (Some key, a) # ys\<rparr>"
  have eq: "map snd (lru_list ?t) = map snd (lru_list s)" by (simp add: l)
  have ks: "(Some k', b) \<in> set (lru_list ?t) \<longleftrightarrow>
      (if k' = key then b = a else (Some k', b) \<in> set (lru_list s) \<and> b \<noteq> a)" for k' b
    using lru_okD(1) [OF ok] miss [of b] l by (cases "b = a") force+
  have "(Some k', b) \<in> set (lru_list ?t) \<Longrightarrow> (Some k', c) \<in> set (lru_list ?t) \<Longrightarrow> b = c" for k' b c
    unfolding ks using lru_okD(3) [OF ok, of k' b c] by (auto split: if_splits)
  moreover have "(Some (lv_key v), lv_arc v) \<in> set (lru_list ?t)" if "v \<in># live" for v
    unfolding ks using lru_okD(5) [OF ok that] fr that miss by auto
  ultimately show ?thesis using lru_okD(1,2,4) [OF ok] eq by (simp add: lru_ok_def)
qed

lemma lru_get_ok:
  assumes ok: "lru_ok n live s" and got: "lru_get key s = (Some v, s')"
  shows "lru_ok n (add_mset v live) s' \<and> lv_key v = key \<and> lru_vals s' = lru_vals s"
proof (cases "\<exists>a. (Some key, a) \<in> set (lru_list s)")
  case True
  then obtain a where a: "(Some key, a) \<in> set (lru_list s)" by blast
  then show ?thesis using lru_hit [OF ok a] arc_clone_ok [OF ok a] got by (auto simp: arc_clone_def)
next
  case False
  then obtain xs k a ys where m: "lru_list s = xs @ (k, a) # ys" "lru_strong s a = 1"
      "v = \<lparr>lv_key = key, lv_arc = a\<rparr>" "s' = arc_clone a (s\<lparr>lru_list := xs @ (Some key, a) # ys\<rparr>)"
    using lru_miss [OF ok _ got] by metis
  have "lru_ok n live (s\<lparr>lru_list := xs @ (Some key, a) # ys\<rparr>)"
    using lru_ok_rekey [OF ok m(1)] lru_unreferenced [OF ok, of k a] m(1,2) False by simp
  from arc_clone_ok [OF this, of key a] show ?thesis using m(3,4) by (simp add: arc_clone_def)
qed

lemma lru_get_None:
  assumes ok: "lru_ok n live s"
  shows "fst (lru_get key s) = None \<longleftrightarrow>
    (\<forall>a. (Some key, a) \<notin> set (lru_list s)) \<and> (\<forall>e \<in> set (lru_list s). \<exists>v \<in># live. lv_arc v = snd e)"
proof -
  have "(\<forall>e \<in> set (lru_list s). lru_strong s (snd e) \<noteq> 1) \<longleftrightarrow> (\<forall>e \<in> set (lru_list s). \<exists>v \<in># live. lv_arc v = snd e)"
    using lru_unreferenced [OF ok] by fastforce
  moreover have "find (\<lambda>e. fst e = Some key) (lru_list s) = None \<longleftrightarrow> (\<forall>a. (Some key, a) \<notin> set (lru_list s))"
    by (force simp: find_None_iff)
  ultimately show ?thesis
    using recycle_None [of "lru_strong s" key "rev (lru_list s)"]
    by (auto simp: lru_get_def split: option.splits)
qed

lemma lru_get_None_state: "fst (lru_get key s) = None \<Longrightarrow> snd (lru_get key s) = s"
  by (auto simp: lru_get_def split: option.splits)

text \<open>Promotion moves the entry of a key to the front.\<close>

lemma lru_promote_eq:
  assumes ok: "lru_ok n live s" and e: "(Some key, a) \<in> set (lru_list s)"
  obtains xs ys where "lru_list s = xs @ (Some key, a) # ys" "lru_promote key s = s\<lparr>lru_list := (Some key, a) # xs @ ys\<rparr>"
proof -
  obtain e' l' where x: "extract_key key (lru_list s) = Some (e', l')"
    using e by (cases "extract_key key (lru_list s)") (auto simp: extract_key_None)
  obtain xs ys where l: "lru_list s = xs @ e' # ys" "l' = xs @ ys" "fst e' = Some key"
    using extract_key_SomeD [OF x] by blast
  then have "e' = (Some key, a)" using lru_okD(3) [OF ok, of key "snd e'" a] e by (cases e') simp
  then show thesis using that l x by (simp add: lru_promote_def)
qed

lemma lru_ok_perm:
  assumes "lru_ok n live s" and "mset l = mset (lru_list s)"
  shows "lru_ok n live (s\<lparr>lru_list := l\<rparr>)"
proof -
  have "distinct (map snd l)" using assms by (metis lru_okD(1) mset_eq_imp_distinct_iff mset_map)
  then show ?thesis using assms(1) mset_eq_setD [OF assms(2)] by (simp add: lru_ok_def)
qed

lemma lru_promote_ok:
  assumes ok: "lru_ok n live s" and e: "(Some key, a) \<in> set (lru_list s)"
  shows "lru_ok n live (lru_promote key s)" and "set (lru_list (lru_promote key s)) = set (lru_list s)"
    and "lru_strong (lru_promote key s) = lru_strong s" and "lru_vals (lru_promote key s) = lru_vals s"
proof -
  obtain xs ys where l: "lru_list s = xs @ (Some key, a) # ys" "lru_promote key s = s\<lparr>lru_list := (Some key, a) # xs @ ys\<rparr>"
    using lru_promote_eq [OF ok e] .
  show "lru_ok n live (lru_promote key s)" using lru_ok_perm [OF ok] l by simp
  show "set (lru_list (lru_promote key s)) = set (lru_list s)" using l by auto
  show "lru_strong (lru_promote key s) = lru_strong s" "lru_vals (lru_promote key s) = lru_vals s" using l by simp_all
qed

lemma arc_drop_ok:
  assumes "lru_ok n (add_mset v live) s"
  shows "lru_ok n live (arc_drop (lv_arc v) s)"
  using assms by (auto simp: lru_ok_def arc_drop_def)

lemma lru_drop_ok:
  assumes "lru_ok n (add_mset v live) s"
  shows "lru_ok n live (lru_drop v s)" and "set (lru_list (lru_drop v s)) = set (lru_list s)"
    and "lru_vals (lru_drop v s) = lru_vals s"
proof -
  have e: "(Some (lv_key v), lv_arc v) \<in> set (lru_list s)" using lru_okD(5) [OF assms] by simp
  show "lru_ok n live (lru_drop v s)"
    unfolding lru_drop_def using arc_drop_ok [OF lru_promote_ok(1) [OF assms e]] .
  show "set (lru_list (lru_drop v s)) = set (lru_list s)" "lru_vals (lru_drop v s) = lru_vals s"
    using lru_promote_ok [OF assms e] by (simp_all add: lru_drop_def arc_drop_def)
qed

lemma lru_put_ok [simp]: "lru_ok n live (lru_put v x s) \<longleftrightarrow> lru_ok n live s"
  by (simp add: lru_ok_def lru_put_def)

section \<open>Runs\<close>

text \<open>The uses of a cache: handles are got, cloned and dropped by their place among the live ones.\<close>

datatype 'k lru_use = Get 'k | Clone nat | Drop nat

fun lru_step :: "'k lru_use \<Rightarrow> 'k lru_value list \<times> ('k, 'v) lru_map \<Rightarrow> 'k lru_value list \<times> ('k, 'v) lru_map" where
  "lru_step (Get key) (hs, s) =
     (case lru_get key s of (Some v, s') \<Rightarrow> (hs @ [v], s') | (None, s') \<Rightarrow> (hs, s'))"
| "lru_step (Clone i) (hs, s) =
     (if i < length hs then let (v, s') = lru_clone (hs ! i) s in (hs @ [v], s') else (hs, s))"
| "lru_step (Drop i) (hs, s) =
     (if i < length hs then (take i hs @ drop (Suc i) hs, lru_drop (hs ! i) s) else (hs, s))"

primrec lru_run :: "'k lru_use list \<Rightarrow> 'k lru_value list \<times> ('k, 'v) lru_map \<Rightarrow> 'k lru_value list \<times> ('k, 'v) lru_map" where
  "lru_run [] c = c"
| "lru_run (u # us) c = lru_run us (lru_step u c)"

definition run_ok :: "nat \<Rightarrow> 'k lru_value list \<times> ('k, 'v) lru_map \<Rightarrow> bool" where
  "run_ok n c \<longleftrightarrow> lru_ok n (mset (fst c)) (snd c)"

lemma mset_take_drop: "i < length xs \<Longrightarrow> mset xs = add_mset (xs ! i) (mset (take i xs @ drop (Suc i) xs))"
  by (metis id_take_nth_drop mset.simps(2) mset_append union_mset_add_mset_right)

lemma lru_step_ok: "run_ok n c \<Longrightarrow> run_ok n (lru_step u c)"
proof (cases c)
  case (Pair hs s)
  assume "run_ok n c"
  then have ok: "lru_ok n (mset hs) s" by (simp add: run_ok_def Pair)
  show ?thesis
  proof (cases u)
    case (Get key)
    then show ?thesis
      using lru_get_ok [OF ok] lru_get_None_state [of key s] ok Pair
      by (cases "lru_get key s"; cases "fst (lru_get key s)") (auto simp: run_ok_def)
  next
    case (Clone i)
    then show ?thesis using lru_clone_ok [OF ok, of "hs ! i"] ok Pair by (auto simp: run_ok_def Let_def split_beta)
  next
    case (Drop i)
    then show ?thesis
      using ok Pair lru_drop_ok(1) [of n "hs ! i" "mset (take i hs @ drop (Suc i) hs)" s] mset_take_drop [of i hs]
      by (auto simp: run_ok_def)
  qed
qed

lemma lru_run_ok: "run_ok n c \<Longrightarrow> run_ok n (lru_run us c)"
  by (induction us arbitrary: c) (simp_all add: lru_step_ok)

section \<open>The order of eviction\<close>

text \<open>The keys by the time of their last drop, the most recent one first.\<close>

definition note_drop :: "'k lru_use \<Rightarrow> 'k lru_value list \<Rightarrow> 'k list \<Rightarrow> 'k list" where
  "note_drop u hs h =
     (case u of Drop i \<Rightarrow> if i < length hs then lv_key (hs ! i) # removeAll (lv_key (hs ! i)) h else h | _ \<Rightarrow> h)"

primrec drops :: "'k lru_use list \<Rightarrow> 'k lru_value list \<times> ('k, 'v) lru_map \<Rightarrow> 'k list \<Rightarrow> 'k list" where
  "drops [] c h = h"
| "drops (u # us) c h = drops us (lru_step u c) (note_drop u (fst c) h)"

abbreviation unreferenced :: "('k, 'v) lru_map \<Rightarrow> 'k lru_entry list" where
  "unreferenced s \<equiv> filter (\<lambda>e. lru_strong s (snd e) = 1) (lru_list s)"

definition in_order :: "'k list \<Rightarrow> ('k, 'v) lru_map \<Rightarrow> bool" where
  "in_order h s \<longleftrightarrow> distinct h \<and> (\<exists>ks m. map fst (unreferenced s) = map Some ks @ replicate m None \<and> subseq ks h)"

lemma keys_split: "map f (xs @ x # ys) = map Some ks @ replicate m None \<Longrightarrow>
    \<exists>ks' m'. map f (xs @ ys) = map Some ks' @ replicate m' None \<and> subseq ks' ks"
proof (induction xs arbitrary: ks)
  case Nil
  show ?case
  proof (cases ks)
    case Nil
    with Nil.prems show ?thesis by (cases m) (auto intro!: exI [of _ "[]"])
  next
    case (Cons k ks')
    with Nil.prems show ?thesis by auto
  qed
next
  case (Cons y xs)
  show ?case
  proof (cases ks)
    case Nil
    then have "map f (y # xs @ x # ys) = replicate m None" using Cons.prems by simp
    then have "\<forall>z \<in> set (y # xs @ ys). f z = None" by (metis (no_types, lifting) Un_iff image_eqI in_set_replicate insertE insertI1 insertI2 list.set(2) list.set_map set_append)
    then have "map f (y # xs @ ys) = map (\<lambda>_. None) (y # xs @ ys)" by (intro map_cong) auto
    then have "map f ((y # xs) @ ys) = map Some [] @ replicate (length (y # xs @ ys)) None" by (simp add: map_replicate_const)
    then show ?thesis using Nil by blast
  next
    case (Cons k ks')
    then have h: "f y = Some k" "map f (xs @ x # ys) = map Some ks' @ replicate m None" using Cons.prems by simp_all
    obtain js m' where "map f (xs @ ys) = map Some js @ replicate m' None" "subseq js ks'" using Cons.IH [OF h(2)] by blast
    then have "map f ((y # xs) @ ys) = map Some (k # js) @ replicate m' None \<and> subseq (k # js) ks" using h(1) Cons by simp
    then show ?thesis by blast
  qed
qed

lemma in_order_subset:
  assumes "in_order h s" and "unreferenced s = xs @ e # ys" and "unreferenced s' = xs @ ys"
  shows "in_order h s'"
  using assms keys_split [of fst xs e ys] unfolding in_order_def by (metis subseq_order.order_trans)

lemma in_order_same: "in_order h s \<Longrightarrow> unreferenced s' = unreferenced s \<Longrightarrow> in_order h s'"
  by (simp add: in_order_def)

lemma filter_upd_in:
  assumes "distinct (map snd l)" and "(k, a) \<in> set l" and "f a = (1 :: nat)" and "c \<noteq> 1"
  obtains xs ys where "filter (\<lambda>e. f (snd e) = 1) l = xs @ (k, a) # ys" "filter (\<lambda>e. (f(a := c)) (snd e) = 1) l = xs @ ys"
proof -
  obtain us vs where l: "l = us @ (k, a) # vs" using assms(2) by (meson split_list)
  then have "a \<notin> snd ` set us" "a \<notin> snd ` set vs" using assms(1) by auto
  then have "filter (\<lambda>e. (f(a := c)) (snd e) = 1) us = filter (\<lambda>e. f (snd e) = 1) us"
      "filter (\<lambda>e. (f(a := c)) (snd e) = 1) vs = filter (\<lambda>e. f (snd e) = 1) vs"
    by (auto intro!: filter_cong)
  then show thesis using that [of "filter (\<lambda>e. f (snd e) = 1) us" "filter (\<lambda>e. f (snd e) = 1) vs"] l assms(3,4) by simp
qed

lemma in_order_clone:
  assumes ok: "lru_ok n live s" and e: "(k, a) \<in> set (lru_list s)" and h: "in_order h s"
  shows "in_order h (arc_clone a s)"
proof (cases "lru_strong s a = 1")
  case True
  obtain xs ys where "unreferenced s = xs @ (k, a) # ys" "unreferenced (arc_clone a s) = xs @ ys"
    using filter_upd_in [OF lru_okD(1) [OF ok] e, of "lru_strong s" "Suc (lru_strong s a)"] True
    by (auto simp: arc_clone_def)
  then show ?thesis using in_order_subset [OF h] by blast
next
  case False
  moreover have "lru_strong s a \<noteq> 0" using lru_okD(4) [OF ok lru_ok_arc(1) [OF ok e]] by simp
  ultimately have "unreferenced (arc_clone a s) = unreferenced s"
    by (intro filter_cong) (auto simp: arc_clone_def)
  then show ?thesis using in_order_same [OF h] by blast
qed

lemma in_order_get:
  assumes ok: "lru_ok n live s" and h: "in_order h s" and got: "lru_get key s = (Some v, s')"
  shows "in_order h s'"
proof (cases "\<exists>a. (Some key, a) \<in> set (lru_list s)")
  case True
  then show ?thesis using lru_hit [OF ok] in_order_clone [OF ok _ h] got by auto
next
  case False
  then obtain xs k a ys where m: "lru_list s = xs @ (k, a) # ys" "lru_strong s a = 1"
      "s' = arc_clone a (s\<lparr>lru_list := xs @ (Some key, a) # ys\<rparr>)"
    using lru_miss [OF ok _ got] by metis
  have "a \<notin> snd ` set xs" "a \<notin> snd ` set ys" using lru_okD(1) [OF ok] m(1) by auto
  then have "filter (\<lambda>e. lru_strong s' (snd e) = 1) xs = filter (\<lambda>e. lru_strong s (snd e) = 1) xs"
      "filter (\<lambda>e. lru_strong s' (snd e) = 1) ys = filter (\<lambda>e. lru_strong s (snd e) = 1) ys"
    by (auto intro!: filter_cong simp: m(3) arc_clone_def)
  moreover have "lru_list s' = xs @ (Some key, a) # ys" "lru_strong s' a = 2" using m by (simp_all add: arc_clone_def)
  ultimately have "unreferenced s = filter (\<lambda>e. lru_strong s (snd e) = 1) xs @ (k, a) # filter (\<lambda>e. lru_strong s (snd e) = 1) ys"
      "unreferenced s' = filter (\<lambda>e. lru_strong s (snd e) = 1) xs @ filter (\<lambda>e. lru_strong s (snd e) = 1) ys"
    using m(1,2) by simp_all
  then show ?thesis by (rule in_order_subset [OF h])
qed

lemma subseq_removeAll:
  assumes "subseq ks h" and "k \<notin> set ks"
  shows "subseq ks (removeAll k h)"
proof -
  have "filter (\<lambda>x. k \<noteq> x) ks = ks" using assms(2) by (auto simp: filter_id_conv)
  then show ?thesis using subseq_filter [OF assms(1), of "\<lambda>x. k \<noteq> x"] by (simp add: removeAll_filter_not_eq)
qed

lemma in_order_drop:
  assumes ok: "lru_ok n (add_mset v live) s" and h: "in_order h s"
  shows "in_order (lv_key v # removeAll (lv_key v) h) (lru_drop v s)"
proof -
  let ?k = "lv_key v" and ?a = "lv_arc v"
  have e: "(Some ?k, ?a) \<in> set (lru_list s)" using lru_okD(5) [OF ok] by simp
  obtain xs ys where l: "lru_list s = xs @ (Some ?k, ?a) # ys" "lru_promote ?k s = s\<lparr>lru_list := (Some ?k, ?a) # xs @ ys\<rparr>"
    using lru_promote_eq [OF ok e] .
  have "\<forall>e \<in> set xs. snd e \<noteq> ?a" "\<forall>e \<in> set ys. snd e \<noteq> ?a" using lru_okD(1) [OF ok] l(1) by force+
  then have same: "filter (\<lambda>e. lru_strong (lru_drop v s) (snd e) = 1) xs = filter (\<lambda>e. lru_strong s (snd e) = 1) xs"
      "filter (\<lambda>e. lru_strong (lru_drop v s) (snd e) = 1) ys = filter (\<lambda>e. lru_strong s (snd e) = 1) ys"
    by (auto intro!: filter_cong simp: lru_drop_def l(2) arc_drop_def)
  have ref: "lru_strong s ?a \<noteq> 1" using lru_unreferenced [OF ok e] by simp
  obtain ks m where ks: "map fst (unreferenced s) = map Some ks @ replicate m None" "subseq ks h" and d: "distinct h"
    using h by (auto simp: in_order_def)
  have "?k \<notin> set ks"
  proof
    assume "?k \<in> set ks"
    then have "Some ?k \<in> set (map fst (unreferenced s))" unfolding ks(1) by simp
    then show False using lru_okD(3) [OF ok _ e] ref by auto
  qed
  then have sub: "subseq ks (removeAll ?k h)" by (rule subseq_removeAll [OF ks(2)])
  have d': "distinct (?k # removeAll ?k h)" using d by (simp add: distinct_removeAll)
  have U: "unreferenced (lru_drop v s) = (if lru_strong s ?a = 2 then [(Some ?k, ?a)] else []) @ unreferenced s"
    using same ref by (auto simp: lru_drop_def l arc_drop_def)
  show ?thesis
  proof (cases "lru_strong s ?a = 2")
    case True
    then have "map fst (unreferenced (lru_drop v s)) = map Some (?k # ks) @ replicate m None" unfolding U using ks(1) by simp
    moreover have "subseq (?k # ks) (?k # removeAll ?k h)" using sub by simp
    ultimately show ?thesis unfolding in_order_def using d' by blast
  next
    case False
    then have "map fst (unreferenced (lru_drop v s)) = map Some ks @ replicate m None" unfolding U using ks(1) by simp
    moreover have "subseq ks (?k # removeAll ?k h)" using sub by auto
    ultimately show ?thesis unfolding in_order_def using d' by blast
  qed
qed

lemma lru_step_order: "run_ok n c \<Longrightarrow> in_order h (snd c) \<Longrightarrow> in_order (note_drop u (fst c) h) (snd (lru_step u c))"
proof (cases c)
  case (Pair hs s)
  assume "run_ok n c" and "in_order h (snd c)"
  then have ok: "lru_ok n (mset hs) s" and h: "in_order h s" by (simp_all add: run_ok_def Pair)
  show ?thesis
  proof (cases u)
    case (Get key)
    then show ?thesis
      using in_order_get [OF ok h] lru_get_None_state [of key s] h Pair
      by (cases "lru_get key s"; cases "fst (lru_get key s)") (auto simp: note_drop_def)
  next
    case (Clone i)
    have "in_order h (snd (lru_clone (hs ! i) s))" if "i < length hs"
      using in_order_clone [OF ok lru_okD(5) [OF ok] h, of "hs ! i"] that by (simp add: lru_clone_def)
    then show ?thesis using Clone h Pair by (simp add: note_drop_def Let_def split_beta)
  next
    case (Drop i)
    then show ?thesis
      using ok h Pair in_order_drop [of n "hs ! i" "mset (take i hs @ drop (Suc i) hs)" s] mset_take_drop [of i hs]
      by (auto simp: note_drop_def)
  qed
qed

lemma lru_run_order: "run_ok n c \<Longrightarrow> in_order h (snd c) \<Longrightarrow> in_order (drops us c h) (snd (lru_run us c))"
  by (induction us arbitrary: c h) (simp_all add: lru_step_ok lru_step_order)

lemma lru_start:
  assumes "lru_new x n = Ok s"
  shows "run_ok n ([], s)" and "in_order [] s"
proof -
  have n: "0 < n" and s: "s = \<lparr>lru_list = map (\<lambda>a. (None, a)) [0..<n], lru_strong = (\<lambda>a. if a < n then 1 else 0), lru_vals = (\<lambda>_. x)\<rparr>"
    using assms by (auto simp: lru_new_def)
  show "run_ok n ([], s)" using lru_new_ok [OF assms] by (simp add: run_ok_def)
  have "unreferenced s = map (\<lambda>a. (None, a)) [0..<n]" by (simp add: s filter_map comp_def)
  then have "map fst (unreferenced s) = map Some [] @ replicate n None" by (simp only: map_map comp_def fst_conv map_replicate_const length_upt) simp
  then show "in_order [] s" unfolding in_order_def by (intro conjI exI [of _ "[]"] exI [of _ n]) simp_all
qed

lemma lru_handle_same:
  assumes ok: "lru_ok n live s" and "v \<in># live" and "w \<in># live"
  shows "lv_key v = lv_key w \<longleftrightarrow> lv_arc v = lv_arc w"
proof -
  have v: "(Some (lv_key v), lv_arc v) \<in> set (lru_list s)" and w: "(Some (lv_key w), lv_arc w) \<in> set (lru_list s)"
    using lru_okD(5) [OF ok] assms(2,3) by simp_all
  show ?thesis using lru_okD(3) [OF ok v, of "lv_arc w"] lru_ok_arc(2) [OF ok v, of "Some (lv_key w)"] w by auto
qed

lemma card_image_same:
  assumes "finite A" and "\<And>x y. x \<in> A \<Longrightarrow> y \<in> A \<Longrightarrow> f x = f y \<longleftrightarrow> g x = g y"
  shows "card (f ` A) = card (g ` A)"
proof -
  define j where "j = (\<lambda>y. g (inv_into A f y))"
  have "j (f x) = g x" if "x \<in> A" for x
    using assms(2) [of "inv_into A f (f x)" x] that by (simp add: j_def f_inv_into_f inv_into_into)
  then have "g ` A = j ` f ` A" and "inj_on j (f ` A)" using assms(2) by (auto simp: image_image inj_on_def)
  then show ?thesis by (simp add: card_image)
qed

lemma subseq_set: "subseq xs ys \<Longrightarrow> set xs \<subseteq> set ys"
  by (induction rule: list_emb.induct) auto

lemma last_key:
  assumes "xs @ [Some k] = map Some ks @ replicate m None" and "other \<in> set xs" and "subseq ks h"
  shows "\<exists>k'. other = Some k' \<and> (\<exists>us ys. h = us @ k # ys \<and> k' \<in> set us)"
proof -
  have "m = 0" using arg_cong [OF assms(1), of last] by (cases "m = 0") (simp_all add: last_append)
  then obtain ks' where ks: "ks = ks' @ [k]" "xs = map Some ks'"
    using assms(1) by (cases ks rule: rev_cases) auto
  obtain h1 h2 where h: "h = h1 @ h2" "subseq ks' h1" "subseq [k] h2" using list_emb_appendD [of "(=)" ks' "[k]" h] assms(3) ks(1) by auto
  then obtain p q where "h2 = p @ k # q" using subseq_set [OF h(3)] by (auto dest: split_list)
  moreover obtain k' where "other = Some k'" "k' \<in> set h1" using assms(2) ks(2) subseq_set [OF h(2)] by auto
  ultimately show ?thesis using h(1) by (metis Un_iff append.assoc set_append)
qed

section \<open>Properties\<close>

text \<open>
  C8. In every run of a cache of n values, two live handles share a value exactly when they have the same
  key, and a request fails exactly when live handles hold n keys and the requested one is not among them.
\<close>

theorem lru_handles:
  assumes "lru_new x n = Ok s\<^sub>0" and "lru_run us ([], s\<^sub>0) = (hs, s)"
  shows "(\<forall>v w. v \<in> set hs \<longrightarrow> w \<in> set hs \<longrightarrow> (lv_key v = lv_key w \<longleftrightarrow> lv_arc v = lv_arc w)) \<and>
    (fst (lru_get key s) = None \<longleftrightarrow> card (lv_key ` set hs) = n \<and> key \<notin> lv_key ` set hs)"
proof -
  have ok: "lru_ok n (mset hs) s" using lru_run_ok [OF lru_start(1) [OF assms(1)], of us] assms(2) by (simp add: run_ok_def)
  have same: "lv_key v = lv_key w \<longleftrightarrow> lv_arc v = lv_arc w" if "v \<in> set hs" "w \<in> set hs" for v w
    using lru_handle_same [OF ok, of v w] that by simp
  have "lv_arc v < n" if "v \<in> set hs" for v using lru_ok_arc(1) [OF ok lru_okD(5) [OF ok, of v]] that by simp
  then have sub: "lv_arc ` set hs \<subseteq> {..<n}" by blast
  have "card (lv_key ` set hs) = card (lv_arc ` set hs)" using same by (intro card_image_same) simp_all
  moreover have "card (lv_arc ` set hs) = n \<longleftrightarrow> lv_arc ` set hs = {..<n}"
    using card_subset_eq [OF _ sub] by auto
  moreover have "(\<forall>e \<in> set (lru_list s). \<exists>v \<in># mset hs. lv_arc v = snd e) \<longleftrightarrow> lv_arc ` set hs = {..<n}"
  proof -
    have "(\<forall>e \<in> set (lru_list s). \<exists>v \<in># mset hs. lv_arc v = snd e) \<longleftrightarrow> set (map snd (lru_list s)) \<subseteq> lv_arc ` set hs"
      by fastforce
    then show ?thesis unfolding lru_okD(2) [OF ok] using sub by blast
  qed
  moreover have "(\<exists>a. (Some key, a) \<in> set (lru_list s)) \<longleftrightarrow> key \<in> lv_key ` set hs" if all: "lv_arc ` set hs = {..<n}"
  proof
    assume "\<exists>a. (Some key, a) \<in> set (lru_list s)"
    then obtain a where a: "(Some key, a) \<in> set (lru_list s)" by blast
    have "a \<in> lv_arc ` set hs" using lru_ok_arc(1) [OF ok a] by (simp add: all)
    then obtain v where v: "v \<in> set hs" "lv_arc v = a" by blast
    then have "(Some (lv_key v), a) \<in> set (lru_list s)" using lru_okD(5) [OF ok, of v] by simp
    then have "Some (lv_key v) = Some key" by (rule lru_ok_arc(2) [OF ok a])
    then show "key \<in> lv_key ` set hs" using v(1) by auto
  next
    assume "key \<in> lv_key ` set hs"
    then obtain v where "v \<in> set hs" "lv_key v = key" by blast
    then show "\<exists>a. (Some key, a) \<in> set (lru_list s)" using lru_okD(5) [OF ok, of v] by auto
  qed
  ultimately have "fst (lru_get key s) = None \<longleftrightarrow> card (lv_key ` set hs) = n \<and> key \<notin> lv_key ` set hs"
    using lru_get_None [OF ok, of key] by (cases "lv_arc ` set hs = {..<n}") (simp_all, blast)
  then show ?thesis using same by blast
qed

definition example_lru :: "(nat, nat) lru_map" where
  "example_lru = \<lparr>lru_list = [(None, 0), (None, 1)], lru_strong = (\<lambda>a. if a < 2 then 1 else 0), lru_vals = (\<lambda>_. 0)\<rparr>"

lemma example_lru_new: "lru_new 0 2 = (Ok example_lru :: ((nat, nat) lru_map, unit) outcome)"
  by (simp add: lru_new_def example_lru_def numeral_2_eq_2)

definition example_uses :: "nat lru_use list" where
  "example_uses = [Get 1, Get 2, Drop 1, Get 1, Get 3, Drop 0, Drop 0]"

lemmas lru_eval = lru_get_def lru_drop_def lru_clone_def lru_promote_def arc_clone_def arc_drop_def

lemma example_run:
  "\<exists>s. lru_run example_uses ([], example_lru) = ([\<lparr>lv_key = 3, lv_arc = 0\<rparr>], s) \<and> lru_list s = [(Some 1, 1), (Some 3, 0)]"
  by (simp add: example_uses_def example_lru_def lru_eval)

theorem lru_handles_witness:
  "\<exists>hs s. lru_run example_uses ([], example_lru) = (hs, s) \<and> fst (lru_get 2 s) \<noteq> None"
proof -
  obtain s where r: "lru_run example_uses ([], example_lru) = ([\<lparr>lv_key = 3, lv_arc = 0\<rparr>], s)" using example_run by blast
  then show ?thesis using lru_handles [OF example_lru_new r, of 2] by simp
qed

text \<open>
  C21. In every run, a request for a key that is not cached reuses a value that no live handle
  references; it is one that was never used, or the one whose key was dropped longer ago than that of
  every other unreferenced value.
\<close>

theorem lru_evicts_oldest:
  assumes "lru_new x n = Ok s\<^sub>0" and "lru_run us ([], s\<^sub>0) = (hs, s)"
    and "\<And>a. (Some key, a) \<notin> set (lru_list s)" and "lru_get key s = (Some v, s')"
  shows "\<exists>old. (old, lv_arc v) \<in> set (lru_list s) \<and> (\<forall>w. w \<in> set hs \<longrightarrow> lv_arc w \<noteq> lv_arc v) \<and>
    (\<forall>k other a. old = Some k \<longrightarrow> (other, a) \<in> set (lru_list s) \<longrightarrow> a \<noteq> lv_arc v \<longrightarrow> (\<forall>w. w \<in> set hs \<longrightarrow> lv_arc w \<noteq> a) \<longrightarrow>
      (\<exists>k'. other = Some k' \<and> (\<exists>xs ys. drops us ([], s\<^sub>0) [] = xs @ k # ys \<and> k' \<in> set xs)))"
proof -
  have ok: "lru_ok n (mset hs) s" using lru_run_ok [OF lru_start(1) [OF assms(1)], of us] assms(2) by (simp add: run_ok_def)
  have "in_order (drops us ([], s\<^sub>0) []) s" using lru_run_order [OF lru_start(1) [OF assms(1)], of "[]" us] lru_start(2) [OF assms(1)] assms(2) by simp
  then obtain ks m where ks: "map fst (unreferenced s) = map Some ks @ replicate m None" "subseq ks (drops us ([], s\<^sub>0) [])"
    by (auto simp: in_order_def)
  obtain xs old ys where l: "lru_list s = xs @ (old, lv_arc v) # ys" "lru_strong s (lv_arc v) = 1" "\<forall>e \<in> set ys. lru_strong s (snd e) \<noteq> 1"
    using lru_miss [OF ok assms(3,4)] by (metis lru_value.select_convs(2))
  have U: "unreferenced s = filter (\<lambda>e. lru_strong s (snd e) = 1) xs @ [(old, lv_arc v)]" using l by (simp add: filter_empty_conv)
  have e: "(old, lv_arc v) \<in> set (lru_list s)" using l(1) by simp
  have "\<exists>k'. other = Some k' \<and> (\<exists>us' ys'. drops us ([], s\<^sub>0) [] = us' @ k # ys' \<and> k' \<in> set us')"
    if "old = Some k" "(other, a) \<in> set (lru_list s)" "a \<noteq> lv_arc v" "\<forall>w. w \<in> set hs \<longrightarrow> lv_arc w \<noteq> a" for k other a
  proof -
    have "lru_strong s a = 1" using lru_unreferenced [OF ok that(2)] that(4) by simp
    then have o: "other \<in> set (map fst (filter (\<lambda>e. lru_strong s (snd e) = 1) xs))" using that(2,3) l by (force simp: image_iff)
    have "map fst (filter (\<lambda>e. lru_strong s (snd e) = 1) xs) @ [Some k] = map Some ks @ replicate m None" using ks(1) U that(1) by simp
    then show ?thesis using last_key [OF _ o] ks(2) by blast
  qed
  then show ?thesis using e lru_unreferenced [OF ok e] l(2) by (intro exI [of _ old]) auto
qed

lemma example_evict:
  "\<exists>s v s'. lru_run [Get 1, Get 2, Drop 1, Drop 0] ([], example_lru) = ([], s) \<and> lru_list s = [(Some 1, 1), (Some 2, 0)] \<and>
     lru_get 3 s = (Some v, s') \<and> drops [Get 1, Get 2, Drop 1, Drop 0] ([], example_lru) [] = [1, 2]"
  by (simp add: example_lru_def lru_eval note_drop_def)

theorem lru_evicts_oldest_witness:
  "\<exists>s v s'. lru_run [Get 1, Get 2, Drop 1, Drop 0] ([], example_lru) = ([], s) \<and> lru_get 3 s = (Some v, s') \<and>
    (Some 2, lv_arc v) \<in> set (lru_list s)"
proof -
  obtain s v s' where r: "lru_run [Get 1, Get 2, Drop 1, Drop 0] ([], example_lru) = ([], s)"
    and l: "lru_list s = [(Some 1, 1), (Some 2, 0)]" and g: "lru_get 3 s = (Some v, s')"
    and d: "drops [Get 1, Get 2, Drop 1, Drop 0] ([], example_lru) [] = [1, 2]"
    using example_evict by blast
  have "(Some 2, lv_arc v) \<in> set (lru_list s)"
  proof (rule ccontr)
    assume "(Some 2, lv_arc v) \<notin> set (lru_list s)"
    then have "lv_arc v = 1" using lru_evicts_oldest [OF example_lru_new r _ g] l by auto
    then have "\<exists>xs ys. [1, 2] = xs @ (1 :: nat) # ys \<and> 2 \<in> set xs"
      using lru_evicts_oldest [OF example_lru_new r _ g] l d by fastforce
    then show False by (auto simp: Cons_eq_append_conv)
  qed
  then show ?thesis using r g by blast
qed

end
