(* ===== verification/Block_Io.thy ===== *)
theory Block_Io
  imports Lru Pod
begin

text \<open>
  The cache for block I/O of \<^verbatim>\<open>crates/kernel/block_io/src/lib.rs\<close>: a least recently used cache of
  blocks behind locks, in front of a block device. The device is a parameter, as it is in the code.
\<close>

section \<open>Locks\<close>

text \<open>
  One thread runs at a time in this model, so that a lock that is held is held by the thread itself. A call
  that would wait for it never comes back: its outcome is \<open>Err Blocked\<close>.
\<close>

datatype stuck = Blocked

record 'v sleep_lock =
  sl_locked :: bool
  sl_value :: 'v

section \<open>Devices, blocks and handles\<close>

text \<open>
  A device reads into a buffer, which it may change also when it fails, and writes a buffer. Both return
  a \<^verbatim>\<open>Result\<close>, a value of a sum type.
\<close>

record ('d, 'e) block_device =
  dev_read :: "usize \<Rightarrow> u8 list \<Rightarrow> 'd \<Rightarrow> ('e + unit) \<times> u8 list \<times> 'd"
  dev_write :: "usize \<Rightarrow> u8 list \<Rightarrow> 'd \<Rightarrow> ('e + unit) \<times> 'd"

record block_data =
  bd_index :: usize
  bd_valid :: bool
  bd_dirty :: bool
  bd_data :: "u8 list"

type_synonym block_lru = "(usize, block_data sleep_lock) lru_map"

record 'd block_io_cache =
  bio_device :: 'd
  bio_lru :: block_lru

record block_ref =
  br_index :: usize
  br_block :: "usize lru_value"

record block_guard =
  bg_index :: usize
  bg_block :: "usize lru_value"

type_synonym ('d, 'a) bio_call = "('d block_io_cache, 'a, stuck) call"

definition block_data_default :: "nat \<Rightarrow> block_data" where
  "block_data_default block_size = \<lparr>bd_index = 0, bd_valid = False, bd_dirty = True, bd_data = replicate block_size 0\<rparr>"

definition bio_new :: "nat \<Rightarrow> 'd \<Rightarrow> nat \<Rightarrow> ('d block_io_cache, 'e) outcome" where
  "bio_new block_size device num_block =
     obind (lru_new \<lparr>sl_locked = False, sl_value = block_data_default block_size\<rparr> num_block) (\<lambda>lru.
     Ok \<lparr>bio_device = device, bio_lru = lru\<rparr>)"

text \<open>The block of a handle, behind its lock.\<close>

definition bio_mutex :: "usize lru_value \<Rightarrow> 'd block_io_cache \<Rightarrow> block_data sleep_lock" where
  "bio_mutex v s = lru_value v (bio_lru s)"

definition bio_put :: "usize lru_value \<Rightarrow> block_data sleep_lock \<Rightarrow> 'd block_io_cache \<Rightarrow> 'd block_io_cache" where
  "bio_put v x s = s\<lparr>bio_lru := lru_put v x (bio_lru s)\<rparr>"

definition bio_block :: "block_guard \<Rightarrow> 'd block_io_cache \<Rightarrow> block_data" where
  "bio_block g s = sl_value (bio_mutex (bg_block g) s)"

definition bio_set :: "block_guard \<Rightarrow> block_data \<Rightarrow> 'd block_io_cache \<Rightarrow> 'd block_io_cache" where
  "bio_set g b s = bio_put (bg_block g) \<lparr>sl_locked = sl_locked (bio_mutex (bg_block g) s), sl_value = b\<rparr> s"

definition bio_clone :: "usize lru_value \<Rightarrow> ('d, usize lru_value) bio_call" where
  "bio_clone v s = (let (w, l) = lru_clone v (bio_lru s) in (Ok w, s\<lparr>bio_lru := l\<rparr>))"

definition bio_release :: "usize lru_value \<Rightarrow> ('d, unit) bio_call" where
  "bio_release v = cmodify (\<lambda>s. s\<lparr>bio_lru := lru_drop v (bio_lru s)\<rparr>)"

section \<open>References\<close>

definition try_get :: "usize \<Rightarrow> ('d, block_ref option) bio_call" where
  "try_get index s =
     (case lru_get index (bio_lru s) of
        (Some block, l) \<Rightarrow> (Ok (Some \<lparr>br_index = index, br_block = block\<rparr>), s\<lparr>bio_lru := l\<rparr>)
      | (None, l) \<Rightarrow> (Ok None, s\<lparr>bio_lru := l\<rparr>))"

definition bio_get :: "usize \<Rightarrow> ('d, block_ref) bio_call" where
  "bio_get index = cbind (try_get index) (\<lambda>buf. clift (expect buf))"

definition ref_clone :: "block_ref \<Rightarrow> ('d, block_ref) bio_call" where
  "ref_clone r = cbind (bio_clone (br_block r)) (\<lambda>block. creturn \<lparr>br_index = br_index r, br_block = block\<rparr>)"

definition ref_drop :: "block_ref \<Rightarrow> ('d, unit) bio_call" where
  "ref_drop r = bio_release (br_block r)"

text \<open>The buffer of a block that was recycled from another one loses its content.\<close>

definition relabel :: "usize \<Rightarrow> block_data \<Rightarrow> block_data" where
  "relabel index b = (if bd_index b \<noteq> index then b\<lparr>bd_index := index, bd_valid := False\<rparr> else b)"

definition ref_lock :: "block_ref \<Rightarrow> ('d, block_guard) bio_call" where
  "ref_lock r s =
     (let m = bio_mutex (br_block r) s; b = sl_value m in
      if sl_locked m then (Err Blocked, s)
      else
        let b = relabel (br_index r) b in
        cbind (bio_clone (br_block r)) (\<lambda>block. creturn \<lparr>bg_index = br_index r, bg_block = block\<rparr>)
          (bio_put (br_block r) \<lparr>sl_locked = True, sl_value = b\<rparr> s))"

section \<open>Guards\<close>

text \<open>The handle of a guard that is rebuilt: a clone of the old one, which is then dropped.\<close>

definition guard_again :: "block_guard \<Rightarrow> ('d, block_guard) bio_call" where
  "guard_again g =
     cbind (bio_clone (bg_block g)) (\<lambda>block.
     cbind (bio_release (bg_block g)) (\<lambda>_. creturn \<lparr>bg_index = bg_index g, bg_block = block\<rparr>))"

definition guard_block :: "block_guard \<Rightarrow> ('d, block_ref) bio_call" where
  "guard_block g = cbind (bio_clone (bg_block g)) (\<lambda>block. creturn \<lparr>br_index = bg_index g, br_block = block\<rparr>)"

definition guard_read :: "('d, 'e) block_device \<Rightarrow> block_guard \<Rightarrow> ('d, (block_guard \<times> 'e) + block_guard) bio_call" where
  "guard_read D g s =
     (let b = bio_block g s in
      if bd_valid b then cbind (guard_again g) (\<lambda>g. creturn (Inr g)) s
      else
        let (r, data, device) = dev_read D (bg_index g) (bd_data b) (bio_device s);
          s = bio_set g (b\<lparr>bd_valid := True, bd_dirty := False, bd_data := data\<rparr>) (s\<lparr>bio_device := device\<rparr>) in
        case r of
          Inl e \<Rightarrow> (Ok (Inl (g, e)), s)
        | Inr _ \<Rightarrow> cbind (guard_again g) (\<lambda>g. creturn (Inr g)) s)"

definition guard_set_data :: "u8 list \<Rightarrow> block_guard \<Rightarrow> ('d, block_guard) bio_call" where
  "guard_set_data data g s =
     (let b = bio_block g s in
      cbind (clift (require (length data = length (bd_data b)))) (\<lambda>_. guard_again g)
        (bio_set g (b\<lparr>bd_valid := True, bd_dirty := True,
           bd_data := if length data = length (bd_data b) then data else bd_data b\<rparr>) s))"

definition guard_zeroed :: "block_guard \<Rightarrow> ('d, block_guard) bio_call" where
  "guard_zeroed g s =
     (let b = bio_block g s in
      guard_again g (bio_set g (b\<lparr>bd_valid := True, bd_dirty := True, bd_data := replicate (length (bd_data b)) 0\<rparr>) s))"

definition guard_is_dirty :: "block_guard \<Rightarrow> ('d, bool) bio_call" where
  "guard_is_dirty g = cread (\<lambda>s. bd_dirty (bio_block g s))"

definition guard_try_validate :: "block_guard \<Rightarrow> ('d, block_guard + block_guard) bio_call" where
  "guard_try_validate g = cread (\<lambda>s. if bd_valid (bio_block g s) then Inr g else Inl g)"

definition guard_bytes :: "block_guard \<Rightarrow> ('d, u8 list) bio_call" where
  "guard_bytes g = cread (\<lambda>s. bd_data (bio_block g s))"

text \<open>The bytes are given out mutably; \<open>f\<close> is what the caller does to them.\<close>

definition guard_bytes_mut :: "block_guard \<Rightarrow> (u8 list \<Rightarrow> u8 list) \<Rightarrow> ('d, unit) bio_call" where
  "guard_bytes_mut g f =
     cmodify (\<lambda>s. let b = bio_block g s in bio_set g (b\<lparr>bd_dirty := True, bd_data := f (bd_data b)\<rparr>) s)"

definition guard_write :: "('d, 'e) block_device \<Rightarrow> block_guard \<Rightarrow> ('d, 'e + unit) bio_call" where
  "guard_write D g s =
     (let b = bio_block g s in
      if \<not> bd_valid b then (Panic, s)
      else
        let (r, device) = dev_write D (bg_index g) (bd_data b) (bio_device s); s = s\<lparr>bio_device := device\<rparr> in
        case r of
          Inl e \<Rightarrow> (Ok (Inl e), s)
        | Inr _ \<Rightarrow> (Ok (Inr ()), bio_set g (b\<lparr>bd_dirty := False\<rparr>) s))"

text \<open>The fields of a guard are dropped in their order: the handle, then the lock.\<close>

definition guard_drop :: "block_guard \<Rightarrow> ('d, unit) bio_call" where
  "guard_drop g =
     cbind (bio_release (bg_block g)) (\<lambda>_.
     cmodify (\<lambda>s. bio_put (bg_block g) \<lparr>sl_locked = False, sl_value = bio_block g s\<rparr> s))"

section \<open>What a client sees\<close>

text \<open>
  The entry with a key, and the content of a block: the cached bytes if an entry holds them, otherwise
  those on the device, which \<open>dv\<close> gives.
\<close>

abbreviation has_entry :: "'d block_io_cache \<Rightarrow> usize \<Rightarrow> nat \<Rightarrow> bool" where
  "has_entry s k a \<equiv> (Some k, a) \<in> set (lru_list (bio_lru s))"

definition block_of :: "'d block_io_cache \<Rightarrow> nat \<Rightarrow> block_data" where
  "block_of s a = sl_value (lru_vals (bio_lru s) a)"

definition is_locked :: "'d block_io_cache \<Rightarrow> nat \<Rightarrow> bool" where
  "is_locked s a = sl_locked (lru_vals (bio_lru s) a)"

definition bview :: "('d \<Rightarrow> usize \<Rightarrow> u8 list) \<Rightarrow> 'd block_io_cache \<Rightarrow> usize \<Rightarrow> u8 list" where
  "bview dv s k =
     (case map_of (lru_list (bio_lru s)) (Some k) of
        Some a \<Rightarrow> if bd_index (block_of s a) = k \<and> bd_valid (block_of s a) then bd_data (block_of s a) else dv (bio_device s) k
      | None \<Rightarrow> dv (bio_device s) k)"

text \<open>
  The invariant of a cache with the given live handles: a buffer without a handle is unlocked, and if it
  is valid then it is clean and under its own index.
\<close>

definition cache_ok :: "('d \<Rightarrow> usize \<Rightarrow> u8 list) \<Rightarrow> (usize \<Rightarrow> bool) \<Rightarrow> nat \<Rightarrow> nat \<Rightarrow> usize lru_value multiset \<Rightarrow> 'd block_io_cache \<Rightarrow> bool" where
  "cache_ok dv rng N n live s \<longleftrightarrow>
     lru_ok n live (bio_lru s) \<and>
     (\<forall>k a. has_entry s k a \<longrightarrow> rng k) \<and>
     (\<forall>a. length (bd_data (block_of s a)) = N) \<and>
     (\<forall>k a. (k, a) \<in> set (lru_list (bio_lru s)) \<longrightarrow> (\<forall>v \<in># live. lv_arc v \<noteq> a) \<longrightarrow>
        \<not> is_locked s a \<and>
        (bd_valid (block_of s a) \<longrightarrow> k = Some (bd_index (block_of s a)) \<and>
           bd_data (block_of s a) = dv (bio_device s) (bd_index (block_of s a))))"

lemma cache_okD:
  assumes "cache_ok dv rng N n live s"
  shows "lru_ok n live (bio_lru s)" and "has_entry s k a \<Longrightarrow> rng k" and "length (bd_data (block_of s a)) = N"
    and "(k', a) \<in> set (lru_list (bio_lru s)) \<Longrightarrow> (\<And>v. v \<in># live \<Longrightarrow> lv_arc v \<noteq> a) \<Longrightarrow> \<not> is_locked s a"
    and "(k', a) \<in> set (lru_list (bio_lru s)) \<Longrightarrow> (\<And>v. v \<in># live \<Longrightarrow> lv_arc v \<noteq> a) \<Longrightarrow> bd_valid (block_of s a) \<Longrightarrow>
      k' = Some (bd_index (block_of s a)) \<and> bd_data (block_of s a) = dv (bio_device s) (bd_index (block_of s a))"
  using assms unfolding cache_ok_def by blast+

lemma map_of_entry:
  assumes "lru_ok n live l"
  shows "map_of (lru_list l) (Some k) = Some a \<longleftrightarrow> (Some k, a) \<in> set (lru_list l)"
proof
  show "map_of (lru_list l) (Some k) = Some a \<Longrightarrow> (Some k, a) \<in> set (lru_list l)" by (rule map_of_SomeD)
  assume e: "(Some k, a) \<in> set (lru_list l)"
  then obtain b where b: "map_of (lru_list l) (Some k) = Some b" by (meson weak_map_of_SomeI)
  then have "b = a" using lru_okD(3) [OF assms map_of_SomeD [OF b] e] by simp
  then show "map_of (lru_list l) (Some k) = Some a" using b by simp
qed

lemma bview_hit:
  assumes "cache_ok dv rng N n live s" and "has_entry s k a"
  shows "bview dv s k = (if bd_index (block_of s a) = k \<and> bd_valid (block_of s a) then bd_data (block_of s a) else dv (bio_device s) k)"
  using map_of_entry [OF cache_okD(1) [OF assms(1)], of k a] assms(2) by (simp add: bview_def)

lemma bview_miss:
  assumes "cache_ok dv rng N n live s" and "\<And>a. \<not> has_entry s k a"
  shows "bview dv s k = dv (bio_device s) k"
  using map_of_entry [OF cache_okD(1) [OF assms(1)], of k] assms(2) by (auto simp: bview_def split: option.splits)

text \<open>A state with the same entries, blocks and device looks the same.\<close>

definition looks_same :: "'d block_io_cache \<Rightarrow> 'd block_io_cache \<Rightarrow> bool" where
  "looks_same s s' \<longleftrightarrow> set (lru_list (bio_lru s')) = set (lru_list (bio_lru s)) \<and>
     lru_vals (bio_lru s') = lru_vals (bio_lru s) \<and> bio_device s' = bio_device s"

lemma looks_sameD:
  assumes "looks_same s s'"
  shows "set (lru_list (bio_lru s')) = set (lru_list (bio_lru s))" and "block_of s' = block_of s" and "is_locked s' = is_locked s"
    and "bio_device s' = bio_device s"
  using assms by (auto simp: looks_same_def block_of_def is_locked_def fun_eq_iff)

lemma looks_same_view:
  assumes "looks_same s s'" and "lru_ok n live (bio_lru s)" and "lru_ok n' live' (bio_lru s')"
  shows "bview dv s' = bview dv s"
proof
  fix k
  have "map_of (lru_list (bio_lru s')) (Some k) = map_of (lru_list (bio_lru s)) (Some k)"
    using map_of_entry [OF assms(2), of k] map_of_entry [OF assms(3), of k] looks_sameD(1) [OF assms(1)]
    by (metis option.exhaust)
  then show "bview dv s' k = bview dv s k" unfolding bview_def looks_sameD [OF assms(1)] by simp
qed

lemma looks_same_ok:
  assumes "looks_same s s'" and "cache_ok dv rng N n live s" and "lru_ok n live' (bio_lru s')" and "lv_arc ` set_mset live \<subseteq> lv_arc ` set_mset live'"
  shows "cache_ok dv rng N n live' s'"
  unfolding cache_ok_def looks_sameD [OF assms(1)]
proof (intro conjI allI impI)
  show "lru_ok n live' (bio_lru s')" by (rule assms(3))
  show "rng k" if "(Some k, a) \<in> set (lru_list (bio_lru s))" for k a using cache_okD(2) [OF assms(2) that] .
  show "length (bd_data (block_of s a)) = N" for a by (rule cache_okD(3) [OF assms(2)])
  fix k a assume e: "(k, a) \<in> set (lru_list (bio_lru s))" and fr: "\<forall>v \<in># live'. lv_arc v \<noteq> a"
  have fr': "lv_arc v \<noteq> a" if "v \<in># live" for v
  proof -
    have "lv_arc v \<in> lv_arc ` set_mset live'" using assms(4) that by blast
    then obtain w where "w \<in># live'" "lv_arc v = lv_arc w" by blast
    then show ?thesis using fr by simp
  qed
  show "\<not> is_locked s a" using cache_okD(4) [OF assms(2) e fr'] .
  assume "bd_valid (block_of s a)"
  then show "k = Some (bd_index (block_of s a))" and "bd_data (block_of s a) = dv (bio_device s) (bd_index (block_of s a))"
    using cache_okD(5) [OF assms(2) e fr'] by simp_all
qed

section \<open>The steps of an access\<close>

lemma bio_clone_ok:
  assumes "cache_ok dv rng N n live s" and "v \<in># live"
  obtains s' where "bio_clone v s = (Ok v, s')" "cache_ok dv rng N n (add_mset v live) s'" "looks_same s s'"
proof -
  let ?s = "s\<lparr>bio_lru := arc_clone (lv_arc v) (bio_lru s)\<rparr>"
  have "lru_ok n (add_mset v live) (arc_clone (lv_arc v) (bio_lru s))"
    using lru_clone_ok [OF cache_okD(1) [OF assms(1)] assms(2)] by (cases v) (simp add: lru_clone_def)
  moreover have same: "looks_same s ?s" by (simp add: looks_same_def arc_clone_def)
  ultimately have "cache_ok dv rng N n (add_mset v live) ?s" using looks_same_ok [OF same assms(1), of "add_mset v live"] by auto
  then show thesis using that [of ?s] same by (simp add: bio_clone_def lru_clone_def)
qed

lemma bio_release_same:
  assumes "lru_ok n (add_mset v live) (bio_lru s)"
  obtains s' where "bio_release v s = (Ok (), s')" "lru_ok n live (bio_lru s')" "looks_same s s'"
  using that [of "s\<lparr>bio_lru := lru_drop v (bio_lru s)\<rparr>"] lru_drop_ok [OF assms]
  by (simp add: bio_release_def looks_same_def)

lemma bio_release_ok:
  assumes "cache_ok dv rng N n (add_mset v live) s" and "v \<in># live"
  obtains s' where "bio_release v s = (Ok (), s')" "cache_ok dv rng N n live s'" "looks_same s s'"
proof -
  obtain s' where s': "bio_release v s = (Ok (), s')" "lru_ok n live (bio_lru s')" "looks_same s s'"
    using bio_release_same [OF cache_okD(1) [OF assms(1)]] .
  have "lv_arc ` set_mset (add_mset v live) \<subseteq> lv_arc ` set_mset live" using assms(2) by auto
  then show thesis using that s' looks_same_ok [OF s'(3) assms(1) s'(2)] by blast
qed

text \<open>The last handle of a buffer may only be dropped when the buffer is unlocked and clean.\<close>

lemma bio_release_last:
  assumes ok: "cache_ok dv rng N n (add_mset v live) s" and "\<not> is_locked s (lv_arc v)"
    and clean: "bd_valid (block_of s (lv_arc v)) \<Longrightarrow> bd_index (block_of s (lv_arc v)) = lv_key v \<and>
      bd_data (block_of s (lv_arc v)) = dv (bio_device s) (lv_key v)"
  obtains s' where "bio_release v s = (Ok (), s')" "cache_ok dv rng N n live s'" "looks_same s s'"
proof -
  obtain s' where s': "bio_release v s = (Ok (), s')" "lru_ok n live (bio_lru s')" "looks_same s s'"
    using bio_release_same [OF cache_okD(1) [OF ok]] .
  have e: "has_entry s (lv_key v) (lv_arc v)" using lru_okD(5) [OF cache_okD(1) [OF ok]] by simp
  have "\<not> is_locked s a \<and> (bd_valid (block_of s a) \<longrightarrow> k = Some (bd_index (block_of s a)) \<and>
      bd_data (block_of s a) = dv (bio_device s) (bd_index (block_of s a)))"
    if k: "(k, a) \<in> set (lru_list (bio_lru s))" and fr: "\<forall>w \<in># live. lv_arc w \<noteq> a" for k a
  proof (cases "a = lv_arc v")
    case True
    then have "k = Some (lv_key v)" using lru_ok_arc(2) [OF cache_okD(1) [OF ok] e] k by simp
    then show ?thesis using clean assms(2) True by auto
  next
    case False
    then have "\<And>w. w \<in># add_mset v live \<Longrightarrow> lv_arc w \<noteq> a" using fr by auto
    then show ?thesis using cache_okD(4,5) [OF ok k] by blast
  qed
  then have "cache_ok dv rng N n live s'"
    unfolding cache_ok_def looks_sameD [OF s'(3)] using s'(2) cache_okD(2,3) [OF ok] by blast
  then show thesis using that s' by blast
qed

lemma guard_again_ok:
  assumes ok: "cache_ok dv rng N n live s" and "bg_block g \<in># live"
  obtains s' where "guard_again g s = (Ok g, s')" "cache_ok dv rng N n live s'" "looks_same s s'"
proof -
  obtain s1 where s1: "bio_clone (bg_block g) s = (Ok (bg_block g), s1)" "cache_ok dv rng N n (add_mset (bg_block g) live) s1"
      "looks_same s s1"
    using bio_clone_ok [OF assms] .
  obtain s2 where s2: "bio_release (bg_block g) s1 = (Ok (), s2)" "cache_ok dv rng N n live s2" "looks_same s1 s2"
    using bio_release_ok [OF s1(2) assms(2)] .
  have "looks_same s s2" using s1(3) s2(3) by (simp add: looks_same_def)
  then show thesis using that [of s2] s1(1) s2(1,2) by (simp add: guard_again_def cbind_simps)
qed

text \<open>A change of the block behind a live handle.\<close>

lemma bio_put_ok:
  assumes ok: "cache_ok dv rng N n live s" and v: "v \<in># live" and "length (bd_data (sl_value m)) = N"
  shows "cache_ok dv rng N n live (bio_put v m s)"
proof -
  have "(k, a) \<in> set (lru_list (bio_lru s)) \<Longrightarrow> \<forall>w \<in># live. lv_arc w \<noteq> a \<Longrightarrow> a \<noteq> lv_arc v" for k a using v by auto
  then show ?thesis
    using ok assms(3) unfolding cache_ok_def
    by (auto simp: bio_put_def lru_put_def block_of_def is_locked_def lru_ok_def)
qed

lemma bio_put_view:
  assumes ok: "cache_ok dv rng N n live s" and v: "v \<in># live"
  shows "bview dv (bio_put v m s) = (bview dv s)(lv_key v :=
    if bd_index (sl_value m) = lv_key v \<and> bd_valid (sl_value m) then bd_data (sl_value m) else dv (bio_device s) (lv_key v))"
proof
  fix k
  have e: "has_entry s (lv_key v) (lv_arc v)" using lru_okD(5) [OF cache_okD(1) [OF ok] v] .
  have m: "map_of (lru_list (bio_lru s)) (Some (lv_key v)) = Some (lv_arc v)" using map_of_entry [OF cache_okD(1) [OF ok]] e by simp
  have "a \<noteq> lv_arc v" if "map_of (lru_list (bio_lru s)) (Some k) = Some a" "k \<noteq> lv_key v" for a
    using lru_ok_arc(2) [OF cache_okD(1) [OF ok] e, of "Some k"] map_of_SomeD [OF that(1)] that(2) by auto
  then show "bview dv (bio_put v m s) k = ((bview dv s)(lv_key v :=
      if bd_index (sl_value m) = lv_key v \<and> bd_valid (sl_value m) then bd_data (sl_value m) else dv (bio_device s) (lv_key v))) k"
    using m by (auto simp: bview_def bio_put_def lru_put_def block_of_def split: option.splits)
qed

lemma bio_put_sel [simp]:
  "bio_device (bio_put v m s) = bio_device s"
  "lru_list (bio_lru (bio_put v m s)) = lru_list (bio_lru s)"
  "block_of (bio_put v m s) = (block_of s)(lv_arc v := sl_value m)"
  "is_locked (bio_put v m s) = (is_locked s)(lv_arc v := sl_locked m)"
  by (auto simp: bio_put_def lru_put_def block_of_def is_locked_def fun_eq_iff)

lemma bio_device_sel [simp]:
  "block_of (s\<lparr>bio_device := d\<rparr>) = block_of s" "is_locked (s\<lparr>bio_device := d\<rparr>) = is_locked s"
  "bio_put v m (s\<lparr>bio_device := d\<rparr>) = (bio_put v m s)\<lparr>bio_device := d\<rparr>"
  "(bio_put v m s)\<lparr>bio_device := bio_device s\<rparr> = bio_put v m s"
  by (auto simp: block_of_def is_locked_def bio_put_def)

lemma bio_mutex_eq: "bio_mutex v s = \<lparr>sl_locked = is_locked s (lv_arc v), sl_value = block_of s (lv_arc v)\<rparr>"
  by (simp add: bio_mutex_def lru_value_def is_locked_def block_of_def)

lemma bio_block_eq: "bio_block g s = block_of s (lv_arc (bg_block g))"
  by (simp add: bio_block_def bio_mutex_eq)

lemma lru_available:
  assumes ok: "lru_ok n live l" and "card (lv_arc ` set_mset live) < n"
  shows "fst (lru_get k l) \<noteq> None"
proof
  assume "fst (lru_get k l) = None"
  then have "set (map snd (lru_list l)) \<subseteq> lv_arc ` set_mset live" using lru_get_None [OF ok] by fastforce
  then have "n \<le> card (lv_arc ` set_mset live)"
    using card_mono [of "lv_arc ` set_mset live" "{..<n}"] lru_okD(2) [OF ok] by simp
  then show False using assms(2) by simp
qed

lemma lru_get_cached: "lru_ok n live l \<Longrightarrow> (Some k, a) \<in> set (lru_list l) \<Longrightarrow> fst (lru_get k l) \<noteq> None"
  using lru_hit by fastforce

text \<open>A request keeps the content of every block: a buffer that is recycled is clean.\<close>

lemma get_recycled:
  assumes ok: "cache_ok dv rng N n live s" and "rng k" and miss: "\<And>b. \<not> has_entry s k b"
    and l: "lru_list (bio_lru s) = xs @ (old, a) # ys" and un: "\<forall>v \<in># live. lv_arc v \<noteq> a"
    and s': "set (lru_list (bio_lru s')) = set (xs @ (Some k, a) # ys)" "block_of s' = block_of s" "is_locked s' = is_locked s"
      "bio_device s' = bio_device s"
    and ok': "lru_ok n (add_mset \<lparr>lv_key = k, lv_arc = a\<rparr> live) (bio_lru s')"
  shows "cache_ok dv rng N n (add_mset \<lparr>lv_key = k, lv_arc = a\<rparr> live) s'" and "bview dv s' = bview dv s"
proof -
  have e: "(old, a) \<in> set (lru_list (bio_lru s))" by (simp add: l)
  have ent: "(j, c) \<in> set (lru_list (bio_lru s'))" if "(j, c) \<in> set (lru_list (bio_lru s))" "c \<noteq> a" for j c
    using that by (auto simp: l s'(1))
  have ent': "j = Some k \<and> c = a \<or> (j, c) \<in> set (lru_list (bio_lru s)) \<and> c \<noteq> a" if "(j, c) \<in> set (lru_list (bio_lru s'))" for j c
    using that lru_okD(1) [OF cache_okD(1) [OF ok]] by (force simp: l s'(1))
  show c: "cache_ok dv rng N n (add_mset \<lparr>lv_key = k, lv_arc = a\<rparr> live) s'"
    unfolding cache_ok_def s'(2-4)
  proof (intro conjI allI impI ok')
    show "rng j" if "has_entry s' j c" for j c using ent' [OF that] cache_okD(2) [OF ok] assms(2) by blast
    show "length (bd_data (block_of s c)) = N" for c by (rule cache_okD(3) [OF ok])
    fix j c assume jc: "(j, c) \<in> set (lru_list (bio_lru s'))" and fr: "\<forall>v \<in># add_mset \<lparr>lv_key = k, lv_arc = a\<rparr> live. lv_arc v \<noteq> c"
    then have o: "(j, c) \<in> set (lru_list (bio_lru s))" using ent' [OF jc] by auto
    have fr': "\<And>v. v \<in># live \<Longrightarrow> lv_arc v \<noteq> c" using fr by auto
    show "\<not> is_locked s c" by (rule cache_okD(4) [OF ok o fr'])
    assume "bd_valid (block_of s c)"
    then show "j = Some (bd_index (block_of s c))" and "bd_data (block_of s c) = dv (bio_device s) (bd_index (block_of s c))"
      using cache_okD(5) [OF ok o fr'] by simp_all
  qed
  have clean: "bd_valid (block_of s a) \<Longrightarrow> old = Some (bd_index (block_of s a)) \<and> bd_data (block_of s a) = dv (bio_device s) (bd_index (block_of s a))"
    using cache_okD(5) [OF ok e] un by blast
  show "bview dv s' = bview dv s"
  proof
    fix j
    consider "j = k" | c where "j \<noteq> k" "has_entry s j c" "c \<noteq> a" | "j \<noteq> k" "has_entry s j a" | "j \<noteq> k" "\<And>c. \<not> has_entry s j c" by blast
    then show "bview dv s' j = bview dv s j"
    proof cases
      case 1
      have "has_entry s' k a" by (simp add: s'(1))
      then show ?thesis using bview_hit [OF c, of k a] bview_miss [OF ok miss] clean e miss 1 s'(2,4) by auto
    next
      case 2
      then show ?thesis using bview_hit [OF ok 2(2)] bview_hit [OF c ent [OF 2(2,3)]] s'(2,4) by simp
    next
      case 3
      then have "\<not> has_entry s' j b" for b using ent' [of "Some j" b] lru_okD(3) [OF cache_okD(1) [OF ok], of j a b] by auto
      then show ?thesis using bview_miss [OF c, of j] bview_hit [OF ok 3(2)] clean s'(4) by auto
    next
      case 4
      then have "\<not> has_entry s' j b" for b using ent' [of "Some j" b] by auto
      then show ?thesis using bview_miss [OF c, of j] bview_miss [OF ok 4(2)] s'(4) by simp
    qed
  qed
qed

lemma bio_get_ok:
  assumes ok: "cache_ok dv rng N n live s" and "rng k" and av: "fst (lru_get k (bio_lru s)) \<noteq> None"
  obtains a s' where "bio_get k s = (Ok \<lparr>br_index = k, br_block = \<lparr>lv_key = k, lv_arc = a\<rparr>\<rparr>, s')"
    "cache_ok dv rng N n (add_mset \<lparr>lv_key = k, lv_arc = a\<rparr> live) s'" "bview dv s' = bview dv s"
    "bio_device s' = bio_device s" "block_of s' = block_of s" "is_locked s' = is_locked s"
    "is_locked s' a \<longrightarrow> has_entry s k a" "has_entry s k a \<or> \<not> (bd_valid (block_of s a) \<and> bd_index (block_of s a) = k)"
    "\<forall>j c. has_entry s' j c \<longrightarrow> has_entry s j c \<or> j = k \<and> c = a"
proof -
  obtain v l' where g: "lru_get k (bio_lru s) = (Some v, l')" using av by (cases "lru_get k (bio_lru s)") auto
  define s' where "s' = s\<lparr>bio_lru := l'\<rparr>"
  define a where "a = lv_arc v"
  have get: "lru_ok n (add_mset v live) l'" "v = \<lparr>lv_key = k, lv_arc = a\<rparr>" "lru_vals l' = lru_vals (bio_lru s)"
    using lru_get_ok [OF cache_okD(1) [OF ok] g] by (cases v, auto simp: a_def)+
  have same: "block_of s' = block_of s" "is_locked s' = is_locked s" "bio_device s' = bio_device s"
    by (auto simp: s'_def block_of_def is_locked_def get(3))
  have "cache_ok dv rng N n (add_mset v live) s' \<and> bview dv s' = bview dv s \<and> (is_locked s' a \<longrightarrow> has_entry s k a) \<and>
      (has_entry s k a \<or> \<not> (bd_valid (block_of s a) \<and> bd_index (block_of s a) = k)) \<and>
      (\<forall>j c. has_entry s' j c \<longrightarrow> has_entry s j c \<or> j = k \<and> c = a)"
  proof (cases "\<exists>b. has_entry s k b")
    case True
    then obtain b where b: "has_entry s k b" by blast
    then have l': "l' = arc_clone b (bio_lru s)" "a = b" using lru_hit [OF cache_okD(1) [OF ok] b] g by (simp_all add: a_def)
    then have ls: "looks_same s s'" by (simp add: looks_same_def s'_def arc_clone_def)
    have ok': "lru_ok n (add_mset v live) (bio_lru s')" using get(1) by (simp add: s'_def)
    have "cache_ok dv rng N n (add_mset v live) s'" using looks_same_ok [OF ls ok ok'] by auto
    moreover have "has_entry s k a" using b l'(2) by simp
    ultimately show ?thesis using looks_same_view [OF ls cache_okD(1) [OF ok] ok'] looks_sameD(1) [OF ls] by simp
  next
    case False
    then obtain xs old ys where m: "lru_list (bio_lru s) = xs @ (old, a) # ys" "lru_strong (bio_lru s) a = 1"
        "l' = arc_clone a ((bio_lru s)\<lparr>lru_list := xs @ (Some k, a) # ys\<rparr>)"
      using lru_miss [OF cache_okD(1) [OF ok] _ g] get(2) by (metis lru_value.select_convs(2))
    have e: "(old, a) \<in> set (lru_list (bio_lru s))" by (simp add: m(1))
    have un: "\<forall>v \<in># live. lv_arc v \<noteq> a" using lru_unreferenced [OF cache_okD(1) [OF ok] e] m(2) by simp
    have "\<not> is_locked s' a" using cache_okD(4) [OF ok e] un same(2) by auto
    moreover have "\<not> (bd_valid (block_of s a) \<and> bd_index (block_of s a) = k)" using cache_okD(5) [OF ok e] un e False by auto
    ultimately show ?thesis
      using get_recycled [OF ok assms(2) _ m(1) un, of s'] same get(1,2) False m(1,3) by (auto simp: s'_def arc_clone_def)
  qed
  then show thesis using that [of a s'] g same get(2) by (simp add: bio_get_def try_get_def cbind_def s'_def)
qed

section \<open>Whole accesses\<close>

text \<open>A client that reads a block, and one that writes a block through to the device.\<close>

definition release_block :: "block_ref \<Rightarrow> block_guard \<Rightarrow> ('d, unit) bio_call" where
  "release_block r g = cbind (guard_drop g) (\<lambda>_. ref_drop r)"

definition read_block :: "('d, 'e) block_device \<Rightarrow> usize \<Rightarrow> ('d, 'e + u8 list) bio_call" where
  "read_block D index =
     cbind (bio_get index) (\<lambda>r.
     cbind (ref_lock r) (\<lambda>g.
     cbind (guard_read D g) (\<lambda>x.
     case x of
       Inl (g, e) \<Rightarrow> cbind (release_block r g) (\<lambda>_. creturn (Inl e))
     | Inr g \<Rightarrow> cbind (guard_bytes g) (\<lambda>bytes. cbind (release_block r g) (\<lambda>_. creturn (Inr bytes))))))"

definition write_block :: "('d, 'e) block_device \<Rightarrow> usize \<Rightarrow> u8 list \<Rightarrow> ('d, 'e + unit) bio_call" where
  "write_block D index data =
     cbind (bio_get index) (\<lambda>r.
     cbind (ref_lock r) (\<lambda>g.
     cbind (guard_set_data data g) (\<lambda>g.
     cbind (guard_write D g) (\<lambda>x.
     cbind (release_block r g) (\<lambda>_. creturn x)))))"

section \<open>Devices that do not fail\<close>

text \<open>
  The contract of a device that does not fail: it has blocks of a fixed size for the indices in a range, which
  reads return and writes set.
\<close>

locale infallible_device =
  fixes D :: "('d, 'e) block_device" and dv :: "'d \<Rightarrow> usize \<Rightarrow> u8 list" and rng :: "usize \<Rightarrow> bool" and N :: nat
  assumes read_law: "rng i \<Longrightarrow> length buf = N \<Longrightarrow> dev_read D i buf d = (Inr (), dv d i, d)"
    and write_law: "rng i \<Longrightarrow> length buf = N \<Longrightarrow>
      \<exists>d'. dev_write D i buf d = (Inr (), d') \<and> (\<forall>j. rng j \<longrightarrow> dv d' j = (if j = i then buf else dv d j))"
    and length_law: "rng i \<Longrightarrow> length (dv d i) = N"
begin

lemma ref_lock_ok:
  assumes ok: "cache_ok dv rng N n live s" and v: "br_block r \<in># live" and "br_index r = lv_key (br_block r)"
    and "\<not> is_locked s (lv_arc (br_block r))"
  obtains s' g where "ref_lock r s = (Ok g, s')" "g = \<lparr>bg_index = br_index r, bg_block = br_block r\<rparr>"
    "cache_ok dv rng N n (add_mset (br_block r) live) s'" "bview dv s' = bview dv s" "bio_device s' = bio_device s"
    "is_locked s' = (is_locked s)(lv_arc (br_block r) := True)"
    "block_of s' (lv_arc (br_block r)) = relabel (br_index r) (block_of s (lv_arc (br_block r)))"
    "\<forall>c. c \<noteq> lv_arc (br_block r) \<longrightarrow> block_of s' c = block_of s c"
    "set (lru_list (bio_lru s')) = set (lru_list (bio_lru s))"
proof -
  let ?a = "lv_arc (br_block r)" and ?k = "lv_key (br_block r)"
  define b where "b = relabel (br_index r) (block_of s ?a)"
  define t where "t = bio_put (br_block r) \<lparr>sl_locked = True, sl_value = b\<rparr> s"
  have len: "length (bd_data b) = N" using cache_okD(3) [OF ok] by (simp add: b_def relabel_def)
  have t: "cache_ok dv rng N n live t" unfolding t_def using bio_put_ok [OF ok v] len by simp
  have "has_entry s ?k ?a" using lru_okD(5) [OF cache_okD(1) [OF ok] v] .
  then have view: "bview dv t = bview dv s"
    unfolding t_def bio_put_view [OF ok v] using bview_hit [OF ok] assms(3) by (auto simp: b_def relabel_def fun_upd_idem_iff)
  obtain s' where s': "bio_clone (br_block r) t = (Ok (br_block r), s')" "cache_ok dv rng N n (add_mset (br_block r) live) s'"
      "looks_same t s'"
    using bio_clone_ok [OF t v] .
  have "ref_lock r s = cbind (bio_clone (br_block r)) (\<lambda>block. creturn \<lparr>bg_index = br_index r, bg_block = block\<rparr>) t"
    using assms(4) by (simp add: ref_lock_def Let_def bio_mutex_eq t_def b_def)
  then have "ref_lock r s = (Ok \<lparr>bg_index = br_index r, bg_block = br_block r\<rparr>, s')" using s'(1) by (simp add: cbind_simps)
  moreover have "bview dv s' = bview dv s"
    using looks_same_view [OF s'(3) cache_okD(1) [OF t] cache_okD(1) [OF s'(2)]] view by simp
  ultimately show thesis
    using that [of _ s'] s'(2) looks_sameD [OF s'(3)] by (simp add: t_def b_def)
qed

lemma bio_set_eq: "bio_set g b s = bio_put (bg_block g) \<lparr>sl_locked = is_locked s (lv_arc (bg_block g)), sl_value = b\<rparr> s"
  by (simp add: bio_set_def bio_mutex_eq)

lemma guard_again_view:
  assumes ok: "cache_ok dv rng N n live s" and "bg_block g \<in># live"
  obtains s' where "guard_again g s = (Ok g, s')" "cache_ok dv rng N n live s'" "bview dv s' = bview dv s"
    "bio_device s' = bio_device s" "is_locked s' = is_locked s" "block_of s' = block_of s" "set (lru_list (bio_lru s')) = set (lru_list (bio_lru s))"
proof -
  obtain s' where s': "guard_again g s = (Ok g, s')" "cache_ok dv rng N n live s'" "looks_same s s'" using guard_again_ok [OF assms] .
  then show thesis
    using that [of s'] looks_sameD [OF s'(3)] looks_same_view [OF s'(3) cache_okD(1) [OF ok] cache_okD(1) [OF s'(2)]] by simp
qed

lemma guard_read_ok:
  assumes ok: "cache_ok dv rng N n live s" and v: "bg_block g \<in># live" and k: "bg_index g = lv_key (bg_block g)"
    and ix: "bd_index (block_of s (lv_arc (bg_block g))) = bg_index g"
  obtains s' where "guard_read D g s = (Ok (Inr g), s')" "cache_ok dv rng N n live s'" "bview dv s' = bview dv s"
    "bio_device s' = bio_device s" "is_locked s' = is_locked s"
    "block_of s' = (block_of s)(lv_arc (bg_block g) := \<lparr>bd_index = bg_index g, bd_valid = True,
       bd_dirty = (bd_valid (block_of s (lv_arc (bg_block g))) \<and> bd_dirty (block_of s (lv_arc (bg_block g)))),
       bd_data = bview dv s (bg_index g)\<rparr>)" "set (lru_list (bio_lru s')) = set (lru_list (bio_lru s))"
proof -
  let ?a = "lv_arc (bg_block g)"
  have e: "has_entry s (bg_index g) ?a" using lru_okD(5) [OF cache_okD(1) [OF ok] v] by (simp add: k)
  have rng: "rng (bg_index g)" using cache_okD(2) [OF ok e] .
  show thesis
  proof (cases "bd_valid (block_of s ?a)")
    case True
    then have "bview dv s (bg_index g) = bd_data (block_of s ?a)" using bview_hit [OF ok e] ix by simp
    then have "(block_of s)(?a := \<lparr>bd_index = bg_index g, bd_valid = True, bd_dirty = (bd_valid (block_of s ?a) \<and> bd_dirty (block_of s ?a)),
        bd_data = bview dv s (bg_index g)\<rparr>) = block_of s"
      using True ix by (intro fun_upd_idem) (cases "block_of s ?a"; simp)
    moreover obtain s' where "guard_again g s = (Ok g, s')" "cache_ok dv rng N n live s'" "bview dv s' = bview dv s"
      "bio_device s' = bio_device s" "is_locked s' = is_locked s" "block_of s' = block_of s"
      "set (lru_list (bio_lru s')) = set (lru_list (bio_lru s))" using guard_again_view [OF ok v] .
    moreover from this have "guard_read D g s = (Ok (Inr g), s')"
      using True by (simp add: guard_read_def Let_def bio_block_eq cbind_simps)
    ultimately show thesis using that [of s'] by simp
  next
    case False
    define b where "b = (block_of s ?a)\<lparr>bd_valid := True, bd_dirty := False, bd_data := dv (bio_device s) (bg_index g)\<rparr>"
    define t where "t = bio_put (bg_block g) \<lparr>sl_locked = is_locked s ?a, sl_value = b\<rparr> s"
    have t: "cache_ok dv rng N n live t" unfolding t_def using bio_put_ok [OF ok v] length_law [OF rng] by (simp add: b_def)
    have old: "bview dv s (bg_index g) = dv (bio_device s) (bg_index g)" using bview_hit [OF ok e] False by simp
    have view: "bview dv t = bview dv s"
      unfolding t_def bio_put_view [OF ok v] using old ix k by (auto simp: b_def fun_upd_idem_iff)
    have "guard_read D g s = cbind (guard_again g) (\<lambda>g. creturn (Inr g)) t"
      using False read_law [OF rng cache_okD(3) [OF ok], of ?a] by (simp add: guard_read_def Let_def bio_block_eq bio_set_eq t_def b_def)
    moreover obtain s' where s': "guard_again g t = (Ok g, s')" "cache_ok dv rng N n live s'" "bview dv s' = bview dv t"
      "bio_device s' = bio_device t" "is_locked s' = is_locked t" "block_of s' = block_of t"
      "set (lru_list (bio_lru s')) = set (lru_list (bio_lru t))" using guard_again_view [OF t v] .
    moreover have "block_of t = (block_of s)(?a := \<lparr>bd_index = bg_index g, bd_valid = True, bd_dirty = (bd_valid (block_of s ?a) \<and> bd_dirty (block_of s ?a)),
        bd_data = bview dv s (bg_index g)\<rparr>)"
      using False ix old by (simp add: t_def b_def) (cases "block_of s ?a"; simp)
    moreover have "is_locked t = is_locked s" "bio_device t = bio_device s" "lru_list (bio_lru t) = lru_list (bio_lru s)"
      by (simp_all add: t_def fun_upd_idem)
    moreover have "guard_read D g s = (Ok (Inr g), s')" using calculation(1,2) by (simp add: cbind_simps)
    ultimately show thesis using that [of s'] view by simp
  qed
qed

text \<open>A change of the bytes behind a guard, and a whole new content.\<close>

lemma guard_bytes_mut_ok:
  assumes ok: "cache_ok dv rng N n live s" and v: "bg_block g \<in># live" and k: "bg_index g = lv_key (bg_block g)"
    and b: "block_of s (lv_arc (bg_block g)) = b" "bd_index b = bg_index g" "bd_valid b"
    and len: "length (f (bd_data b)) = N"
  obtains s' where "guard_bytes_mut g f s = (Ok (), s')" "cache_ok dv rng N n live s'"
    "bview dv s' = (bview dv s)(bg_index g := f (bview dv s (bg_index g)))"
    "bio_device s' = bio_device s" "is_locked s' = is_locked s"
    "block_of s' = (block_of s)(lv_arc (bg_block g) := b\<lparr>bd_dirty := True, bd_data := f (bd_data b)\<rparr>)" "set (lru_list (bio_lru s')) = set (lru_list (bio_lru s))"
proof -
  let ?m = "\<lparr>sl_locked = is_locked s (lv_arc (bg_block g)), sl_value = b\<lparr>bd_dirty := True, bd_data := f (bd_data b)\<rparr>\<rparr>"
  have e: "has_entry s (bg_index g) (lv_arc (bg_block g))" using lru_okD(5) [OF cache_okD(1) [OF ok] v] by (simp add: k)
  have "bview dv s (bg_index g) = bd_data b" using bview_hit [OF ok e] b by simp
  then show thesis
    using that [of "bio_put (bg_block g) ?m s"] bio_put_ok [OF ok v, of ?m] bio_put_view [OF ok v, of ?m] b len k
    by (simp add: guard_bytes_mut_def Let_def bio_block_eq bio_set_eq)
qed

lemma guard_fill_ok:
  assumes ok: "cache_ok dv rng N n live s" and v: "bg_block g \<in># live" and k: "bg_index g = lv_key (bg_block g)"
    and b: "block_of s (lv_arc (bg_block g)) = b" "bd_index b = bg_index g" and "length data = N"
  obtains s' where
    "guard_again g (bio_set g (b\<lparr>bd_valid := True, bd_dirty := True, bd_data := data\<rparr>) s) = (Ok g, s')" "cache_ok dv rng N n live s'"
    "bview dv s' = (bview dv s)(bg_index g := data)" "bio_device s' = bio_device s" "is_locked s' = is_locked s"
    "block_of s' = (block_of s)(lv_arc (bg_block g) := b\<lparr>bd_valid := True, bd_dirty := True, bd_data := data\<rparr>)" "set (lru_list (bio_lru s')) = set (lru_list (bio_lru s))"
proof -
  let ?m = "\<lparr>sl_locked = is_locked s (lv_arc (bg_block g)), sl_value = b\<lparr>bd_valid := True, bd_dirty := True, bd_data := data\<rparr>\<rparr>"
  let ?t = "bio_put (bg_block g) ?m s"
  have t: "cache_ok dv rng N n live ?t" using bio_put_ok [OF ok v, of ?m] assms(6) by simp
  obtain s' where "guard_again g ?t = (Ok g, s')" "cache_ok dv rng N n live s'" "bview dv s' = bview dv ?t"
      "bio_device s' = bio_device ?t" "is_locked s' = is_locked ?t" "block_of s' = block_of ?t"
      "set (lru_list (bio_lru s')) = set (lru_list (bio_lru ?t))"
    using guard_again_view [OF t v] .
  then show thesis using that [of s'] bio_put_view [OF ok v, of ?m] b k by (simp add: bio_set_eq)
qed

lemma guard_set_data_ok:
  assumes ok: "cache_ok dv rng N n live s" and v: "bg_block g \<in># live" and k: "bg_index g = lv_key (bg_block g)"
    and ix: "bd_index (block_of s (lv_arc (bg_block g))) = bg_index g" and "length data = N"
  obtains s' where
    "guard_set_data data g s = (Ok g, s')" "cache_ok dv rng N n live s'" "bview dv s' = (bview dv s)(bg_index g := data)"
    "bio_device s' = bio_device s" "is_locked s' = is_locked s"
    "block_of s' = (block_of s)(lv_arc (bg_block g) := \<lparr>bd_index = bg_index g, bd_valid = True, bd_dirty = True, bd_data = data\<rparr>)" "set (lru_list (bio_lru s')) = set (lru_list (bio_lru s))"
proof -
  let ?b = "block_of s (lv_arc (bg_block g))"
  have len: "length (bd_data ?b) = N" using cache_okD(3) [OF ok] .
  obtain s' where s': "guard_again g (bio_set g (?b\<lparr>bd_valid := True, bd_dirty := True, bd_data := data\<rparr>) s) = (Ok g, s')"
      "cache_ok dv rng N n live s'" "bview dv s' = (bview dv s)(bg_index g := data)" "bio_device s' = bio_device s"
      "is_locked s' = is_locked s" "block_of s' = (block_of s)(lv_arc (bg_block g) := ?b\<lparr>bd_valid := True, bd_dirty := True, bd_data := data\<rparr>)" "set (lru_list (bio_lru s')) = set (lru_list (bio_lru s))"
    using guard_fill_ok [OF ok v k refl ix assms(5)] .
  moreover have "guard_set_data data g s = (Ok g, s')"
    using s'(1) assms(5) len by (simp add: guard_set_data_def Let_def bio_block_eq cbind_simps)
  moreover have "?b\<lparr>bd_valid := True, bd_dirty := True, bd_data := data\<rparr> = \<lparr>bd_index = bg_index g, bd_valid = True, bd_dirty = True, bd_data = data\<rparr>"
    using ix by (cases ?b) simp
  ultimately show thesis using that [of s'] by simp
qed

lemma guard_zeroed_ok:
  assumes ok: "cache_ok dv rng N n live s" and v: "bg_block g \<in># live" and k: "bg_index g = lv_key (bg_block g)"
    and ix: "bd_index (block_of s (lv_arc (bg_block g))) = bg_index g"
  shows "guard_zeroed g s = guard_set_data (replicate N 0) g s"
  using cache_okD(3) [OF ok] by (simp add: guard_zeroed_def guard_set_data_def Let_def bio_block_eq cbind_simps)

lemma guard_write_ok:
  assumes ok: "cache_ok dv rng N n live s" and v: "bg_block g \<in># live" and k: "bg_index g = lv_key (bg_block g)"
    and b: "block_of s (lv_arc (bg_block g)) = b" "bd_index b = bg_index g" "bd_valid b"
  obtains s' where "guard_write D g s = (Ok (Inr ()), s')" "cache_ok dv rng N n live s'"
    "\<forall>j. rng j \<longrightarrow> bview dv s' j = bview dv s j"
    "\<forall>j. rng j \<longrightarrow> dv (bio_device s') j = (if j = bg_index g then bd_data b else dv (bio_device s) j)"
    "is_locked s' = is_locked s" "block_of s' = (block_of s)(lv_arc (bg_block g) := b\<lparr>bd_dirty := False\<rparr>)"
    "set (lru_list (bio_lru s')) = set (lru_list (bio_lru s))"
proof -
  let ?a = "lv_arc (bg_block g)"
  have e: "has_entry s (bg_index g) ?a" using lru_okD(5) [OF cache_okD(1) [OF ok] v] by (simp add: k)
  have len: "length (bd_data b) = N" using cache_okD(3) [OF ok, of ?a] b(1) by simp
  obtain d' where d': "dev_write D (bg_index g) (bd_data b) (bio_device s) = (Inr (), d')"
      "\<And>j. rng j \<Longrightarrow> dv d' j = (if j = bg_index g then bd_data b else dv (bio_device s) j)"
    using write_law [OF cache_okD(2) [OF ok e] len] by blast
  let ?m = "\<lparr>sl_locked = is_locked s ?a, sl_value = b\<lparr>bd_dirty := False\<rparr>\<rparr>"
  let ?t = "bio_put (bg_block g) ?m s"
  define s' where "s' = ?t\<lparr>bio_device := d'\<rparr>"
  have t: "cache_ok dv rng N n live ?t" using bio_put_ok [OF ok v, of ?m] len by simp
  have sel: "lru_list (bio_lru s') = lru_list (bio_lru ?t)" "bio_lru s' = bio_lru ?t" "block_of s' = block_of ?t" "is_locked s' = is_locked ?t" "bio_device s' = d'"
    by (simp_all add: s'_def)
  have ent: "lru_list (bio_lru ?t) = lru_list (bio_lru s)" by (simp add: bio_put_def lru_put_def)
  have ok': "cache_ok dv rng N n live s'"
    unfolding cache_ok_def sel
  proof (intro conjI allI impI)
    show "lru_ok n live (bio_lru ?t)" by (rule cache_okD(1) [OF t])
    show "rng j" if "has_entry ?t j c" for j c by (rule cache_okD(2) [OF t that])
    show "length (bd_data (block_of ?t c)) = N" for c by (rule cache_okD(3) [OF t])
    fix j c assume j: "(j, c) \<in> set (lru_list (bio_lru ?t))" and fr: "\<forall>v \<in># live. lv_arc v \<noteq> c"
    show "\<not> is_locked ?t c" using cache_okD(4) [OF t j] fr by blast
    assume valid: "bd_valid (block_of ?t c)"
    have cl: "j = Some (bd_index (block_of ?t c))" "bd_data (block_of ?t c) = dv (bio_device ?t) (bd_index (block_of ?t c))"
      using cache_okD(5) [OF t j _ valid] fr by blast+
    have "c \<noteq> ?a" using fr v by blast
    then have "bd_index (block_of ?t c) \<noteq> bg_index g"
      using lru_okD(3) [OF cache_okD(1) [OF ok] e, of c] j cl(1) by (auto simp: ent)
    moreover have "rng (bd_index (block_of ?t c))" using cache_okD(2) [OF t] j cl(1) by blast
    ultimately show "j = Some (bd_index (block_of ?t c))" and "bd_data (block_of ?t c) = dv d' (bd_index (block_of ?t c))"
      using cl d'(2) by auto
  qed
  moreover have "bview dv s' j = bview dv s j" if "rng j" for j
  proof (cases "\<exists>c. has_entry s j c")
    case True
    then obtain c where c: "has_entry s j c" by blast
    then have "has_entry s' j c" by (simp add: sel(1) ent)
    moreover have "c = ?a \<longleftrightarrow> j = bg_index g" using c e lru_okD(3) [OF cache_okD(1) [OF ok], of j c ?a] lru_ok_arc(2) [OF cache_okD(1) [OF ok] e, of "Some j"] by auto
    ultimately show ?thesis using bview_hit [OF ok c] bview_hit [OF ok', of j c] d'(2) [OF that] b sel by auto
  next
    case False
    then have "j \<noteq> bg_index g" "\<And>c. \<not> has_entry s' j c" using e by (auto simp: sel(1) ent)
    then show ?thesis using bview_miss [OF ok, of j] bview_miss [OF ok', of j] False d'(2) [OF that] sel(5) by simp
  qed
  moreover have "guard_write D g s = (Ok (Inr ()), s')"
    using d'(1) b by (simp add: guard_write_def Let_def bio_block_eq bio_set_eq s'_def)
  ultimately show thesis using that [of s'] sel d'(2) by (simp add: fun_upd_idem)
qed

lemma guard_drop_ok:
  assumes ok: "cache_ok dv rng N n (add_mset (bg_block g) live) s" and v: "bg_block g \<in># live"
  obtains s' where "guard_drop g s = (Ok (), s')" "cache_ok dv rng N n live s'" "bview dv s' = bview dv s"
    "bio_device s' = bio_device s" "is_locked s' = (is_locked s)(lv_arc (bg_block g) := False)" "block_of s' = block_of s"
    "set (lru_list (bio_lru s')) = set (lru_list (bio_lru s))"
proof -
  let ?a = "lv_arc (bg_block g)"
  obtain t where t: "bio_release (bg_block g) s = (Ok (), t)" "cache_ok dv rng N n live t" "looks_same s t"
    using bio_release_ok [OF ok v] .
  let ?m = "\<lparr>sl_locked = False, sl_value = block_of t ?a\<rparr>"
  have e: "has_entry t (lv_key (bg_block g)) ?a" using lru_okD(5) [OF cache_okD(1) [OF t(2)] v] .
  have "cache_ok dv rng N n live (bio_put (bg_block g) ?m t)" using bio_put_ok [OF t(2) v, of ?m] cache_okD(3) [OF t(2)] by simp
  moreover have "bview dv (bio_put (bg_block g) ?m t) = bview dv t"
    unfolding bio_put_view [OF t(2) v] using bview_hit [OF t(2) e] by (simp add: fun_upd_idem)
  moreover have "bview dv t = bview dv s" using looks_same_view [OF t(3) cache_okD(1) [OF ok] cache_okD(1) [OF t(2)]] .
  moreover have "guard_drop g s = (Ok (), bio_put (bg_block g) ?m t)"
    using t(1) by (simp add: guard_drop_def cbind_simps bio_block_eq)
  ultimately show thesis using that [of "bio_put (bg_block g) ?m t"] looks_sameD [OF t(3)] by (simp add: fun_upd_idem)
qed

text \<open>A block is taken: its reference and its guard are live, and it is locked under its index.\<close>

lemma take_block:
  assumes ok: "cache_ok dv rng N n live s" and "rng k" and av: "fst (lru_get k (bio_lru s)) \<noteq> None"
    and un: "\<And>a. has_entry s k a \<Longrightarrow> \<not> is_locked s a"
  obtains r g v s1 s' where "bio_get k s = (Ok r, s1)" "ref_lock r s1 = (Ok g, s')" "r = \<lparr>br_index = k, br_block = v\<rparr>"
    "g = \<lparr>bg_index = k, bg_block = v\<rparr>" "lv_key v = k" "cache_ok dv rng N n (add_mset v (add_mset v live)) s'"
    "bview dv s' = bview dv s" "bio_device s' = bio_device s" "is_locked s' = (is_locked s)(lv_arc v := True)"
    "\<not> is_locked s (lv_arc v)" "block_of s' (lv_arc v) = relabel k (block_of s (lv_arc v))"
    "has_entry s k (lv_arc v) \<or> \<not> bd_valid (block_of s' (lv_arc v))" "\<forall>c. c \<noteq> lv_arc v \<longrightarrow> block_of s' c = block_of s c"
    "\<forall>j c. has_entry s' j c \<longrightarrow> has_entry s j c \<or> j = k \<and> c = lv_arc v"
proof -
  obtain a s1 where g: "bio_get k s = (Ok \<lparr>br_index = k, br_block = \<lparr>lv_key = k, lv_arc = a\<rparr>\<rparr>, s1)"
    "cache_ok dv rng N n (add_mset \<lparr>lv_key = k, lv_arc = a\<rparr> live) s1" "bview dv s1 = bview dv s"
    "bio_device s1 = bio_device s" "block_of s1 = block_of s" "is_locked s1 = is_locked s" "is_locked s1 a \<longrightarrow> has_entry s k a"
    "has_entry s k a \<or> \<not> (bd_valid (block_of s a) \<and> bd_index (block_of s a) = k)"
    "\<forall>j c. has_entry s1 j c \<longrightarrow> has_entry s j c \<or> j = k \<and> c = a"
    using bio_get_ok [OF ok assms(2) av] .
  let ?r = "\<lparr>br_index = k, br_block = \<lparr>lv_key = k, lv_arc = a\<rparr>\<rparr>"
  have p: "br_block ?r \<in># add_mset \<lparr>lv_key = k, lv_arc = a\<rparr> live" "br_index ?r = lv_key (br_block ?r)" "\<not> is_locked s1 (lv_arc (br_block ?r))"
    using g(6,7) un [of a] by auto
  obtain s' g where "ref_lock ?r s1 = (Ok g, s')" "g = \<lparr>bg_index = br_index ?r, bg_block = br_block ?r\<rparr>"
    "cache_ok dv rng N n (add_mset (br_block ?r) (add_mset \<lparr>lv_key = k, lv_arc = a\<rparr> live)) s'" "bview dv s' = bview dv s1" "bio_device s' = bio_device s1"
    "is_locked s' = (is_locked s1)(lv_arc (br_block ?r) := True)" "block_of s' (lv_arc (br_block ?r)) = relabel (br_index ?r) (block_of s1 (lv_arc (br_block ?r)))"
    "\<forall>c. c \<noteq> lv_arc (br_block ?r) \<longrightarrow> block_of s' c = block_of s1 c" "set (lru_list (bio_lru s')) = set (lru_list (bio_lru s1))"
    using ref_lock_ok [OF g(2) p] .
  then show thesis using that [of ?r s1 g s' "\<lparr>lv_key = k, lv_arc = a\<rparr>"] g p(3)
    by (simp add: relabel_def split: if_splits) blast
qed

text \<open>A block is given back clean.\<close>

lemma give_block:
  assumes ok: "cache_ok dv rng N n (add_mset v (add_mset v live)) s" and r: "br_block r = v" and g: "bg_block g = v"
    and clean: "bd_index (block_of s (lv_arc v)) = lv_key v" "bd_data (block_of s (lv_arc v)) = dv (bio_device s) (lv_key v)"
  obtains s' where "release_block r g s = (Ok (), s')" "cache_ok dv rng N n live s'" "bview dv s' = bview dv s" "bio_device s' = bio_device s"
    "is_locked s' = (is_locked s)(lv_arc v := False)" "block_of s' = block_of s" "set (lru_list (bio_lru s')) = set (lru_list (bio_lru s))"
proof -
  obtain t where t: "guard_drop g s = (Ok (), t)" "cache_ok dv rng N n (add_mset v live) t" "bview dv t = bview dv s"
    "bio_device t = bio_device s" "is_locked t = (is_locked s)(lv_arc v := False)" "block_of t = block_of s"
    "set (lru_list (bio_lru t)) = set (lru_list (bio_lru s))"
    by (rule guard_drop_ok [of n g "add_mset v live" s, unfolded g, OF ok]) simp_all
  have p: "\<not> is_locked t (lv_arc v)" by (simp add: t(5))
  have q: "bd_valid (block_of t (lv_arc v)) \<Longrightarrow> bd_index (block_of t (lv_arc v)) = lv_key v \<and> bd_data (block_of t (lv_arc v)) = dv (bio_device t) (lv_key v)"
    by (simp add: t(4,6) clean)
  obtain s' where s': "bio_release v t = (Ok (), s')" "cache_ok dv rng N n live s'" "looks_same t s'"
    using bio_release_last [OF t(2) p q] .
  have "bview dv s' = bview dv t" using looks_same_view [OF s'(3) cache_okD(1) [OF t(2)] cache_okD(1) [OF s'(2)]] .
  then show thesis
    using that [of s'] t s' r looks_sameD [OF s'(3)] by (simp add: release_block_def ref_drop_def cbind_simps)
qed

lemma read_block_ok:
  assumes ok: "cache_ok dv rng N n {#} s" and "rng k" and "0 < n" and view: "\<forall>j. rng j \<longrightarrow> bview dv s j = dv (bio_device s) j"
  obtains s' where "read_block D k s = (Ok (Inr (bview dv s k)), s')" "cache_ok dv rng N n {#} s'" "bview dv s' = bview dv s" "bio_device s' = bio_device s"
proof -
  have c: "fst (lru_get k (bio_lru s)) \<noteq> None" using lru_available [OF cache_okD(1) [OF ok]] assms(3) by simp
  have e: "\<And>a. has_entry s k a \<Longrightarrow> \<not> is_locked s a" using cache_okD(4) [OF ok] by simp
  obtain r g v s1 s2 where t: "bio_get k s = (Ok r, s1)" "ref_lock r s1 = (Ok g, s2)" "r = \<lparr>br_index = k, br_block = v\<rparr>"
    "g = \<lparr>bg_index = k, bg_block = v\<rparr>" "lv_key v = k" "cache_ok dv rng N n (add_mset v (add_mset v {#})) s2"
    "bview dv s2 = bview dv s" "bio_device s2 = bio_device s" "is_locked s2 = (is_locked s)(lv_arc v := True)"
    "\<not> is_locked s (lv_arc v)" "block_of s2 (lv_arc v) = relabel k (block_of s (lv_arc v))"
    "has_entry s k (lv_arc v) \<or> \<not> bd_valid (block_of s2 (lv_arc v))" "\<forall>c. c \<noteq> lv_arc v \<longrightarrow> block_of s2 c = block_of s c"
    "\<forall>j c. has_entry s2 j c \<longrightarrow> has_entry s j c \<or> j = k \<and> c = lv_arc v"
    using take_block [OF ok assms(2) c e] .
  have p: "bg_block g \<in># add_mset v (add_mset v {#})" "bg_index g = lv_key (bg_block g)"
      "bd_index (block_of s2 (lv_arc (bg_block g))) = bg_index g" by (simp_all add: t(4,5,11) relabel_def)
  obtain s3 where s3: "guard_read D g s2 = (Ok (Inr g), s3)" "cache_ok dv rng N n (add_mset v (add_mset v {#})) s3" "bview dv s3 = bview dv s2"
    "bio_device s3 = bio_device s2" "is_locked s3 = is_locked s2"
    "block_of s3 = (block_of s2)(lv_arc (bg_block g) := \<lparr>bd_index = bg_index g, bd_valid = True,
       bd_dirty = (bd_valid (block_of s2 (lv_arc (bg_block g))) \<and> bd_dirty (block_of s2 (lv_arc (bg_block g)))),
       bd_data = bview dv s2 (bg_index g)\<rparr>)" "set (lru_list (bio_lru s3)) = set (lru_list (bio_lru s2))"
    using guard_read_ok [OF t(6) p] .
  have q: "br_block r = v" "bg_block g = v" "bd_index (block_of s3 (lv_arc v)) = lv_key v" "bd_data (block_of s3 (lv_arc v)) = dv (bio_device s3) (lv_key v)"
    using assms(2) view by (simp_all add: t(3-5,7,8) s3(4,6))
  obtain s4 where s4: "release_block r g s3 = (Ok (), s4)" "cache_ok dv rng N n {#} s4" "bview dv s4 = bview dv s3" "bio_device s4 = bio_device s3"
    "is_locked s4 = (is_locked s3)(lv_arc v := False)" "block_of s4 = block_of s3" "set (lru_list (bio_lru s4)) = set (lru_list (bio_lru s3))"
    using give_block [OF s3(2) q] .
  have "bd_data (block_of s3 (lv_arc (bg_block g))) = bview dv s k" by (simp add: s3(6) t(4,7))
  then have "read_block D k s = (Ok (Inr (bview dv s k)), s4)"
    using t(1,2) s3(1) s4(1) by (simp add: read_block_def cbind_simps guard_bytes_def bio_block_eq)
  then show thesis using that [of s4] s4(2-4) s3(3,4) t(7,8) by simp
qed

lemma write_block_ok:
  assumes ok: "cache_ok dv rng N n {#} s" and "rng k" and "0 < n" and len: "length data = N"
    and view: "\<forall>j. rng j \<longrightarrow> bview dv s j = dv (bio_device s) j"
  obtains s' where "write_block D k data s = (Ok (Inr ()), s')" "cache_ok dv rng N n {#} s'"
    "\<forall>j. rng j \<longrightarrow> bview dv s' j = ((bview dv s)(k := data)) j"
    "\<forall>j. rng j \<longrightarrow> dv (bio_device s') j = (if j = k then data else dv (bio_device s) j)"
proof -
  have c: "fst (lru_get k (bio_lru s)) \<noteq> None" using lru_available [OF cache_okD(1) [OF ok]] assms(3) by simp
  have e: "\<And>a. has_entry s k a \<Longrightarrow> \<not> is_locked s a" using cache_okD(4) [OF ok] by simp
  obtain r g v s1 s2 where t: "bio_get k s = (Ok r, s1)" "ref_lock r s1 = (Ok g, s2)" "r = \<lparr>br_index = k, br_block = v\<rparr>"
    "g = \<lparr>bg_index = k, bg_block = v\<rparr>" "lv_key v = k" "cache_ok dv rng N n (add_mset v (add_mset v {#})) s2"
    "bview dv s2 = bview dv s" "bio_device s2 = bio_device s" "is_locked s2 = (is_locked s)(lv_arc v := True)"
    "\<not> is_locked s (lv_arc v)" "block_of s2 (lv_arc v) = relabel k (block_of s (lv_arc v))"
    "has_entry s k (lv_arc v) \<or> \<not> bd_valid (block_of s2 (lv_arc v))" "\<forall>c. c \<noteq> lv_arc v \<longrightarrow> block_of s2 c = block_of s c"
    "\<forall>j c. has_entry s2 j c \<longrightarrow> has_entry s j c \<or> j = k \<and> c = lv_arc v"
    using take_block [OF ok assms(2) c e] .
  have p: "bg_block g \<in># add_mset v (add_mset v {#})" "bg_index g = lv_key (bg_block g)"
      "bd_index (block_of s2 (lv_arc (bg_block g))) = bg_index g" by (simp_all add: t(4,5,11) relabel_def)
  let ?b = "\<lparr>bd_index = bg_index g, bd_valid = True, bd_dirty = True, bd_data = data\<rparr>"
  obtain s3 where s3: "guard_set_data data g s2 = (Ok g, s3)" "cache_ok dv rng N n (add_mset v (add_mset v {#})) s3"
    "bview dv s3 = (bview dv s2)(bg_index g := data)" "bio_device s3 = bio_device s2" "is_locked s3 = is_locked s2"
    "block_of s3 = (block_of s2)(lv_arc (bg_block g) := ?b)" "set (lru_list (bio_lru s3)) = set (lru_list (bio_lru s2))"
    using guard_set_data_ok [OF t(6) p len] .
  have b: "block_of s3 (lv_arc (bg_block g)) = ?b" "bd_index ?b = bg_index g" "bd_valid ?b" by (simp_all add: s3(6))
  obtain s4 where s4: "guard_write D g s3 = (Ok (Inr ()), s4)" "cache_ok dv rng N n (add_mset v (add_mset v {#})) s4"
    "\<forall>j. rng j \<longrightarrow> bview dv s4 j = bview dv s3 j"
    "\<forall>j. rng j \<longrightarrow> dv (bio_device s4) j = (if j = bg_index g then bd_data ?b else dv (bio_device s3) j)"
    "is_locked s4 = is_locked s3" "block_of s4 = (block_of s3)(lv_arc (bg_block g) := ?b\<lparr>bd_dirty := False\<rparr>)"
    "set (lru_list (bio_lru s4)) = set (lru_list (bio_lru s3))"
    using guard_write_ok [OF s3(2) p(1,2) b] .
  have q: "br_block r = v" "bg_block g = v" "bd_index (block_of s4 (lv_arc v)) = lv_key v" "bd_data (block_of s4 (lv_arc v)) = dv (bio_device s4) (lv_key v)"
    using s4(4) assms(2) by (simp_all add: t(3-5) s4(6))
  obtain s5 where s5: "release_block r g s4 = (Ok (), s5)" "cache_ok dv rng N n {#} s5" "bview dv s5 = bview dv s4" "bio_device s5 = bio_device s4"
    "is_locked s5 = (is_locked s4)(lv_arc v := False)" "block_of s5 = block_of s4" "set (lru_list (bio_lru s5)) = set (lru_list (bio_lru s4))"
    using give_block [OF s4(2) q] .
  have "write_block D k data s = (Ok (Inr ()), s5)"
    using t(1,2) s3(1) s4(1) s5(1) by (simp add: write_block_def cbind_simps)
  then show thesis using that [of s5] s5(2-4) s4(3,4) s3(3,4) t(4,7,8) by simp
qed

end

section \<open>The disk of the kernel\<close>

text \<open>
  \<^verbatim>\<open>VirtioDiskDevice\<close> of \<^verbatim>\<open>fs/block_io.rs\<close>: a block is at its index times the block size. The disk behind the
  driver is a byte store.
\<close>

definition FS_BLOCK_SIZE :: usize where "FS_BLOCK_SIZE = 1024"

definition virtio_read :: "usize \<Rightarrow> u8 list \<Rightarrow> memory \<Rightarrow> ('e + unit) \<times> u8 list \<times> memory" where
  "virtio_read block_index data disk = (Inr (), mem_read disk (block_index * FS_BLOCK_SIZE) (length data), disk)"

definition virtio_write :: "usize \<Rightarrow> u8 list \<Rightarrow> memory \<Rightarrow> ('e + unit) \<times> memory" where
  "virtio_write block_index data disk = (Inr (), mem_write disk (block_index * FS_BLOCK_SIZE) data)"

definition virtio_disk :: "(memory, 'e) block_device" where
  "virtio_disk = \<lparr>dev_read = virtio_read, dev_write = virtio_write\<rparr>"

definition disk_block :: "memory \<Rightarrow> usize \<Rightarrow> u8 list" where
  "disk_block disk k = mem_read disk (k * FS_BLOCK_SIZE) 1024"

text \<open>Block numbers have 32 bits.\<close>

definition block_no_range :: "usize \<Rightarrow> bool" where
  "block_no_range k \<longleftrightarrow> unat k < 2 ^ 32"

lemma disk_blocks_apart:
  assumes "block_no_range i" and "block_no_range j" and "i \<noteq> j"
  shows "apart (i * FS_BLOCK_SIZE) 1024 (j * FS_BLOCK_SIZE) 1024"
proof -
  have u: "unat (k * FS_BLOCK_SIZE) = unat k * 1024" if "block_no_range k" for k
    using that by (simp add: FS_BLOCK_SIZE_def block_no_range_def unat_word_ariths)
  have "unat i \<noteq> unat j" using assms(3) by (simp add: word_unat_eq_iff)
  then show ?thesis using assms(1,2) by (intro apart_blocks) (auto simp: u block_no_range_def)
qed

interpretation vd: infallible_device "virtio_disk :: (memory, 'e) block_device" disk_block block_no_range 1024
proof
  show "dev_read virtio_disk i buf d = ((Inr () :: 'e + unit), disk_block d i, d)" if "length buf = 1024" for i buf d
    using that by (simp add: virtio_disk_def virtio_read_def disk_block_def)
  show "length (disk_block d i) = 1024" for d i by (simp add: disk_block_def)
  show "\<exists>d'. dev_write virtio_disk i buf d = ((Inr () :: 'e + unit), d') \<and> (\<forall>j. block_no_range j \<longrightarrow> disk_block d' j = (if j = i then buf else disk_block d j))"
    if "block_no_range i" "length buf = 1024" for i buf d
    using that disk_blocks_apart [of i] by (auto simp: virtio_disk_def virtio_write_def disk_block_def mem_read_write_same mem_read_write_apart)
qed

section \<open>Accesses without a hit\<close>

text \<open>A reference that is taken and dropped without a lock.\<close>

definition touch_block :: "usize \<Rightarrow> ('d, unit) bio_call" where
  "touch_block k = cbind (bio_get k) ref_drop"

lemma extract_key_at: "\<forall>e \<in> set xs. fst e \<noteq> Some key \<Longrightarrow> extract_key key (xs @ (Some key, a) # ys) = Some ((Some key, a), xs @ ys)"
  by (induction xs) auto

lemma find_key_None: "\<forall>e \<in> set xs. fst e \<noteq> Some key \<Longrightarrow> find (\<lambda>e. fst e = Some key) xs = None"
  by (auto simp: find_None_iff)

lemma find_key_at: "\<forall>e \<in> set xs. fst e \<noteq> Some key \<Longrightarrow> find (\<lambda>e. fst e = Some key) (xs @ (Some key, a) # ys) = Some (Some key, a)"
  by (induction xs) auto

text \<open>A cache by its parts, and the steps of an access on it.\<close>

definition cache_at :: "'d \<Rightarrow> usize lru_entry list \<Rightarrow> (nat \<Rightarrow> nat) \<Rightarrow> (nat \<Rightarrow> block_data sleep_lock) \<Rightarrow> 'd block_io_cache" where
  "cache_at d l st vs = \<lparr>bio_device = d, bio_lru = \<lparr>lru_list = l, lru_strong = st, lru_vals = vs\<rparr>\<rparr>"

lemmas bio_eval = cache_at_def cbind_def bio_get_def try_get_def lru_get_def lru_promote_def lru_drop_def lru_clone_def arc_clone_def arc_drop_def
  ref_lock_def guard_read_def guard_write_def guard_set_data_def guard_again_def guard_drop_def guard_bytes_def release_block_def ref_drop_def
  bio_clone_def bio_release_def bio_put_def bio_set_def bio_block_def bio_mutex_def lru_put_def lru_value_def Let_def

lemma touch_miss:
  assumes "st c = 1" and "\<forall>e \<in> set (ys @ [(old, c)]). fst e \<noteq> Some j"
  shows "touch_block j (cache_at d (ys @ [(old, c)]) st vs) = (Ok (), cache_at d ((Some j, c) # ys) st vs)"
  using assms extract_key_at [of ys j c "[]"] find_key_None [of "ys @ [(old, c)]" j]
  by (simp add: touch_block_def bio_eval fun_upd_idem)

lemma touch_hit:
  assumes "\<forall>e \<in> set xs. fst e \<noteq> Some j"
  shows "touch_block j (cache_at d (xs @ (Some j, c) # ys) st vs) = (Ok (), cache_at d ((Some j, c) # xs @ ys) st vs)"
  using assms extract_key_at [of xs j c ys] find_key_at [of xs j c ys]
  by (simp add: touch_block_def bio_eval fun_upd_idem)

lemma read_miss_valid:
  assumes "st c = 1" and "\<forall>e \<in> set (ys @ [(old, c)]). fst e \<noteq> Some j" and "vs c = \<lparr>sl_locked = False, sl_value = b\<rparr>" and "bd_valid b" and "bd_index b = j"
  shows "\<exists>s'. read_block D j (cache_at d (ys @ [(old, c)]) st vs) = (Ok (Inr (bd_data b)), s') \<and> bio_device s' = d"
  using assms extract_key_at [of ys j c "[]"] find_key_None [of "ys @ [(old, c)]" j]
  by (simp add: read_block_def bio_eval fun_upd_idem relabel_def)

context infallible_device
begin

text \<open>A read and a write of a block that is not cached use the last buffer, which comes to the front, and no other one.\<close>

lemma read_miss:
  assumes "st c = 1" and "\<forall>e \<in> set (ys @ [(old, c)]). fst e \<noteq> Some j" and "\<not> sl_locked (vs c)" and "rng j" and "length (bd_data (sl_value (vs c))) = N"
  shows "\<exists>b bytes. read_block D j (cache_at d (ys @ [(old, c)]) st vs) =
    (Ok (Inr bytes), cache_at d ((Some j, c) # ys) st (vs(c := \<lparr>sl_locked = False, sl_value = b\<rparr>))) \<and> length (bd_data b) = N \<and> bd_valid b"
proof -
  obtain b where b: "vs c = \<lparr>sl_locked = False, sl_value = b\<rparr>" "length (bd_data b) = N" using assms(3,5) by (cases "vs c") simp
  have r: "dev_read D j (bd_data b) d = (Inr (), dv d j, d)" using read_law [OF assms(4) b(2)] .
  have "vs(c := \<lparr>sl_locked = False, sl_value = b\<rparr>) = vs" using b(1) by (simp add: fun_upd_idem)
  then have v: "\<exists>b'. vs = vs(c := \<lparr>sl_locked = False, sl_value = b'\<rparr>) \<and> length (bd_data b') = N \<and> bd_valid b'" if "bd_valid b" using that b(2) by metis
  show ?thesis
  using assms(1,2,4) b r v extract_key_at [of ys j c "[]"] find_key_None [of "ys @ [(old, c)]" j] length_law [OF assms(4), of d]
  by (cases "bd_valid b \<and> bd_index b = j") (auto simp: read_block_def bio_eval fun_upd_idem relabel_def)
qed

lemma write_miss:
  assumes "st c = 1" and "\<forall>e \<in> set (ys @ [(old, c)]). fst e \<noteq> Some j" and "\<not> sl_locked (vs c)" and "rng j" and "length (bd_data (sl_value (vs c))) = N"
    and "length new = N"
  shows "\<exists>b d'. write_block D j new (cache_at d (ys @ [(old, c)]) st vs) =
    (Ok (Inr ()), cache_at d' ((Some j, c) # ys) st (vs(c := \<lparr>sl_locked = False, sl_value = b\<rparr>))) \<and> length (bd_data b) = N \<and> dv d' j = new"
proof -
  obtain b where b: "vs c = \<lparr>sl_locked = False, sl_value = b\<rparr>" "length (bd_data b) = N" using assms(3,5) by (cases "vs c") simp
  obtain d' where w: "dev_write D j new d = (Inr (), d')" "dv d' j = new" using write_law [OF assms(4,6), of d] assms(4) by auto
  show ?thesis
  using assms(1,2,4,6) b w extract_key_at [of ys j c "[]"] find_key_None [of "ys @ [(old, c)]" j]
  by (cases "bd_index b = j") (auto simp: write_block_def bio_eval fun_upd_idem relabel_def)
qed


text \<open>Reads of as many blocks that are not cached as there are buffers in the second part leave the buffers of the first part alone.\<close>

lemma reads_fill:
  assumes "distinct js" and "\<forall>j \<in> set js. rng j \<and> Some j \<notin> fst ` set (fr @ rest)" and "length rest = length js"
    and "distinct (map snd (fr @ rest))" and "\<forall>c \<in> snd ` set rest. st c = 1 \<and> \<not> sl_locked (vs c) \<and> length (bd_data (sl_value (vs c))) = N"
  shows "\<exists>zs vs'. cforeach (\<lambda>j. cbind (read_block D j) (\<lambda>_. creturn ())) js (cache_at d (fr @ rest) st vs) = (Ok (), cache_at d (zs @ fr) st vs') \<and>
    fst ` set zs = Some ` set js \<and> (\<forall>c \<in> snd ` set fr. vs' c = vs c)"
  using assms
proof (induction js arbitrary: fr rest vs)
  case (Cons j js)
  obtain rest' old c where rest: "rest = rest' @ [(old, c)]" using Cons.prems(3) by (cases rest rule: rev_exhaust) auto
  have "Some j \<notin> fst ` set ((fr @ rest') @ [(old, c)])" using Cons.prems(2) by (simp add: rest)
  then have j: "\<forall>e \<in> set ((fr @ rest') @ [(old, c)]). fst e \<noteq> Some j" by (metis image_eqI)
  have c: "st c = 1" "\<not> sl_locked (vs c)" "rng j" "length (bd_data (sl_value (vs c))) = N" using Cons.prems(2,5) by (auto simp: rest)
  obtain b bytes where r: "read_block D j (cache_at d (fr @ rest) st vs) =
      (Ok (Inr bytes), cache_at d (((Some j, c) # fr) @ rest') st (vs(c := \<lparr>sl_locked = False, sl_value = b\<rparr>)))"
    using read_miss [where ys = "fr @ rest'" and st = st and vs = vs and d = d, OF c(1) j c(2-4)] by (auto simp: rest)
  let ?vs = "vs(c := \<lparr>sl_locked = False, sl_value = b\<rparr>)"
  have nc: "c \<notin> snd ` set rest'" "c \<notin> snd ` set fr" using Cons.prems(4) by (auto simp: rest)
  have "\<exists>zs vs'. cforeach (\<lambda>j. cbind (read_block D j) (\<lambda>_. creturn ())) js (cache_at d (((Some j, c) # fr) @ rest') st ?vs) =
      (Ok (), cache_at d (zs @ (Some j, c) # fr) st vs') \<and> fst ` set zs = Some ` set js \<and> (\<forall>c \<in> snd ` set ((Some j, c) # fr). vs' c = ?vs c)"
  proof (rule Cons.IH)
    show "distinct js" "length rest' = length js" using Cons.prems(1,3) by (simp_all add: rest)
    show "distinct (map snd (((Some j, c) # fr) @ rest'))" using Cons.prems(4) by (auto simp: rest)
    show "\<forall>i \<in> set js. rng i \<and> Some i \<notin> fst ` set (((Some j, c) # fr) @ rest')" using Cons.prems(1,2) by (auto simp: rest)
    show "\<forall>e \<in> snd ` set rest'. st e = 1 \<and> \<not> sl_locked (?vs e) \<and> length (bd_data (sl_value (?vs e))) = N"
      using Cons.prems(5) nc by (auto simp: rest)
  qed
  then obtain zs vs' where z: "cforeach (\<lambda>j. cbind (read_block D j) (\<lambda>_. creturn ())) js (cache_at d (((Some j, c) # fr) @ rest') st ?vs) =
      (Ok (), cache_at d (zs @ (Some j, c) # fr) st vs')" "fst ` set zs = Some ` set js" "\<forall>c \<in> snd ` set ((Some j, c) # fr). vs' c = ?vs c"
    by blast
  have "cforeach (\<lambda>j. cbind (read_block D j) (\<lambda>_. creturn ())) (j # js) (cache_at d (fr @ rest) st vs) = (Ok (), cache_at d ((zs @ [(Some j, c)]) @ fr) st vs')"
    using r z(1) by (simp add: cbind_simps)
  moreover have "fst ` set (zs @ [(Some j, c)]) = Some ` set (j # js)" using z(2) by simp
  moreover have "\<forall>e \<in> snd ` set fr. vs' e = vs e" using z(3) nc(2) by auto
  ultimately show ?case by blast
qed auto

text \<open>
  The last buffer holds block \<open>i\<close>. A reference to block \<open>k\<close> moves it to \<open>k\<close>, block \<open>i\<close> is written through another buffer, which is recycled later on,
  and the next read of \<open>i\<close> gets the old buffer back.
\<close>

lemma stale_read:
  assumes l: "distinct (map snd (xs @ [(o', b), (Some i, a)]))" and keys: "Some k \<notin> fst ` set (xs @ [(o', b), (Some i, a)])" "Some i \<notin> fst ` set (xs @ [(o', b)])"
    and js: "distinct js" "k \<notin> set js" "\<forall>j \<in> set js. rng j \<and> Some j \<notin> fst ` set (xs @ [(o', b), (Some i, a)])" "Suc (length xs) = length js"
    and q: "\<forall>c \<in> snd ` set (xs @ [(o', b), (Some i, a)]). st c = 1 \<and> \<not> sl_locked (vs c) \<and> length (bd_data (sl_value (vs c))) = N"
    and v: "bd_valid (sl_value (vs a))" "bd_index (sl_value (vs a)) = i" and r: "rng i" and new: "length new = N"
  shows "\<exists>s'. cbind (touch_block k) (\<lambda>_. cbind (write_block D i new) (\<lambda>_. cbind (touch_block k) (\<lambda>_.
      cbind (cforeach (\<lambda>j. cbind (read_block D j) (\<lambda>_. creturn ())) js) (\<lambda>_. read_block D i))))
      (cache_at d (xs @ [(o', b), (Some i, a)]) st vs) = (Ok (Inr (bd_data (sl_value (vs a)))), s') \<and> dv (bio_device s') i = new"
proof -
  have ki: "k \<noteq> i" "i \<notin> set js" "k \<notin> set js" "a \<noteq> b" "a \<notin> snd ` set xs" "b \<notin> snd ` set xs" using keys js l by auto
  have t1: "touch_block k (cache_at d (xs @ [(o', b), (Some i, a)]) st vs) = (Ok (), cache_at d ((Some k, a) # xs @ [(o', b)]) st vs)"
    using touch_miss [of st a "xs @ [(o', b)]" "Some i" k d vs] q keys(1) by force
  have "\<forall>e \<in> set (((Some k, a) # xs) @ [(o', b)]). fst e \<noteq> Some i" using keys(2) ki(1) by force
  then obtain b' d' where w: "write_block D i new (cache_at d ((Some k, a) # xs @ [(o', b)]) st vs) =
      (Ok (Inr ()), cache_at d' ((Some i, b) # (Some k, a) # xs) st (vs(b := \<lparr>sl_locked = False, sl_value = b'\<rparr>)))" "length (bd_data b') = N" "dv d' i = new"
    using write_miss [of st b "(Some k, a) # xs" o' i vs new d] q r new by auto
  let ?vs = "vs(b := \<lparr>sl_locked = False, sl_value = b'\<rparr>)"
  have t2: "touch_block k (cache_at d' ((Some i, b) # (Some k, a) # xs) st ?vs) = (Ok (), cache_at d' ([(Some k, a)] @ (Some i, b) # xs) st ?vs)"
    using touch_hit [of "[(Some i, b)]" k d' a xs st ?vs] ki(1) by auto
  have "\<exists>zs vs'. cforeach (\<lambda>j. cbind (read_block D j) (\<lambda>_. creturn ())) js (cache_at d' ([(Some k, a)] @ (Some i, b) # xs) st ?vs) =
      (Ok (), cache_at d' (zs @ [(Some k, a)]) st vs') \<and> fst ` set zs = Some ` set js \<and> (\<forall>c \<in> snd ` set [(Some k, a)]. vs' c = ?vs c)"
    by (rule reads_fill) (use js l q w(2) ki in auto)
  then obtain zs vs' where f: "cforeach (\<lambda>j. cbind (read_block D j) (\<lambda>_. creturn ())) js (cache_at d' ([(Some k, a)] @ (Some i, b) # xs) st ?vs) =
      (Ok (), cache_at d' (zs @ [(Some k, a)]) st vs')" "fst ` set zs = Some ` set js" "vs' a = vs a" using ki(4) by auto
  have "Some i \<notin> fst ` set (zs @ [(Some k, a)])" using f(2) ki(1,2) by auto
  then have e: "\<forall>e \<in> set (zs @ [(Some k, a)]). fst e \<noteq> Some i" by (metis image_eqI)
  have va: "vs' a = \<lparr>sl_locked = False, sl_value = sl_value (vs a)\<rparr>" "st a = 1" using f(3) q by (cases "vs a"; simp)+
  obtain s' where "read_block D i (cache_at d' (zs @ [(Some k, a)]) st vs') = (Ok (Inr (bd_data (sl_value (vs a)))), s')" "bio_device s' = d'"
    using read_miss_valid [where ys = zs and st = st and vs = vs' and d = d', OF va(2) e va(1) v] by blast
  then show ?thesis using t1 w(1,3) t2 f(1) by (simp add: cbind_simps)
qed

end

section \<open>Properties\<close>

text \<open>A client's uses of the cache, and what they do to an array of blocks.\<close>

datatype bio_use = ReadBlock usize | WriteBlock usize "u8 list"

fun bio_use_ok :: "(usize \<Rightarrow> bool) \<Rightarrow> nat \<Rightarrow> bio_use \<Rightarrow> bool" where
  "bio_use_ok rng N (ReadBlock k) = rng k"
| "bio_use_ok rng N (WriteBlock k data) = (rng k \<and> length data = N)"

fun bio_use_call :: "('d, 'e) block_device \<Rightarrow> bio_use \<Rightarrow> ('d, 'e + u8 list) bio_call" where
  "bio_use_call D (ReadBlock k) = read_block D k"
| "bio_use_call D (WriteBlock k data) = cbind (write_block D k data) (\<lambda>r. creturn (map_sum id (\<lambda>_. []) r))"

primrec bio_run :: "('d, 'e) block_device \<Rightarrow> bio_use list \<Rightarrow> ('d, ('e + u8 list) list) bio_call" where
  "bio_run D [] = creturn []"
| "bio_run D (u # us) = cbind (bio_use_call D u) (\<lambda>r. cbind (bio_run D us) (\<lambda>rs. creturn (r # rs)))"

fun array_use :: "bio_use \<Rightarrow> (usize \<Rightarrow> u8 list) \<Rightarrow> u8 list \<times> (usize \<Rightarrow> u8 list)" where
  "array_use (ReadBlock k) m = (m k, m)"
| "array_use (WriteBlock k data) m = ([], m(k := data))"

primrec array_run :: "bio_use list \<Rightarrow> (usize \<Rightarrow> u8 list) \<Rightarrow> u8 list list \<times> (usize \<Rightarrow> u8 list)" where
  "array_run [] m = ([], m)"
| "array_run (u # us) m = (let (r, m) = array_use u m; (rs, m) = array_run us m in (r # rs, m))"

context infallible_device
begin

lemma bio_run_ok:
  assumes "cache_ok dv rng N n {#} s" and "0 < n" and "list_all (bio_use_ok rng N) us"
    and "\<forall>j. rng j \<longrightarrow> bview dv s j = dv (bio_device s) j" and "\<forall>j. rng j \<longrightarrow> m j = dv (bio_device s) j"
  shows "\<exists>s'. bio_run D us s = (Ok (map Inr (fst (array_run us m))), s') \<and>
    (\<forall>j. rng j \<longrightarrow> dv (bio_device s') j = snd (array_run us m) j)"
  using assms
proof (induction us arbitrary: s m)
  case (Cons u us)
  show ?case
  proof (cases u)
    case (ReadBlock k)
    then have k: "rng k" using Cons.prems(3) by simp
    obtain t where t: "read_block D k s = (Ok (Inr (bview dv s k)), t)" "cache_ok dv rng N n {#} t" "bview dv t = bview dv s" "bio_device t = bio_device s"
      using read_block_ok [OF Cons.prems(1) k Cons.prems(2,4)] .
    obtain s' where "bio_run D us t = (Ok (map Inr (fst (array_run us m))), s')" "\<forall>j. rng j \<longrightarrow> dv (bio_device s') j = snd (array_run us m) j"
      using Cons.IH [of t m] Cons.prems t(2-4) by auto
    then show ?thesis using t(1) ReadBlock k Cons.prems(4,5) by (simp add: cbind_simps Let_def split_beta)
  next
    case (WriteBlock k data)
    then have k: "rng k" "length data = N" using Cons.prems(3) by simp_all
    obtain t where t: "write_block D k data s = (Ok (Inr ()), t)" "cache_ok dv rng N n {#} t"
        "\<forall>j. rng j \<longrightarrow> bview dv t j = ((bview dv s)(k := data)) j" "\<forall>j. rng j \<longrightarrow> dv (bio_device t) j = (if j = k then data else dv (bio_device s) j)"
      using write_block_ok [OF Cons.prems(1) k(1) Cons.prems(2) k(2) Cons.prems(4)] .
    have p: "list_all (bio_use_ok rng N) us" "\<forall>j. rng j \<longrightarrow> bview dv t j = dv (bio_device t) j"
        "\<forall>j. rng j \<longrightarrow> (m(k := data)) j = dv (bio_device t) j"
      using Cons.prems(3-5) t(3,4) by simp_all
    obtain s' where "bio_run D us t = (Ok (map Inr (fst (array_run us (m(k := data))))), s')"
        "\<forall>j. rng j \<longrightarrow> dv (bio_device s') j = snd (array_run us (m(k := data))) j"
      using Cons.IH [OF t(2) Cons.prems(2) p] by blast
    then show ?thesis using t(1) WriteBlock by (simp add: cbind_simps Let_def split_beta)
  qed
qed simp

end

lemma bio_new_ok:
  assumes "bio_new N d n = Ok s"
  shows "cache_ok dv rng N n {#} s" and "bview dv s = dv d" and "bio_device s = d" and "0 < n"
proof -
  obtain l where l: "lru_new \<lparr>sl_locked = False, sl_value = block_data_default N\<rparr> n = (Ok l :: (block_lru, 'b) outcome)" "s = \<lparr>bio_device = d, bio_lru = l\<rparr>"
    using assms by (auto simp: bio_new_def)
  then have v: "lru_list l = map (\<lambda>a. (None, a)) [0..<n]" "lru_vals l = (\<lambda>_. \<lparr>sl_locked = False, sl_value = block_data_default N\<rparr>)" and n: "0 < n"
    by (auto simp: lru_new_def)
  then show "cache_ok dv rng N n {#} s" using lru_new_ok [OF l(1)] l(2)
    by (auto simp: cache_ok_def block_of_def is_locked_def block_data_default_def)
  show "bio_device s = d" "0 < n" using l(2) n by simp_all
  have "map_of (lru_list l) (Some k) = None" for k by (auto simp: map_of_eq_None_iff v(1))
  then show "bview dv s = dv d" using l(2) by (auto simp: bview_def fun_eq_iff)
qed

text \<open>
  C5. Through a cache of any size, over a device that does not fail, every sequence of reads and
  written-through writes returns what it returns on a plain array of blocks, and leaves the device with
  the contents of that array. No call panics or waits.
\<close>

theorem cache_transparent:
  assumes "infallible_device D dv rng N" and "bio_new N d n = Ok s" and "list_all (bio_use_ok rng N) us"
  shows "\<exists>s'. bio_run D us s = (Ok (map Inr (fst (array_run us (dv d)))), s') \<and>
    (\<forall>j. rng j \<longrightarrow> dv (bio_device s') j = snd (array_run us (dv d)) j)"
  using infallible_device.bio_run_ok [OF assms(1) bio_new_ok(1) [OF assms(2)] bio_new_ok(4) [OF assms(2)] assms(3)] bio_new_ok [OF assms(2)]
  by simp

theorem cache_transparent_witness:
  "\<exists>s s'. bio_new 1024 (\<lambda>_. 0) 2 = (Ok s :: (memory block_io_cache, unit) outcome) \<and>
    bio_run (virtio_disk :: (memory, unit) block_device)
      [WriteBlock 7 (replicate 1024 1), ReadBlock 3, ReadBlock 4, ReadBlock 7] s =
      (Ok (map Inr [[], disk_block (\<lambda>_. 0) 3, disk_block (\<lambda>_. 0) 4, replicate 1024 1]), s')"
proof -
  obtain s :: "memory block_io_cache" where s: "bio_new 1024 (\<lambda>_. 0) 2 = (Ok s :: (memory block_io_cache, unit) outcome)"
    by (simp add: bio_new_def lru_new_def)
  have "list_all (bio_use_ok block_no_range 1024) [WriteBlock 7 (replicate 1024 1), ReadBlock 3, ReadBlock 4, ReadBlock 7]"
    by (simp add: block_no_range_def)
  from cache_transparent [OF vd.infallible_device_axioms s this] show ?thesis
    using s by (auto simp: Let_def)
qed

text \<open>
  C37. A read that the device fails marks the buffer valid all the same: the next read of the block does
  not go to the device and returns whatever the failed read left in the buffer.
\<close>

theorem failed_read_is_cached:
  assumes "\<not> bd_valid (bio_block g s)" and "dev_read D (bg_index g) (bd_data (bio_block g s)) (bio_device s) = (Inl e, data, d)"
  shows "\<exists>s' s''. guard_read D g s = (Ok (Inl (g, e)), s') \<and> bio_device s' = d \<and>
    guard_read D g s' = (Ok (Inr g), s'') \<and> bio_device s'' = d \<and> guard_bytes g s'' = (Ok data, s'')"
proof -
  let ?s = "bio_set g ((bio_block g s)\<lparr>bd_valid := True, bd_dirty := False, bd_data := data\<rparr>) (s\<lparr>bio_device := d\<rparr>)"
  have "guard_read D g s = (Ok (Inl (g, e)), ?s)" using assms by (simp add: guard_read_def Let_def)
  moreover have b: "bio_block g ?s = (bio_block g s)\<lparr>bd_valid := True, bd_dirty := False, bd_data := data\<rparr>" "bio_device ?s = d"
    by (simp_all add: bio_block_eq bio_set_def)
  moreover have "\<exists>s''. guard_again g ?s = (Ok g, s'') \<and> bio_device s'' = bio_device ?s \<and> bio_block g s'' = bio_block g ?s"
    by (cases g; cases "bg_block g") (simp add: guard_again_def cbind_def bio_clone_def lru_clone_def bio_release_def bio_block_def
        bio_mutex_def lru_value_def lru_drop_def arc_drop_def arc_clone_def lru_promote_def split: option.splits)
  then obtain s'' where s'': "guard_again g ?s = (Ok g, s'')" "bio_device s'' = bio_device ?s" "bio_block g s'' = bio_block g ?s" by blast
  moreover have "guard_read D g ?s = (Ok (Inr g), s'')" using s''(1) b(1) by (simp add: guard_read_def Let_def cbind_simps)
  ultimately show ?thesis by (simp add: guard_bytes_def)
qed

text \<open>A device that fails its first read half way.\<close>

definition flaky_disk :: "(bool, unit) block_device" where
  "flaky_disk = \<lparr>dev_read = (\<lambda>i buf d. if d then (Inl (), [9, 0], False) else (Inr (), [9, 9], False)), dev_write = (\<lambda>i buf d. (Inr (), d))\<rparr>"

definition example_guard :: block_guard where
  "example_guard = \<lparr>bg_index = 5, bg_block = \<lparr>lv_key = 5, lv_arc = 0\<rparr>\<rparr>"

definition example_cache :: "'d \<Rightarrow> 'd block_io_cache" where
  "example_cache d = \<lparr>bio_device = d, bio_lru = \<lparr>lru_list = [(Some 5, 0)], lru_strong = (\<lambda>_. 3),
     lru_vals = (\<lambda>_. \<lparr>sl_locked = True, sl_value = (block_data_default 2)\<lparr>bd_index := 5\<rparr>\<rparr>)\<rparr>\<rparr>"

theorem failed_read_is_cached_witness:
  "\<exists>s' s''. guard_read flaky_disk example_guard (example_cache True) = (Ok (Inl (example_guard, ())), s') \<and> bio_device s' = False \<and>
    guard_read flaky_disk example_guard s' = (Ok (Inr example_guard), s'') \<and> bio_device s'' = False \<and>
    guard_bytes example_guard s'' = (Ok [9, 0], s'')"
  by (rule failed_read_is_cached) (simp_all add: flaky_disk_def example_guard_def example_cache_def bio_block_def bio_mutex_def
      lru_value_def block_data_default_def)

text \<open>
  C38. A reference that is dropped without having been locked leaves the recycled buffer marked as valid under its
  old index, and a later request can find it there. In a cache of any size from two buffers on, over any device that does not fail, without live
  references, let block i be in the least recently used buffer, and k and the \<open>n - 1\<close> blocks of js not be cached. Then block i
  reads as it was before it was written, although the device has the new content, when a reference to k is taken and dropped before and
  after the write, and the blocks of js are read in between.
\<close>

theorem unlocked_reference_goes_stale:
  assumes "infallible_device D dv rng N" and ok: "cache_ok dv rng N n {#} s" and l: "lru_list (bio_lru s) = xs @ [(Some i, a)]" and valid: "bd_valid (block_of s a)"
    and js: "distinct (k # js)" "\<forall>j \<in> set (k # js). rng j \<and> (\<forall>c. \<not> has_entry s j c)" "js \<noteq> []" "Suc (length js) = n" and new: "length new = N"
  shows "\<exists>s'. cbind (touch_block k) (\<lambda>_. cbind (write_block D i new) (\<lambda>_. cbind (touch_block k) (\<lambda>_.
      cbind (cforeach (\<lambda>j. cbind (read_block D j) (\<lambda>_. creturn ())) js) (\<lambda>_. read_block D i)))) s =
      (Ok (Inr (dv (bio_device s) i)), s') \<and> dv (bio_device s') i = new"
proof -
  note lo = cache_okD(1) [OF ok]
  have "length (lru_list (bio_lru s)) = n"
    using lru_okD(1,2) [OF lo] by (metis card_lessThan distinct_card length_map)
  then have "length xs = length js" using js(4) l by simp
  then obtain ys o' b where xs: "xs = ys @ [(o', b)]" "Suc (length ys) = length js" using js(3) by (cases xs rule: rev_exhaust) auto
  have l': "lru_list (bio_lru s) = ys @ [(o', b), (Some i, a)]" using l xs by simp
  have e: "(Some i, a) \<in> set (lru_list (bio_lru s))" by (simp add: l)
  have va: "bd_index (block_of s a) = i" "bd_data (block_of s a) = dv (bio_device s) i" using cache_okD(5) [OF ok e _ valid] by auto
  have i: "Some i \<notin> fst ` set (ys @ [(o', b)])"
  proof
    assume "Some i \<in> fst ` set (ys @ [(o', b)])"
    then obtain c where c: "(Some i, c) \<in> set (ys @ [(o', b)])" by force
    then have "c = a" using lru_okD(3) [OF lo, of i c a] e l' by auto
    then show False using lru_okD(1) [OF lo] c unfolding l' by force
  qed
  have q: "\<forall>c \<in> snd ` set (ys @ [(o', b), (Some i, a)]). lru_strong (bio_lru s) c = 1 \<and> \<not> sl_locked (lru_vals (bio_lru s) c) \<and> length (bd_data (sl_value (lru_vals (bio_lru s) c))) = N"
    using cache_okD(3,4) [OF ok] lru_unreferenced [OF lo] unfolding l' [symmetric] by (auto simp: is_locked_def block_of_def)
  have k: "Some k \<notin> fst ` set (ys @ [(o', b), (Some i, a)])" "\<forall>j \<in> set js. rng j \<and> Some j \<notin> fst ` set (ys @ [(o', b), (Some i, a)])" "k \<notin> set js" "distinct js"
    using js(1,2) unfolding l' [symmetric] by auto
  have s: "cache_at (bio_device s) (ys @ [(o', b), (Some i, a)]) (lru_strong (bio_lru s)) (lru_vals (bio_lru s)) = s"
    unfolding l' [symmetric] by (simp add: cache_at_def)
  show ?thesis
    using infallible_device.stale_read [OF assms(1) lru_okD(1) [OF lo, unfolded l'] k(1) i k(4,3,2) xs(2) q _ _ cache_okD(2) [OF ok e] new, of "bio_device s"] va valid
    unfolding s block_of_def by simp
qed

theorem unlocked_reference_goes_stale_witness:
  "\<exists>s s'. bio_new 1024 (\<lambda>_. 0) 2 = (Ok s :: (memory block_io_cache, unit) outcome) \<and>
    cbind (read_block (virtio_disk :: (memory, unit) block_device) 1) (\<lambda>_. cbind (read_block (virtio_disk :: (memory, unit) block_device) 2) (\<lambda>_.
    cbind (touch_block 3) (\<lambda>_. cbind (write_block (virtio_disk :: (memory, unit) block_device) 1 (replicate 1024 1)) (\<lambda>_. cbind (touch_block 3) (\<lambda>_.
    cbind (cforeach (\<lambda>j. cbind (read_block (virtio_disk :: (memory, unit) block_device) j) (\<lambda>_. creturn ())) [4]) (\<lambda>_.
    read_block (virtio_disk :: (memory, unit) block_device) 1)))))) s =
    (Ok (Inr (disk_block (\<lambda>_. 0) 1)), s') \<and> disk_block (bio_device s') 1 = replicate 1024 1"
proof -
  let ?D = "virtio_disk :: (memory, unit) block_device" and ?st = "\<lambda>a :: nat. if a < 2 then 1 else 0 :: nat"
  let ?vs = "\<lambda>_ :: nat. \<lparr>sl_locked = False, sl_value = block_data_default 1024\<rparr>" and ?d = "(\<lambda>_. 0) :: memory"
  let ?s = "cache_at ?d ([(None, 0)] @ [(None, 1)]) ?st ?vs"
  have new: "bio_new 1024 ?d 2 = (Ok ?s :: (memory block_io_cache, unit) outcome)"
    by (simp add: bio_new_def lru_new_def cache_at_def numeral_2_eq_2)
  have rng: "block_no_range 1" "block_no_range 2" by (simp_all add: block_no_range_def)
  obtain b x where r1: "read_block ?D 1 ?s = (Ok (Inr x), cache_at ?d ([(Some 1, 1)] @ [(None, 0)]) ?st (?vs(1 := \<lparr>sl_locked = False, sl_value = b\<rparr>)))" "bd_valid b"
    using vd.read_miss [of ?st 1 "[(None, 0)]" None 1 ?vs ?d] rng by (auto simp: block_data_default_def)
  let ?vs1 = "?vs(1 := \<lparr>sl_locked = False, sl_value = b\<rparr>)"
  obtain b2 y where r2: "read_block ?D 2 (cache_at ?d ([(Some 1, 1)] @ [(None, 0)]) ?st ?vs1) =
      (Ok (Inr y), cache_at ?d [(Some 2, 0), (Some 1, 1)] ?st (?vs1(0 := \<lparr>sl_locked = False, sl_value = b2\<rparr>)))"
    using vd.read_miss [of ?st 0 "[(Some 1, 1)]" None 2 ?vs1 ?d] rng by (auto simp: block_data_default_def)
  let ?s2 = "cache_at ?d [(Some 2, 0), (Some 1, 1)] ?st (?vs1(0 := \<lparr>sl_locked = False, sl_value = b2\<rparr>))"
  note n = bio_new_ok [OF new]
  have v0: "\<forall>j. block_no_range j \<longrightarrow> bview disk_block ?s j = disk_block (bio_device ?s) j" using n(2,3) by simp
  obtain t1 where t1: "read_block ?D 1 ?s = (Ok (Inr (bview disk_block ?s 1)), t1)" "cache_ok disk_block block_no_range 1024 2 {#} t1"
      "bview disk_block t1 = bview disk_block ?s" "bio_device t1 = bio_device ?s"
    using vd.read_block_ok [OF n(1) rng(1) n(4) v0] .
  have v1: "\<forall>j. block_no_range j \<longrightarrow> bview disk_block t1 j = disk_block (bio_device t1) j" using v0 t1(3,4) by simp
  obtain t2 where t2: "read_block ?D 2 t1 = (Ok (Inr (bview disk_block t1 2)), t2)" "cache_ok disk_block block_no_range 1024 2 {#} t2"
    using vd.read_block_ok [OF t1(2) rng(2) n(4) v1] .
  have "t2 = ?s2" using r1(1) r2 t1(1) t2(1) by simp
  then have ok: "cache_ok disk_block block_no_range 1024 2 {#} ?s2" using t2(2) by simp
  have "\<exists>s'. cbind (touch_block 3) (\<lambda>_. cbind (write_block ?D 1 (replicate 1024 1)) (\<lambda>_. cbind (touch_block 3) (\<lambda>_.
      cbind (cforeach (\<lambda>j. cbind (read_block ?D j) (\<lambda>_. creturn ())) [4]) (\<lambda>_. read_block ?D 1)))) ?s2 =
      (Ok (Inr (disk_block (bio_device ?s2) 1)), s') \<and> disk_block (bio_device s') 1 = replicate 1024 1"
    by (rule unlocked_reference_goes_stale [OF vd.infallible_device_axioms ok, where xs = "[(Some 2, 0)]" and a = 1])
      (use r1(2) in \<open>simp_all add: cache_at_def block_of_def block_no_range_def\<close>)
  then obtain s' where s': "cbind (touch_block 3) (\<lambda>_. cbind (write_block ?D 1 (replicate 1024 1)) (\<lambda>_. cbind (touch_block 3) (\<lambda>_.
      cbind (cforeach (\<lambda>j. cbind (read_block ?D j) (\<lambda>_. creturn ())) [4]) (\<lambda>_. read_block ?D 1)))) ?s2 =
      (Ok (Inr (disk_block ?d 1)), s')" "disk_block (bio_device s') 1 = replicate 1024 1" by (auto simp: cache_at_def)
  then show ?thesis using new r1(1) r2 by (intro exI [of _ ?s] exI [of _ s']) (simp only: cbind_simps s' simp_thms)
qed

end
