(* ===== verification/Fs_Types.thy ===== *)
theory Fs_Types
  imports Block_Io
begin

text \<open>
  The data of the file system on disk, of \<^verbatim>\<open>crates/common/ov6_fs_types/src/lib.rs\<close>: the super block, the log
  header, inodes, the bitmap, indirect blocks and directory entries, read and written in the bytes of a block.
  Block and inode numbers are 32-bit words.
\<close>

section \<open>Arrays in a block\<close>

definition slot_get :: "nat \<Rightarrow> nat \<Rightarrow> u8 list \<Rightarrow> u8 list" where
  "slot_get sz i bs = take sz (drop (i * sz) bs)"

definition slot_put :: "nat \<Rightarrow> nat \<Rightarrow> u8 list \<Rightarrow> u8 list \<Rightarrow> u8 list" where
  "slot_put sz i v bs = take (i * sz) bs @ v @ drop (i * sz + sz) bs"

definition u32_at :: "u8 list \<Rightarrow> nat \<Rightarrow> u32" where
  "u32_at bs i = le_word (slot_get 4 i bs)"

definition u32_put :: "nat \<Rightarrow> u32 \<Rightarrow> u8 list \<Rightarrow> u8 list" where
  "u32_put i v bs = slot_put 4 i (le_bytes v) bs"

section \<open>The super block\<close>

type_synonym block_no = u32
type_synonym inode_no = u32

record super_block =
  sb_magic :: u32
  sb_size :: u32
  sb_nblocks :: u32
  sb_ninodes :: u32
  sb_nlog :: u32
  sb_logstart :: u32
  sb_inodestart :: u32
  sb_bmapstart :: u32

definition FS_MAGIC :: u32 where "FS_MAGIC = 0x10203040"
definition SUPER_BLOCK_NO :: block_no where "SUPER_BLOCK_NO = 1"
definition ROOT_INO :: inode_no where "ROOT_INO = 1"

definition decode_super_block :: "u8 list \<Rightarrow> super_block" where
  "decode_super_block bs =
     \<lparr>sb_magic = u32_at bs 0, sb_size = u32_at bs 1, sb_nblocks = u32_at bs 2, sb_ninodes = u32_at bs 3,
      sb_nlog = u32_at bs 4, sb_logstart = u32_at bs 5, sb_inodestart = u32_at bs 6, sb_bmapstart = u32_at bs 7\<rparr>"

definition NUM_DIRECT_REFS :: nat where "NUM_DIRECT_REFS = 12"
definition NUM_INDIRECT_REFS :: nat where "NUM_INDIRECT_REFS = 256"
definition MAX_FILE :: nat where "MAX_FILE = NUM_DIRECT_REFS + NUM_INDIRECT_REFS"
definition INODE_PER_BLOCK :: u32 where "INODE_PER_BLOCK = 16"
definition BITS_PER_BLOCK :: u32 where "BITS_PER_BLOCK = 8192"

definition inode_block :: "super_block \<Rightarrow> inode_no \<Rightarrow> block_no" where
  "inode_block sb ino = sb_inodestart sb + ino div INODE_PER_BLOCK"

definition bmap_block :: "super_block \<Rightarrow> u32 \<Rightarrow> block_no" where
  "bmap_block sb bn = sb_bmapstart sb + bn div BITS_PER_BLOCK"

definition max_log_len :: "super_block \<Rightarrow> nat" where
  "max_log_len sb = unat (sb_nlog sb)"

definition log_header_block :: "super_block \<Rightarrow> block_no" where
  "log_header_block sb = sb_logstart sb"

definition log_body_block :: "super_block \<Rightarrow> u32 \<Rightarrow> block_no" where
  "log_body_block sb i = sb_logstart sb + i"

text \<open>A block number as an index.\<close>

definition as_index :: "block_no \<Rightarrow> usize" where
  "as_index bn = ucast bn"

section \<open>The log header\<close>

definition MAX_LOG_COUNT :: nat where "MAX_LOG_COUNT = 255"

definition log_header_len :: "u8 list \<Rightarrow> nat" where
  "log_header_len bs = unat (u32_at bs 0)"

definition log_header_set_len :: "nat \<Rightarrow> u8 list \<Rightarrow> (u8 list, 'e) outcome" where
  "log_header_set_len len bs = obind (require (len < 2 ^ 32)) (\<lambda>_. Ok (u32_put 0 (of_nat len) bs))"

definition log_header_block_indices :: "u8 list \<Rightarrow> (u32 list, 'e) outcome" where
  "log_header_block_indices bs =
     obind (require (log_header_len bs \<le> MAX_LOG_COUNT)) (\<lambda>_.
     Ok (map (\<lambda>i. u32_at bs (Suc i)) [0..<log_header_len bs]))"

text \<open>\<^verbatim>\<open>block_indices_mut()[i] = v\<close>.\<close>

definition log_header_set_index :: "nat \<Rightarrow> u32 \<Rightarrow> u8 list \<Rightarrow> (u8 list, 'e) outcome" where
  "log_header_set_index i v bs =
     obind (require (log_header_len bs \<le> MAX_LOG_COUNT \<and> i < log_header_len bs)) (\<lambda>_. Ok (u32_put (Suc i) v bs))"

section \<open>Inodes\<close>

definition T_DIR :: u16 where "T_DIR = 1"
definition T_FILE :: u16 where "T_FILE = 2"
definition T_DEVICE :: u16 where "T_DEVICE = 3"

record disk_inode =
  di_ty :: u16
  di_major :: u16
  di_minor :: u16
  di_nlink :: u16
  di_size :: u32
  di_addrs :: "u32 list"

definition encode_inode :: "disk_inode \<Rightarrow> u8 list" where
  "encode_inode r =
     le_bytes (di_ty r) @ le_bytes (di_major r) @ le_bytes (di_minor r) @ le_bytes (di_nlink r) @
     le_bytes (di_size r) @ concat (map le_bytes (di_addrs r))"

definition decode_inode :: "u8 list \<Rightarrow> disk_inode" where
  "decode_inode bs =
     \<lparr>di_ty = le_word (slot_get 2 0 bs), di_major = le_word (slot_get 2 1 bs), di_minor = le_word (slot_get 2 2 bs),
      di_nlink = le_word (slot_get 2 3 bs), di_size = u32_at bs 2, di_addrs = map (\<lambda>i. u32_at bs (i + 3)) [0..<13]\<rparr>"

definition zeroed_inode :: disk_inode where
  "zeroed_inode = \<lparr>di_ty = 0, di_major = 0, di_minor = 0, di_nlink = 0, di_size = 0, di_addrs = replicate 13 0\<rparr>"

definition inode_is_free :: "disk_inode \<Rightarrow> bool" where
  "inode_is_free r \<longleftrightarrow> di_ty r = 0"

definition inode_allocate :: "u16 \<Rightarrow> disk_inode \<Rightarrow> (disk_inode, 'e) outcome" where
  "inode_allocate ty r = obind (require (di_ty r = 0)) (\<lambda>_. Ok (zeroed_inode\<lparr>di_ty := ty\<rparr>))"

definition write_addrs :: "block_no option list \<Rightarrow> disk_inode \<Rightarrow> (disk_inode, 'e) outcome" where
  "write_addrs addrs r =
     obind (require (Some 0 \<notin> set addrs)) (\<lambda>_. Ok (r\<lparr>di_addrs := map (\<lambda>a. case a of Some bn \<Rightarrow> bn | None \<Rightarrow> 0) addrs\<rparr>))"

definition read_addrs :: "disk_inode \<Rightarrow> block_no option list" where
  "read_addrs r = map (\<lambda>bn. if bn = 0 then None else Some bn) (di_addrs r)"

definition block_inode :: "u8 list \<Rightarrow> inode_no \<Rightarrow> disk_inode" where
  "block_inode bs ino = decode_inode (slot_get 64 (unat (ino mod INODE_PER_BLOCK)) bs)"

definition block_put_inode :: "inode_no \<Rightarrow> disk_inode \<Rightarrow> u8 list \<Rightarrow> u8 list" where
  "block_put_inode ino r bs = slot_put 64 (unat (ino mod INODE_PER_BLOCK)) (encode_inode r) bs"

section \<open>The bitmap\<close>

definition bmap_is_allocated :: "u8 list \<Rightarrow> nat \<Rightarrow> (bool, 'e) outcome" where
  "bmap_is_allocated bs n =
     obind (require (n < unat BITS_PER_BLOCK)) (\<lambda>_. Ok (bs ! (n div 8) AND push_bit (n mod 8) 1 \<noteq> 0))"

definition bmap_allocate :: "nat \<Rightarrow> u8 list \<Rightarrow> (u8 list, 'e) outcome" where
  "bmap_allocate n bs =
     obind (require (n < unat BITS_PER_BLOCK)) (\<lambda>_. Ok (bs[n div 8 := bs ! (n div 8) OR push_bit (n mod 8) 1]))"

definition bmap_free :: "nat \<Rightarrow> u8 list \<Rightarrow> (u8 list, 'e) outcome" where
  "bmap_free n bs =
     obind (require (n < unat BITS_PER_BLOCK)) (\<lambda>_. Ok (bs[n div 8 := bs ! (n div 8) AND NOT (push_bit (n mod 8) 1)]))"

section \<open>Indirect blocks\<close>

definition indirect_get :: "u8 list \<Rightarrow> nat \<Rightarrow> (block_no option, 'e) outcome" where
  "indirect_get bs i =
     obind (require (i < NUM_INDIRECT_REFS)) (\<lambda>_. Ok (if u32_at bs i = 0 then None else Some (u32_at bs i)))"

definition indirect_set :: "nat \<Rightarrow> block_no option \<Rightarrow> u8 list \<Rightarrow> (u8 list, 'e) outcome" where
  "indirect_set i bn bs =
     obind (require (i < NUM_INDIRECT_REFS)) (\<lambda>_.
     obind (case bn of None \<Rightarrow> Ok 0 | Some bn \<Rightarrow> obind (require (bn \<noteq> 0)) (\<lambda>_. Ok bn)) (\<lambda>v.
     Ok (u32_put i v bs)))"

text \<open>The references of an indirect block, which \<^verbatim>\<open>drain\<close> takes out one by one.\<close>

definition indirect_refs :: "u8 list \<Rightarrow> block_no option list" where
  "indirect_refs bs = map (\<lambda>i. if u32_at bs i = 0 then None else Some (u32_at bs i)) [0..<NUM_INDIRECT_REFS]"

section \<open>Directory entries\<close>

definition DIR_SIZE :: nat where "DIR_SIZE = 14"

record dir_entry =
  de_ino :: u16
  de_name :: "u8 list"

definition dir_entry_ino :: "dir_entry \<Rightarrow> inode_no option" where
  "dir_entry_ino e = (if de_ino e = 0 then None else Some (ucast (de_ino e)))"

definition dir_entry_set_ino :: "inode_no option \<Rightarrow> dir_entry \<Rightarrow> (dir_entry, 'e) outcome" where
  "dir_entry_set_ino ino e =
     (case ino of
        Some ino \<Rightarrow> obind (require (ino \<noteq> 0)) (\<lambda>_. obind (require (unat ino < 2 ^ 16)) (\<lambda>_. Ok (e\<lparr>de_ino := ucast ino\<rparr>)))
      | None \<Rightarrow> Ok (e\<lparr>de_ino := 0\<rparr>))"

definition dir_entry_name :: "dir_entry \<Rightarrow> u8 list" where
  "dir_entry_name e = takeWhile (\<lambda>c. c \<noteq> 0) (de_name e)"

definition dir_entry_is_same_name :: "u8 list \<Rightarrow> dir_entry \<Rightarrow> bool" where
  "dir_entry_is_same_name name e \<longleftrightarrow> dir_entry_name e = take (min (length name) DIR_SIZE) name"

definition dir_entry_set_name :: "u8 list \<Rightarrow> dir_entry \<Rightarrow> dir_entry" where
  "dir_entry_set_name name e =
     (let len = min (length name) (length (de_name e)) in
      e\<lparr>de_name := take len name @ replicate (length (de_name e) - len) 0\<rparr>)"

definition zeroed_dir_entry :: dir_entry where
  "zeroed_dir_entry = \<lparr>de_ino = 0, de_name = replicate DIR_SIZE 0\<rparr>"

definition encode_dir_entry :: "dir_entry \<Rightarrow> u8 list" where
  "encode_dir_entry e = le_bytes (de_ino e) @ de_name e"

definition decode_dir_entry :: "u8 list \<Rightarrow> dir_entry" where
  "decode_dir_entry bs = \<lparr>de_ino = le_word (take 2 bs), de_name = take DIR_SIZE (drop 2 bs)\<rparr>"

section \<open>Reading what was written\<close>

lemma slot_length: "length v = sz \<Longrightarrow> i * sz + sz \<le> length bs \<Longrightarrow> length (slot_put sz i v bs) = length bs"
  by (simp add: slot_put_def)

lemma slot_get_length: "i * sz + sz \<le> length bs \<Longrightarrow> length (slot_get sz i bs) = sz"
  by (simp add: slot_get_def)

lemma slot_get_put: "length v = sz \<Longrightarrow> i * sz + sz \<le> length bs \<Longrightarrow> slot_get sz i (slot_put sz i v bs) = v"
  by (simp add: slot_get_def slot_put_def)

lemma slot_get_put_other:
  assumes "length v = sz" and "i * sz + sz \<le> length bs" and "i \<noteq> j"
  shows "slot_get sz j (slot_put sz i v bs) = slot_get sz j bs"
proof -
  have "j * sz + sz \<le> i * sz \<or> i * sz + sz \<le> j * sz"
    using assms(3) mult_le_mono1 [of "Suc j" i sz] mult_le_mono1 [of "Suc i" j sz] by (cases j i rule: linorder_cases) auto
  then show ?thesis
  proof
    assume "j * sz + sz \<le> i * sz"
    then show ?thesis using assms(2) by (simp add: slot_get_def slot_put_def drop_take min_absorb1)
  next
    assume le: "i * sz + sz \<le> j * sz"
    then have "i * sz \<le> j * sz" by linarith
    then have "i * sz - j * sz = 0" by (rule diff_is_0_eq')
    then show ?thesis using le assms(1,2) by (simp add: slot_get_def slot_put_def drop_take add.commute)
  qed
qed

lemma u32_put_length [simp]: "i * 4 + 4 \<le> length bs \<Longrightarrow> length (u32_put i v bs) = length bs"
  by (simp add: u32_put_def slot_length)

lemma u32_at_put:
  "i * 4 + 4 \<le> length bs \<Longrightarrow> u32_at (u32_put i v bs) j = (if i = j then v else u32_at bs j)"
  by (simp add: u32_at_def u32_put_def slot_get_put slot_get_put_other le_word_le_bytes)

end
