(* ===== verification/Fs_Log.thy ===== *)
theory Fs_Log
  imports Fs_Types Kernel_Error
begin

text \<open>
  The log of \<^verbatim>\<open>fs/log.rs\<close>: transactions, the guards that log the blocks they change, commit and recovery.
  The state is the cache of blocks, the super block and the log; the inode layer extends it.
\<close>

section \<open>State\<close>

type_synonym device_no = u32

definition ROOT_DEV :: device_no where "ROOT_DEV = 0"

definition MAX_OP_BLOCKS :: usize where "MAX_OP_BLOCKS = 10"
definition LOG_SIZE :: usize where "LOG_SIZE = MAX_OP_BLOCKS * 3"
definition NBUF :: usize where "NBUF = MAX_OP_BLOCKS * 3"

record log_header =
  lh_dev :: device_no
  lh_blocks :: "block_ref list"

record log_data =
  ld_outstanding :: usize
  ld_header :: "log_header option"

record log_fs =
  fs_cache :: "memory block_io_cache"
  fs_sb :: super_block
  fs_log :: log_data

type_synonym ('z, 'a) log_call = "('z log_fs_scheme, 'a, stuck) call"

definition on_cache :: "(memory, 'a) bio_call \<Rightarrow> ('z, 'a) log_call" where
  "on_cache m s = (let (r, c) = m (fs_cache s) in (r, s\<lparr>fs_cache := c\<rparr>))"

text \<open>The device of the kernel does not fail: \<^verbatim>\<open>let Ok(x) = ...\<close>.\<close>

definition never_fails :: "('z, 'e + 'a) log_call \<Rightarrow> ('z, 'a) log_call" where
  "never_fails m = cbind m (\<lambda>r. case r of Inr a \<Rightarrow> creturn a | Inl _ \<Rightarrow> clift Panic)"

abbreviation kernel_disk :: "(memory, unit) block_device" where
  "kernel_disk \<equiv> virtio_disk"

definition block_io_init :: "memory \<Rightarrow> (memory block_io_cache, stuck) outcome" where
  "block_io_init disk = bio_new (unat FS_BLOCK_SIZE) disk (unat NBUF)"

definition block_io_get :: "device_no \<Rightarrow> usize \<Rightarrow> ('z, block_ref) log_call" where
  "block_io_get dev block_index = (if dev = ROOT_DEV then on_cache (bio_get block_index) else clift Panic)"

definition lock_read :: "block_ref \<Rightarrow> ('z, block_guard) log_call" where
  "lock_read r = cbind (on_cache (ref_lock r)) (\<lambda>g. never_fails (on_cache (guard_read kernel_disk g)))"

definition lock_zeroed :: "block_ref \<Rightarrow> ('z, block_guard) log_call" where
  "lock_zeroed r = cbind (on_cache (ref_lock r)) (\<lambda>g. on_cache (guard_zeroed g))"

section \<open>The header of the log\<close>

definition lh_new :: "device_no \<Rightarrow> ('z, log_header) log_call" where
  "lh_new dev =
     cbind (cread fs_sb) (\<lambda>sb.
     cbind (clift (require (max_log_len sb \<le> unat LOG_SIZE))) (\<lambda>_. creturn \<lparr>lh_dev = dev, lh_blocks = []\<rparr>))"

definition lh_max_len :: "log_header \<Rightarrow> usize" where
  "lh_max_len h = LOG_SIZE"

definition lh_len :: "log_header \<Rightarrow> usize" where
  "lh_len h = of_nat (length (lh_blocks h))"

definition lh_push :: "block_ref \<Rightarrow> log_header \<Rightarrow> ('z, log_header) log_call" where
  "lh_push block h =
     cbind (cread fs_sb) (\<lambda>sb.
     cbind (clift (require (length (lh_blocks h) < max_log_len sb))) (\<lambda>_.
     if \<forall>b \<in> set (lh_blocks h). br_index b \<noteq> br_index block
     then cbind (on_cache (ref_clone block)) (\<lambda>b.
       cbind (clift (require (length (lh_blocks h) < unat LOG_SIZE))) (\<lambda>_. creturn (h\<lparr>lh_blocks := lh_blocks h @ [b]\<rparr>)))
     else creturn h))"

text \<open>The loop of \<^verbatim>\<open>read\<close> over the block numbers of the header on disk.\<close>

primrec lh_read_blocks :: "u32 list \<Rightarrow> log_header \<Rightarrow> ('z, log_header) log_call" where
  "lh_read_blocks [] h = creturn h"
| "lh_read_blocks (bn # bns) h =
     cbind (block_io_get (lh_dev h) (as_index bn)) (\<lambda>br.
     cbind (lh_push br h) (\<lambda>h.
     cbind (on_cache (ref_drop br)) (\<lambda>_. lh_read_blocks bns h)))"

definition lh_read :: "log_header \<Rightarrow> ('z, log_header) log_call" where
  "lh_read h =
     cbind (clift (require (lh_blocks h = []))) (\<lambda>_.
     cbind (cread fs_sb) (\<lambda>sb.
     cbind (block_io_get (lh_dev h) (as_index (log_header_block sb))) (\<lambda>bh.
     cbind (lock_read bh) (\<lambda>bg.
     cbind (on_cache (guard_bytes bg)) (\<lambda>header.
     cbind (clift (log_header_block_indices header)) (\<lambda>bns.
     cbind (lh_read_blocks bns h) (\<lambda>h.
     cbind (on_cache (guard_drop bg)) (\<lambda>_.
     cbind (on_cache (ref_drop bh)) (\<lambda>_. creturn h)))))))))"

text \<open>The body of the loop of \<^verbatim>\<open>write_log_body\<close>, and the loop from block \<open>i\<close> of the log on.\<close>

definition write_body_block :: "device_no \<Rightarrow> usize \<Rightarrow> block_ref \<Rightarrow> ('z, unit) log_call" where
  "write_body_block dev k br =
     cbind (lock_read br) (\<lambda>bg.
     cbind (block_io_get dev k) (\<lambda>log_br.
     cbind (on_cache (ref_lock log_br)) (\<lambda>log_bg.
     cbind (on_cache (guard_bytes bg)) (\<lambda>bytes.
     cbind (on_cache (guard_set_data bytes log_bg)) (\<lambda>log_bg.
     cbind (never_fails (on_cache (guard_write kernel_disk log_bg))) (\<lambda>_.
     cbind (on_cache (guard_drop log_bg)) (\<lambda>_.
     cbind (on_cache (ref_drop log_br)) (\<lambda>_. on_cache (guard_drop bg)))))))))"

primrec write_body_from :: "device_no \<Rightarrow> u32 \<Rightarrow> block_ref list \<Rightarrow> ('z, unit) log_call" where
  "write_body_from dev i [] = creturn ()"
| "write_body_from dev i (br # brs) =
     cbind (cread fs_sb) (\<lambda>sb.
     cbind (write_body_block dev (as_index (log_body_block sb i)) br) (\<lambda>_. write_body_from dev (i + 1) brs))"

definition write_log_body :: "log_header \<Rightarrow> ('z, unit) log_call" where
  "write_log_body h = write_body_from (lh_dev h) 0 (lh_blocks h)"

text \<open>The loop of \<^verbatim>\<open>write_log_head\<close> over the blocks, on the bytes of the header.\<close>

primrec head_indices :: "nat \<Rightarrow> block_ref list \<Rightarrow> u8 list \<Rightarrow> (u8 list, stuck) outcome" where
  "head_indices i [] dst = Ok dst"
| "head_indices i (br # brs) dst =
     obind (require (unat (br_index br) < 2 ^ 32)) (\<lambda>_.
     obind (log_header_set_index i (ucast (br_index br)) dst) (\<lambda>dst. head_indices (Suc i) brs dst))"

definition write_log_head :: "log_header \<Rightarrow> ('z, unit) log_call" where
  "write_log_head h =
     cbind (cread fs_sb) (\<lambda>sb.
     cbind (block_io_get (lh_dev h) (as_index (log_header_block sb))) (\<lambda>br.
     cbind (lock_zeroed br) (\<lambda>bg.
     cbind (on_cache (guard_bytes bg)) (\<lambda>dst.
     cbind (clift (obind (log_header_set_len (length (lh_blocks h)) dst) (\<lambda>dst. head_indices 0 (lh_blocks h) dst))) (\<lambda>dst.
     cbind (on_cache (guard_bytes_mut bg (\<lambda>_. dst))) (\<lambda>_.
     cbind (never_fails (on_cache (guard_write kernel_disk bg))) (\<lambda>_.
     cbind (on_cache (guard_drop bg)) (\<lambda>_. on_cache (ref_drop br)))))))))"

text \<open>The loop of \<^verbatim>\<open>install_transaction\<close> over the drained blocks.\<close>

primrec install_blocks :: "block_ref list \<Rightarrow> ('z, unit) log_call" where
  "install_blocks [] = creturn ()"
| "install_blocks (br # brs) =
     cbind (lock_read br) (\<lambda>bg.
     cbind (never_fails (on_cache (guard_write kernel_disk bg))) (\<lambda>_.
     cbind (on_cache (guard_drop bg)) (\<lambda>_.
     cbind (on_cache (ref_drop br)) (\<lambda>_. install_blocks brs))))"

definition install_transaction :: "log_header \<Rightarrow> ('z, log_header) log_call" where
  "install_transaction h = cbind (install_blocks (lh_blocks h)) (\<lambda>_. creturn (h\<lparr>lh_blocks := []\<rparr>))"

definition recover_from_log :: "log_header \<Rightarrow> ('z, log_header) log_call" where
  "recover_from_log h =
     cbind (lh_read h) (\<lambda>h.
     cbind (install_transaction h) (\<lambda>h.
     cbind (write_log_head h) (\<lambda>_. creturn h)))"

definition lh_commit :: "log_header \<Rightarrow> ('z, log_header) log_call" where
  "lh_commit h =
     (if lh_blocks h \<noteq> []
      then cbind (write_log_body h) (\<lambda>_.
        cbind (write_log_head h) (\<lambda>_.
        cbind (install_transaction h) (\<lambda>h.
        cbind (clift (require (lh_blocks h = []))) (\<lambda>_.
        cbind (write_log_head h) (\<lambda>_. creturn h)))))
      else creturn h)"

section \<open>The log\<close>

definition log_init :: "device_no \<Rightarrow> ('z, unit) log_call" where
  "log_init dev =
     cbind (lh_new dev) (\<lambda>header.
     cbind (recover_from_log header) (\<lambda>header.
     cmodify (\<lambda>s. s\<lparr>fs_log := \<lparr>ld_outstanding = 0, ld_header = Some header\<rparr>\<rparr>)))"

text \<open>
  Whether an operation finds no room: the log is being committed, or what the outstanding operations and
  this one may still log does not fit. It then waits, unless its process is killed.
\<close>

definition log_busy :: "log_data \<Rightarrow> bool" where
  "log_busy d \<longleftrightarrow>
     (case ld_header d of
        None \<Rightarrow> True
      | Some h \<Rightarrow> lh_len h + (ld_outstanding d + 1) * MAX_OP_BLOCKS > lh_max_len h)"

definition begin_op :: "bool \<Rightarrow> ('z, wait_error + unit) log_call" where
  "begin_op killed s =
     (if log_busy (fs_log s) then (if killed then (Ok (Inl WaitingProcessAlreadyKilled), s) else (Err Blocked, s))
      else (Ok (Inr ()), s\<lparr>fs_log := (fs_log s)\<lparr>ld_outstanding := ld_outstanding (fs_log s) + 1\<rparr>\<rparr>))"

definition force_begin_op :: "('z, unit) log_call" where
  "force_begin_op s =
     (if log_busy (fs_log s) then (Err Blocked, s)
      else (Ok (), s\<lparr>fs_log := (fs_log s)\<lparr>ld_outstanding := ld_outstanding (fs_log s) + 1\<rparr>\<rparr>))"

definition end_op :: "('z, unit) log_call" where
  "end_op s =
     (let d = (fs_log s)\<lparr>ld_outstanding := ld_outstanding (fs_log s) - 1\<rparr> in
      case ld_header d of
        None \<Rightarrow> (Panic, s\<lparr>fs_log := d\<rparr>)
      | Some header \<Rightarrow>
          if ld_outstanding d = 0
          then cbind (lh_commit header) (\<lambda>header.
            cbind (cread (\<lambda>s. ld_header (fs_log s))) (\<lambda>h.
            cbind (clift (require (h = None))) (\<lambda>_.
            cmodify (\<lambda>s. s\<lparr>fs_log := (fs_log s)\<lparr>ld_header := Some header\<rparr>\<rparr>))))
            (s\<lparr>fs_log := d\<lparr>ld_header := None\<rparr>\<rparr>)
          else (Ok (), s\<lparr>fs_log := d\<rparr>))"

text \<open>Logs the block of a guard.\<close>

definition log_write :: "block_guard \<Rightarrow> ('z, unit) log_call" where
  "log_write b =
     cbind (cread fs_log) (\<lambda>d.
     cbind (clift (expect (ld_header d))) (\<lambda>header.
     cbind (clift (require (0 < ld_outstanding d))) (\<lambda>_.
     cbind (on_cache (guard_block b)) (\<lambda>block.
     cbind (lh_push block header) (\<lambda>header.
     cbind (cmodify (\<lambda>s. s\<lparr>fs_log := (fs_log s)\<lparr>ld_header := Some header\<rparr>\<rparr>)) (\<lambda>_.
     on_cache (ref_drop block)))))))"

section \<open>Transactions\<close>

text \<open>
  The flag \<open>ro\<close> is the parameter \<^verbatim>\<open>READ_ONLY\<close> of a transaction; a read-only one has no log. The drop of a
  transaction ends its operation.
\<close>

definition tx_drop :: "bool \<Rightarrow> ('z, unit) log_call" where
  "tx_drop ro = (if ro then creturn () else end_op)"

definition tx_get_block :: "device_no \<Rightarrow> block_no \<Rightarrow> ('z, block_ref) log_call" where
  "tx_get_block dev bn = block_io_get dev (as_index bn)"

text \<open>The drop of a guard logs its block if the block is dirty and valid.\<close>

definition tx_guard_drop :: "bool \<Rightarrow> block_guard \<Rightarrow> ('z, unit) log_call" where
  "tx_guard_drop ro g =
     cbind (on_cache (guard_is_dirty g)) (\<lambda>dirty.
     if dirty
     then cbind (on_cache (guard_try_validate g)) (\<lambda>v.
       case v of
         Inr g \<Rightarrow> cbind (if ro then creturn () else log_write g) (\<lambda>_. on_cache (guard_drop g))
       | Inl g \<Rightarrow> on_cache (guard_drop g))
     else on_cache (guard_drop g))"

text \<open>
  The scope of a block: \<^verbatim>\<open>let mut br = tx.get_block(dev, bn); let Ok(bg) = br.lock().read();\<close>, a body, and the
  drops of the guard and the reference at its end.
\<close>

definition with_block :: "bool \<Rightarrow> device_no \<Rightarrow> block_no \<Rightarrow> (block_guard \<Rightarrow> ('z, 'a) log_call) \<Rightarrow> ('z, 'a) log_call" where
  "with_block ro dev bn body =
     cbind (tx_get_block dev bn) (\<lambda>br.
     cbind (lock_read br) (\<lambda>bg.
     cbind (body bg) (\<lambda>x.
     cbind (tx_guard_drop ro bg) (\<lambda>_.
     cbind (on_cache (ref_drop br)) (\<lambda>_. creturn x)))))"

definition bg_bytes :: "block_guard \<Rightarrow> ('z, u8 list) log_call" where
  "bg_bytes g = on_cache (guard_bytes g)"

text \<open>A change of the bytes of a guard by an operation of the block type, which may panic.\<close>

definition bg_update :: "block_guard \<Rightarrow> (u8 list \<Rightarrow> (u8 list, stuck) outcome) \<Rightarrow> ('z, unit) log_call" where
  "bg_update g f =
     cbind (bg_bytes g) (\<lambda>bs.
     cbind (on_cache (guard_bytes_mut g (\<lambda>bs. bs))) (\<lambda>_.
     cbind (clift (f bs)) (\<lambda>bs'. on_cache (guard_bytes_mut g (\<lambda>_. bs')))))"

text \<open>\<^verbatim>\<open>tx.get_block(dev, bn).lock().zeroed();\<close>\<close>

definition block_zero :: "device_no \<Rightarrow> block_no \<Rightarrow> ('z, unit) log_call" where
  "block_zero dev bn =
     cbind (tx_get_block dev bn) (\<lambda>br.
     cbind (lock_zeroed br) (\<lambda>bg.
     cbind (tx_guard_drop False bg) (\<lambda>_. on_cache (ref_drop br))))"

section \<open>Start\<close>

definition init_superblock :: "device_no \<Rightarrow> ('z, unit) log_call" where
  "init_superblock dev =
     with_block True dev SUPER_BLOCK_NO (\<lambda>bg.
       cbind (bg_bytes bg) (\<lambda>bs. cmodify (\<lambda>s. s\<lparr>fs_sb := decode_super_block bs\<rparr>)))"

definition init_in_proc :: "device_no \<Rightarrow> ('z, unit) log_call" where
  "init_in_proc dev =
     cbind (init_superblock dev) (\<lambda>_.
     cbind (cread fs_sb) (\<lambda>sb.
     cbind (clift (require (sb_magic sb = FS_MAGIC))) (\<lambda>_. log_init dev)))"

section \<open>The invariant of the cache under a log\<close>

text \<open>
  The keys of open blocks, and the invariant of the cache when the handles \<open>held\<close> are open and the log has the
  references \<open>brs\<close>: only open blocks are locked; a logged block is in its buffer; any other block is in its buffer
  as it is on disk, unless it is open and dirty.
\<close>

abbreviation keys_of :: "usize lru_value multiset \<Rightarrow> usize set" where
  "keys_of held \<equiv> lv_key ` set_mset held"

abbreviation logged :: "block_ref list \<Rightarrow> usize set" where
  "logged brs \<equiv> br_index ` set brs"

abbreviation log_cache_ok :: "usize lru_value multiset \<Rightarrow> memory block_io_cache \<Rightarrow> bool" where
  "log_cache_ok \<equiv> cache_ok disk_block block_no_range 1024 30"

abbreviation cview :: "memory block_io_cache \<Rightarrow> usize \<Rightarrow> u8 list" where
  "cview \<equiv> bview disk_block"

definition entry_ok :: "usize set \<Rightarrow> usize set \<Rightarrow> memory \<Rightarrow> usize \<Rightarrow> block_data \<Rightarrow> bool" where
  "entry_ok hk lk disk k b \<longleftrightarrow>
     (k \<in> lk \<longrightarrow> bd_index b = k \<and> bd_valid b) \<and>
     (k \<notin> lk \<longrightarrow> bd_index b = k \<longrightarrow> bd_valid b \<longrightarrow> (if bd_dirty b then k \<in> hk else bd_data b = disk_block disk k))"

definition pinned :: "usize lru_value multiset \<Rightarrow> block_ref list \<Rightarrow> memory block_io_cache \<Rightarrow> bool" where
  "pinned held brs c \<longleftrightarrow>
     log_cache_ok (held + mset (map br_block brs)) c \<and>
     distinct (map br_index brs) \<and> (\<forall>r \<in> set brs. br_index r = lv_key (br_block r)) \<and>
     (\<forall>k a. has_entry c k a \<longrightarrow> is_locked c a \<longrightarrow> k \<in> keys_of held) \<and>
     (\<forall>k a. has_entry c k a \<longrightarrow> entry_ok (keys_of held) (logged brs) (bio_device c) k (block_of c a))"

lemma pinnedD:
  assumes "pinned held brs c"
  shows "log_cache_ok (held + mset (map br_block brs)) c" and "distinct (map br_index brs)"
    and "r \<in> set brs \<Longrightarrow> br_index r = lv_key (br_block r)"
    and "has_entry c k a \<Longrightarrow> is_locked c a \<Longrightarrow> k \<in> keys_of held"
    and "has_entry c k a \<Longrightarrow> entry_ok (keys_of held) (logged brs) (bio_device c) k (block_of c a)"
  using assms unfolding pinned_def by blast+

lemma pinned_keys:
  assumes "pinned held brs c"
  shows "keys_of (held + mset (map br_block brs)) = keys_of held \<union> logged brs"
  using pinnedD(3) [OF assms] by (auto simp: image_iff)

text \<open>There is a buffer for a block that is logged, or when not all of the 30 buffers are in use.\<close>

definition has_room :: "usize lru_value multiset \<Rightarrow> block_ref list \<Rightarrow> usize \<Rightarrow> bool" where
  "has_room held brs k \<longleftrightarrow> k \<in> logged brs \<or> card (keys_of held \<union> logged brs) < 30"

lemma pinned_room:
  assumes ok: "pinned held brs c" and room: "has_room held brs k"
  shows "fst (lru_get k (bio_lru c)) \<noteq> None"
proof (cases "k \<in> logged brs")
  case True
  then obtain r where r: "r \<in> set brs" "br_index r = k" by blast
  then have "br_block r \<in># held + mset (map br_block brs)" "lv_key (br_block r) = k" using pinnedD(3) [OF ok r(1)] by auto
  then have "has_entry c k (lv_arc (br_block r))" using lru_okD(5) [OF cache_okD(1) [OF pinnedD(1) [OF ok]]] by blast
  then show ?thesis using lru_get_cached [OF cache_okD(1) [OF pinnedD(1) [OF ok]]] by blast
next
  case False
  let ?live = "held + mset (map br_block brs)"
  have l: "lru_ok 30 ?live (bio_lru c)" using cache_okD(1) [OF pinnedD(1) [OF ok]] .
  have "card (lv_arc ` set_mset ?live) = card (keys_of ?live)"
    using lru_handle_same [OF l] by (intro card_image_same) auto
  then have "card (lv_arc ` set_mset ?live) < 30"
    using room False unfolding has_room_def pinned_keys [OF ok] by simp
  then show ?thesis using lru_available [OF l] by blast
qed

lemma as_index_range: "block_no_range (as_index bn)"
  using unat_lt_width [of bn] by (simp add: block_no_range_def as_index_def unat_ucast_up)

lemma as_index_inj [simp]: "as_index a = as_index b \<longleftrightarrow> a = b"
  by (simp add: as_index_def word_unat_eq_iff unat_ucast_up)

lemma entry_ok_mono: "entry_ok hk lk d k b \<Longrightarrow> hk \<subseteq> hk' \<Longrightarrow> entry_ok hk' lk d k b"
  by (auto simp: entry_ok_def split: if_splits)

lemma entry_ok_relabel: "entry_ok hk lk d k b \<Longrightarrow> entry_ok hk lk d k (relabel k b)"
  by (auto simp: entry_ok_def relabel_def)

lemma pinned_entry:
  assumes "pinned held brs c" and "v \<in># held"
  shows "has_entry c (lv_key v) (lv_arc v)" and "has_entry c j (lv_arc v) \<Longrightarrow> j = lv_key v" and "has_entry c (lv_key v) b \<Longrightarrow> b = lv_arc v"
proof -
  have l: "lru_ok 30 (held + mset (map br_block brs)) (bio_lru c)" using cache_okD(1) [OF pinnedD(1) [OF assms(1)]] .
  show e: "has_entry c (lv_key v) (lv_arc v)" using lru_okD(5) [OF l] assms(2) by simp
  show "has_entry c j (lv_arc v) \<Longrightarrow> j = lv_key v" using lru_ok_arc(2) [OF l e, of "Some j"] by simp
  show "has_entry c (lv_key v) b \<Longrightarrow> b = lv_arc v" using lru_okD(3) [OF l _ e] by simp
qed

lemma logged_entry:
  assumes "pinned held brs c" and "k \<in> logged brs"
  obtains r where "r \<in> set brs" "br_index r = k" "lv_key (br_block r) = k" "has_entry c k (lv_arc (br_block r))"
proof -
  obtain r where r: "r \<in> set brs" "br_index r = k" using assms(2) by blast
  have "br_block r \<in># held + mset (map br_block brs)" using r(1) by simp
  then have "has_entry c (lv_key (br_block r)) (lv_arc (br_block r))" by (rule lru_okD(5) [OF cache_okD(1) [OF pinnedD(1) [OF assms(1)]]])
  then show thesis using that [of r] r pinnedD(3) [OF assms(1) r(1)] by simp
qed

text \<open>A change around one entry.\<close>

lemma entry_ok_cong:
  assumes "j \<in> hk \<longleftrightarrow> j \<in> hk'" "j \<in> lk \<longleftrightarrow> j \<in> lk'" "disk_block d j = disk_block d' j"
  shows "entry_ok hk lk d j b = entry_ok hk' lk' d' j b"
  using assms by (simp add: entry_ok_def)

lemma pinned_step:
  assumes ok: "pinned held brs c" and ok': "log_cache_ok (held' + mset (map br_block brs')) c'"
    and e: "has_entry c k a" and ent: "set (lru_list (bio_lru c')) = set (lru_list (bio_lru c))"
    and blk: "\<forall>b. b \<noteq> a \<longrightarrow> block_of c' b = block_of c b \<and> is_locked c' b = is_locked c b"
    and dev: "\<forall>j. block_no_range j \<longrightarrow> j \<noteq> k \<longrightarrow> disk_block (bio_device c') j = disk_block (bio_device c) j"
    and keys: "\<forall>j. j \<noteq> k \<longrightarrow> (j \<in> keys_of held' \<longleftrightarrow> j \<in> keys_of held) \<and> (j \<in> logged brs' \<longleftrightarrow> j \<in> logged brs)"
    and wf: "distinct (map br_index brs')" "\<forall>r \<in> set brs'. br_index r = lv_key (br_block r)"
    and here: "is_locked c' a \<longrightarrow> k \<in> keys_of held'" "entry_ok (keys_of held') (logged brs') (bio_device c') k (block_of c' a)"
  shows "pinned held' brs' c'"
proof -
  note l = cache_okD(1) [OF pinnedD(1) [OF ok]]
  have one: "b = a \<longleftrightarrow> j = k" if "has_entry c j b" for j b
    using lru_okD(3) [OF l, of k b a] lru_ok_arc(2) [OF l e, of "Some j"] e that by auto
  have "j \<in> keys_of held'" if jb: "has_entry c j b" and lk: "is_locked c' b" for j b
  proof (cases "j = k")
    case True
    then show ?thesis using one [OF jb] lk here(1) by simp
  next
    case False
    then show ?thesis using one [OF jb] lk blk keys pinnedD(4) [OF ok jb] by simp
  qed
  moreover have "entry_ok (keys_of held') (logged brs') (bio_device c') j (block_of c' b)" if jb: "has_entry c j b" for j b
  proof (cases "j = k")
    case True
    then show ?thesis using one [OF jb] here(2) by simp
  next
    case False
    have "entry_ok (keys_of held) (logged brs) (bio_device c) j (block_of c b)" by (rule pinnedD(5) [OF ok jb])
    moreover have "block_no_range j" using cache_okD(2) [OF pinnedD(1) [OF ok] jb] .
    ultimately show ?thesis using False one [OF jb] blk keys dev entry_ok_cong [of j "keys_of held'" "keys_of held" "logged brs'" "logged brs"]
      by simp
  qed
  ultimately show ?thesis unfolding pinned_def ent using ok' wf by simp
qed

text \<open>A change of one buffer only.\<close>

definition kept :: "nat \<Rightarrow> memory block_io_cache \<Rightarrow> memory block_io_cache \<Rightarrow> bool" where
  "kept a c c' \<longleftrightarrow> (\<forall>b. b \<noteq> a \<longrightarrow> block_of c' b = block_of c b)"

lemma keptD: "kept a c c' \<Longrightarrow> b \<noteq> a \<Longrightarrow> block_of c' b = block_of c b"
  by (simp add: kept_def)

lemma kept_trans: "kept a c c' \<Longrightarrow> kept a c' c'' \<Longrightarrow> kept a c c''"
  by (simp add: kept_def)

section \<open>Open blocks\<close>

text \<open>A guard on a block that is held, and one whose block is valid.\<close>

definition opened :: "usize lru_value multiset \<Rightarrow> block_ref list \<Rightarrow> memory block_io_cache \<Rightarrow> block_guard \<Rightarrow> bool" where
  "opened held brs c g \<longleftrightarrow> pinned held brs c \<and> bg_block g \<in># held \<and> bg_index g = lv_key (bg_block g) \<and>
     bd_index (block_of c (lv_arc (bg_block g))) = bg_index g"

abbreviation gblock :: "memory block_io_cache \<Rightarrow> block_guard \<Rightarrow> block_data" where
  "gblock c g \<equiv> block_of c (lv_arc (bg_block g))"

definition loaded :: "usize lru_value multiset \<Rightarrow> block_ref list \<Rightarrow> memory block_io_cache \<Rightarrow> block_guard \<Rightarrow> bool" where
  "loaded held brs c g \<longleftrightarrow> opened held brs c g \<and> bd_valid (gblock c g)"

lemma openedD:
  assumes "opened held brs c g"
  shows "pinned held brs c" and "bg_block g \<in># held" and "bg_index g = lv_key (bg_block g)" and "bd_index (gblock c g) = bg_index g"
    and "bg_block g \<in># held + mset (map br_block brs)" and "has_entry c (bg_index g) (lv_arc (bg_block g))"
    and "bg_index g \<in> keys_of held" and "log_cache_ok (held + mset (map br_block brs)) c" and "block_no_range (bg_index g)"
    and "entry_ok (keys_of held) (logged brs) (bio_device c) (bg_index g) (gblock c g)"
proof -
  show o: "pinned held brs c" "bg_block g \<in># held" "bg_index g = lv_key (bg_block g)" "bd_index (gblock c g) = bg_index g"
    using assms by (simp_all add: opened_def)
  show "bg_block g \<in># held + mset (map br_block brs)" using o(2) by simp
  show e: "has_entry c (bg_index g) (lv_arc (bg_block g))" using pinned_entry(1) [OF o(1,2)] o(3) by simp
  show "bg_index g \<in> keys_of held" using o(2,3) by simp
  show "log_cache_ok (held + mset (map br_block brs)) c" by (rule pinnedD(1) [OF o(1)])
  then show "block_no_range (bg_index g)" using e by (rule cache_okD(2))
  show "entry_ok (keys_of held) (logged brs) (bio_device c) (bg_index g) (gblock c g)" by (rule pinnedD(5) [OF o(1) e])
qed

lemma loadedD:
  assumes "loaded held brs c g"
  shows "opened held brs c g" and "bd_valid (gblock c g)" and "bd_data (gblock c g) = cview c (bg_index g)"
    and "length (cview c (bg_index g)) = 1024"
proof -
  show o: "opened held brs c g" and v: "bd_valid (gblock c g)" using assms by (simp_all add: loaded_def)
  show d: "bd_data (gblock c g) = cview c (bg_index g)"
    using bview_hit [OF openedD(8) [OF o] openedD(6) [OF o]] openedD(4) [OF o] v by simp
  show "length (cview c (bg_index g)) = 1024" using cache_okD(3) [OF openedD(8) [OF o]] d by metis
qed

text \<open>A step that changes only the block of an open guard.\<close>

lemma opened_step:
  assumes o: "opened held brs c g" and ok': "log_cache_ok (held + mset (map br_block brs)) c'"
    and ent: "set (lru_list (bio_lru c')) = set (lru_list (bio_lru c))" and lk: "is_locked c' = is_locked c"
    and blk: "block_of c' = (block_of c)(lv_arc (bg_block g) := b)"
    and dev: "\<forall>j. block_no_range j \<longrightarrow> j \<noteq> bg_index g \<longrightarrow> disk_block (bio_device c') j = disk_block (bio_device c) j"
    and b: "bd_index b = bg_index g" "bd_valid b" "bg_index g \<in> logged brs \<or> bd_dirty b \<or> bd_data b = disk_block (bio_device c') (bg_index g)"
  shows "loaded held brs c' g"
proof -
  have "pinned held brs c'"
    by (rule pinned_step [OF openedD(1) [OF o] ok' openedD(6) [OF o] ent])
      (use blk lk dev pinnedD(2,3) [OF openedD(1) [OF o]] openedD(7) [OF o] b in \<open>auto simp: entry_ok_def\<close>)
  then show ?thesis using openedD(2,3) [OF o] b blk by (simp add: loaded_def opened_def)
qed

lemma loaded_other:
  assumes "loaded held brs c g" and "pinned held' brs' c'" and "bg_block g \<in># held'" and "gblock c' g = gblock c g"
  shows "loaded held' brs' c' g"
  using assms by (simp add: loaded_def opened_def)

lemma pinned_arcs:
  assumes "pinned held brs c" and "v \<in># held" and "w \<in># held" and "lv_key v \<noteq> lv_key w"
  shows "lv_arc v \<noteq> lv_arc w"
  using lru_handle_same [OF cache_okD(1) [OF pinnedD(1) [OF assms(1)]], of v w] assms(2-4) by simp

lemma cwp_on_cache: "cwp (on_cache m) Q s \<longleftrightarrow> cwp m (\<lambda>a c. Q a (s\<lparr>fs_cache := c\<rparr>)) (fs_cache s)"
  by (auto simp: cwp_def on_cache_def split: prod.splits)

lemma cwp_never_fails: "cwp (never_fails m) Q s \<longleftrightarrow> cwp m (\<lambda>r s. \<exists>a. r = Inr a \<and> Q a s) s"
  by (auto simp: cwp_def never_fails_def cbind_def split: prod.splits outcome.splits sum.splits)

text \<open>A reference is taken, and locked.\<close>

lemma get_wp:
  assumes ok: "pinned held brs (fs_cache s)" and k: "block_no_range k" and room: "has_room held brs k"
    and Q: "\<And>v c. pinned (add_mset v held) brs c \<Longrightarrow> lv_key v = k \<Longrightarrow> cview c = cview (fs_cache s) \<Longrightarrow>
      bio_device c = bio_device (fs_cache s) \<Longrightarrow> is_locked c = is_locked (fs_cache s) \<Longrightarrow> block_of c = block_of (fs_cache s) \<Longrightarrow>
      (k \<notin> keys_of held \<longrightarrow> \<not> is_locked c (lv_arc v) \<and> (k \<notin> logged brs \<longrightarrow> bd_index (block_of c (lv_arc v)) = k \<longrightarrow>
         bd_valid (block_of c (lv_arc v)) \<longrightarrow> \<not> bd_dirty (block_of c (lv_arc v)))) \<Longrightarrow> Q \<lparr>br_index = k, br_block = v\<rparr> (s\<lparr>fs_cache := c\<rparr>)"
  shows "cwp (block_io_get ROOT_DEV k) Q s"
proof -
  let ?c = "fs_cache s"
  obtain a c' where g: "bio_get k ?c = (Ok \<lparr>br_index = k, br_block = \<lparr>lv_key = k, lv_arc = a\<rparr>\<rparr>, c')"
    "log_cache_ok (add_mset \<lparr>lv_key = k, lv_arc = a\<rparr> (held + mset (map br_block brs))) c'" "cview c' = cview ?c"
    "bio_device c' = bio_device ?c" "block_of c' = block_of ?c" "is_locked c' = is_locked ?c" "is_locked c' a \<longrightarrow> has_entry ?c k a"
    "has_entry ?c k a \<or> \<not> (bd_valid (block_of ?c a) \<and> bd_index (block_of ?c a) = k)"
    "\<forall>j b. has_entry c' j b \<longrightarrow> has_entry ?c j b \<or> j = k \<and> b = a"
    using bio_get_ok [OF pinnedD(1) [OF ok] k pinned_room [OF ok room]] .
  define v where "v = \<lparr>lv_key = k, lv_arc = a\<rparr>"
  have v: "lv_key v = k" "lv_arc v = a" by (simp_all add: v_def)
  have ok': "log_cache_ok (add_mset v held + mset (map br_block brs)) c'" using g(2) by (simp add: v_def)
  have "j \<in> keys_of (add_mset v held)" if jb: "has_entry c' j b" and lk: "is_locked c' b" for j b
  proof (cases "has_entry ?c j b")
    case True
    then show ?thesis using pinnedD(4) [OF ok True] lk g(6) by simp
  next
    case False
    then show ?thesis using g(9) jb v(1) by auto
  qed
  moreover have "entry_ok (keys_of (add_mset v held)) (logged brs) (bio_device c') j (block_of c' b)" if jb: "has_entry c' j b" for j b
  proof (cases "has_entry ?c j b")
    case True
    have "entry_ok (keys_of held) (logged brs) (bio_device ?c) j (block_of ?c b)" by (rule pinnedD(5) [OF ok True])
    then show ?thesis unfolding g(4,5) by (rule entry_ok_mono) auto
  next
    case False
    then have new: "j = k" "b = a" "\<not> has_entry ?c k a" using g(9) jb by auto
    have "k \<notin> logged brs"
    proof
      assume "k \<in> logged brs"
      then obtain r where r: "r \<in> set brs" "br_index r = k" "lv_key (br_block r) = k" "has_entry ?c k (lv_arc (br_block r))"
        using logged_entry [OF ok] by blast
      have "has_entry c' k (lv_arc (br_block r))" using lru_okD(5) [OF cache_okD(1) [OF ok'], of "br_block r"] r(1,3) by simp
      then have "lv_arc (br_block r) = a" by (rule lru_okD(3) [OF cache_okD(1) [OF ok']]) (use jb new in simp)
      then show False using r(4) new(3) by simp
    qed
    then show ?thesis using new g(5,8) by (auto simp: entry_ok_def)
  qed
  ultimately have "pinned (add_mset v held) brs c'"
    unfolding pinned_def using ok' pinnedD(2,3) [OF ok] by simp
  moreover have "\<not> is_locked c' a \<and> (k \<notin> logged brs \<longrightarrow> bd_index (block_of c' a) = k \<longrightarrow> bd_valid (block_of c' a) \<longrightarrow> \<not> bd_dirty (block_of c' a))"
    if "k \<notin> keys_of held"
  proof (cases "has_entry ?c k a")
    case True
    show ?thesis using pinnedD(4,5) [OF ok True] that unfolding g(5,6) entry_ok_def by (auto split: if_splits)
  next
    case False
    then show ?thesis using g(5,7,8) by auto
  qed
  ultimately have "Q \<lparr>br_index = k, br_block = v\<rparr> (s\<lparr>fs_cache := c'\<rparr>)" using g(3-6) v by (intro Q) auto
  then show ?thesis using g(1) by (auto simp: block_io_get_def cwp_on_cache v_def intro: cwp_eqI)
qed

lemma lock_wp:
  assumes ok: "pinned held brs (fs_cache s)" and r: "br_block r \<in># held + mset (map br_block brs)" "br_index r = lv_key (br_block r)"
    and un: "\<not> is_locked (fs_cache s) (lv_arc (br_block r))"
    and Q: "\<And>c g. g = \<lparr>bg_index = br_index r, bg_block = br_block r\<rparr> \<Longrightarrow> opened (add_mset (br_block r) held) brs c g \<Longrightarrow>
      cview c = cview (fs_cache s) \<Longrightarrow> bio_device c = bio_device (fs_cache s) \<Longrightarrow>
      is_locked c = (is_locked (fs_cache s))(lv_arc (br_block r) := True) \<Longrightarrow> kept (lv_arc (br_block r)) (fs_cache s) c \<Longrightarrow>
      gblock c g = relabel (br_index r) (block_of (fs_cache s) (lv_arc (br_block r))) \<Longrightarrow> Q g (s\<lparr>fs_cache := c\<rparr>)"
  shows "cwp (on_cache (ref_lock r)) Q s"
proof -
  let ?c = "fs_cache s" and ?v = "br_block r" and ?k = "br_index r"
  obtain c' g where l: "ref_lock r ?c = (Ok g, c')" "g = \<lparr>bg_index = ?k, bg_block = ?v\<rparr>"
    "log_cache_ok (add_mset ?v (held + mset (map br_block brs))) c'" "cview c' = cview ?c" "bio_device c' = bio_device ?c"
    "is_locked c' = (is_locked ?c)(lv_arc ?v := True)" "block_of c' (lv_arc ?v) = relabel ?k (block_of ?c (lv_arc ?v))"
    "\<forall>b. b \<noteq> lv_arc ?v \<longrightarrow> block_of c' b = block_of ?c b" "set (lru_list (bio_lru c')) = set (lru_list (bio_lru ?c))"
    using vd.ref_lock_ok [OF pinnedD(1) [OF ok] r un] .
  have e: "has_entry ?c ?k (lv_arc ?v)" using lru_okD(5) [OF cache_okD(1) [OF pinnedD(1) [OF ok]] r(1)] r(2) by simp
  have "entry_ok (keys_of (add_mset ?v held)) (logged brs) (bio_device ?c) ?k (block_of c' (lv_arc ?v))"
    unfolding l(7) by (rule entry_ok_mono [OF entry_ok_relabel [OF pinnedD(5) [OF ok e]]]) auto
  then have "pinned (add_mset ?v held) brs c'"
    using pinnedD(2,3) [OF ok] r(2) l(3,5,6,8) by (intro pinned_step [OF ok _ e l(9)]) auto
  then have "opened (add_mset ?v held) brs c' g" using l(2,7) r(2) by (simp add: opened_def relabel_def)
  then have "Q g (s\<lparr>fs_cache := c'\<rparr>)" using l by (intro Q) (auto simp: kept_def)
  then show ?thesis using l(1) by (auto simp: cwp_on_cache intro: cwp_eqI)
qed

lemma guard_read_wp:
  assumes o: "opened held brs (fs_cache s) g"
    and Q: "\<And>c. loaded held brs c g \<Longrightarrow> cview c = cview (fs_cache s) \<Longrightarrow> bio_device c = bio_device (fs_cache s) \<Longrightarrow>
      is_locked c = is_locked (fs_cache s) \<Longrightarrow> kept (lv_arc (bg_block g)) (fs_cache s) c \<Longrightarrow> (bd_dirty (gblock c g) \<longrightarrow> bd_valid (gblock (fs_cache s) g) \<and> bd_dirty (gblock (fs_cache s) g)) \<Longrightarrow> Q g (s\<lparr>fs_cache := c\<rparr>)"
  shows "cwp (never_fails (on_cache (guard_read kernel_disk g))) Q s"
proof -
  let ?b = "gblock (fs_cache s) g"
  let ?b' = "\<lparr>bd_index = bg_index g, bd_valid = True, bd_dirty = (bd_valid ?b \<and> bd_dirty ?b), bd_data = cview (fs_cache s) (bg_index g)\<rparr>"
  obtain c' where c': "guard_read kernel_disk g (fs_cache s) = (Ok (Inr g), c')" "log_cache_ok (held + mset (map br_block brs)) c'"
      "cview c' = cview (fs_cache s)" "bio_device c' = bio_device (fs_cache s)" "is_locked c' = is_locked (fs_cache s)"
      "block_of c' = (block_of (fs_cache s))(lv_arc (bg_block g) := ?b')"
      "set (lru_list (bio_lru c')) = set (lru_list (bio_lru (fs_cache s)))"
    using vd.guard_read_ok [OF openedD(8) [OF o] openedD(5,3) [OF o] openedD(4) [OF o]] .
  have "cview (fs_cache s) (bg_index g) = (if bd_valid ?b then bd_data ?b else disk_block (bio_device (fs_cache s)) (bg_index g))"
    using bview_hit [OF openedD(8) [OF o] openedD(6) [OF o]] openedD(4) [OF o] by simp
  then have "loaded held brs c' g"
    by (intro opened_step [OF o c'(2,7,5,6)]) (use openedD(4,10) [OF o] in \<open>auto simp: c'(4) entry_ok_def split: if_splits\<close>)
  then have "Q g (s\<lparr>fs_cache := c'\<rparr>)" using c'(3-6) by (intro Q) (auto simp: kept_def)
  then show ?thesis using c'(1) by (auto simp: cwp_never_fails cwp_on_cache intro: cwp_eqI)
qed

lemma guard_bytes_wp:
  assumes "loaded held brs (fs_cache s) g" and "Q (cview (fs_cache s) (bg_index g)) s"
  shows "cwp (on_cache (guard_bytes g)) Q s"
  using assms(2) by (simp add: cwp_on_cache guard_bytes_def bio_block_eq loadedD(3) [OF assms(1)])

lemma guard_bytes_mut_wp:
  assumes l: "loaded held brs (fs_cache s) g" and len: "length (f (cview (fs_cache s) (bg_index g))) = 1024"
    and Q: "\<And>c. loaded held brs c g \<Longrightarrow> cview c = (cview (fs_cache s))(bg_index g := f (cview (fs_cache s) (bg_index g))) \<Longrightarrow>
      bio_device c = bio_device (fs_cache s) \<Longrightarrow> is_locked c = is_locked (fs_cache s) \<Longrightarrow> kept (lv_arc (bg_block g)) (fs_cache s) c \<Longrightarrow> bd_dirty (gblock c g) \<Longrightarrow> Q () (s\<lparr>fs_cache := c\<rparr>)"
  shows "cwp (on_cache (guard_bytes_mut g f)) Q s"
proof -
  note o = loadedD(1) [OF l] and d = loadedD(3) [OF l]
  let ?b = "gblock (fs_cache s) g"
  obtain c' where c': "guard_bytes_mut g f (fs_cache s) = (Ok (), c')" "log_cache_ok (held + mset (map br_block brs)) c'"
      "cview c' = (cview (fs_cache s))(bg_index g := f (cview (fs_cache s) (bg_index g)))"
      "bio_device c' = bio_device (fs_cache s)" "is_locked c' = is_locked (fs_cache s)"
      "block_of c' = (block_of (fs_cache s))(lv_arc (bg_block g) := ?b\<lparr>bd_dirty := True, bd_data := f (bd_data ?b)\<rparr>)"
      "set (lru_list (bio_lru c')) = set (lru_list (bio_lru (fs_cache s)))"
    by (rule vd.guard_bytes_mut_ok [OF openedD(8) [OF o] openedD(5,3) [OF o] refl openedD(4) [OF o] loadedD(2) [OF l]]) (use len d in auto)
  have "loaded held brs c' g"
    by (rule opened_step [OF o c'(2,7,5,6)]) (use openedD(4) [OF o] loadedD(2) [OF l] c'(4) in auto)
  then have "Q () (s\<lparr>fs_cache := c'\<rparr>)" using c'(3-6) by (intro Q) (auto simp: kept_def)
  then show ?thesis using c'(1) by (auto simp: cwp_on_cache intro: cwp_eqI)
qed

lemma guard_set_data_wp:
  assumes o: "opened held brs (fs_cache s) g" and len: "length data = 1024"
    and Q: "\<And>c. loaded held brs c g \<Longrightarrow> cview c = (cview (fs_cache s))(bg_index g := data) \<Longrightarrow>
      bio_device c = bio_device (fs_cache s) \<Longrightarrow> is_locked c = is_locked (fs_cache s) \<Longrightarrow> kept (lv_arc (bg_block g)) (fs_cache s) c \<Longrightarrow> bd_dirty (gblock c g) \<Longrightarrow> Q g (s\<lparr>fs_cache := c\<rparr>)"
  shows "cwp (on_cache (guard_set_data data g)) Q s"
proof -
  let ?b = "\<lparr>bd_index = bg_index g, bd_valid = True, bd_dirty = True, bd_data = data\<rparr>"
  obtain c' where c': "guard_set_data data g (fs_cache s) = (Ok g, c')" "log_cache_ok (held + mset (map br_block brs)) c'"
      "cview c' = (cview (fs_cache s))(bg_index g := data)" "bio_device c' = bio_device (fs_cache s)" "is_locked c' = is_locked (fs_cache s)"
      "block_of c' = (block_of (fs_cache s))(lv_arc (bg_block g) := ?b)"
      "set (lru_list (bio_lru c')) = set (lru_list (bio_lru (fs_cache s)))"
    using vd.guard_set_data_ok [OF openedD(8) [OF o] openedD(5,3) [OF o] openedD(4) [OF o] len] .
  have "loaded held brs c' g" by (rule opened_step [OF o c'(2,7,5,6)]) (use c'(4) in auto)
  then have "Q g (s\<lparr>fs_cache := c'\<rparr>)" using c'(3-6) by (intro Q) (auto simp: kept_def)
  then show ?thesis using c'(1) by (auto simp: cwp_on_cache intro: cwp_eqI)
qed

lemma guard_zeroed_wp:
  assumes o: "opened held brs (fs_cache s) g"
    and Q: "\<And>c. loaded held brs c g \<Longrightarrow> cview c = (cview (fs_cache s))(bg_index g := replicate 1024 0) \<Longrightarrow>
      bio_device c = bio_device (fs_cache s) \<Longrightarrow> is_locked c = is_locked (fs_cache s) \<Longrightarrow> kept (lv_arc (bg_block g)) (fs_cache s) c \<Longrightarrow> bd_dirty (gblock c g) \<Longrightarrow> Q g (s\<lparr>fs_cache := c\<rparr>)"
  shows "cwp (on_cache (guard_zeroed g)) Q s"
  using guard_set_data_wp [OF o, of "replicate 1024 0" Q] Q vd.guard_zeroed_ok [OF openedD(8) [OF o] openedD(5,3) [OF o] openedD(4) [OF o]]
  by (simp add: cwp_def on_cache_def)

lemma guard_write_wp:
  assumes l: "loaded held brs (fs_cache s) g"
    and Q: "\<And>c. loaded held brs c g \<Longrightarrow> \<forall>j. block_no_range j \<longrightarrow> cview c j = cview (fs_cache s) j \<Longrightarrow>
      \<forall>j. block_no_range j \<longrightarrow> disk_block (bio_device c) j =
        (if j = bg_index g then cview (fs_cache s) j else disk_block (bio_device (fs_cache s)) j) \<Longrightarrow>
      is_locked c = is_locked (fs_cache s) \<Longrightarrow> kept (lv_arc (bg_block g)) (fs_cache s) c \<Longrightarrow> \<not> bd_dirty (gblock c g) \<Longrightarrow> Q () (s\<lparr>fs_cache := c\<rparr>)"
  shows "cwp (never_fails (on_cache (guard_write kernel_disk g))) Q s"
proof -
  note o = loadedD(1) [OF l] and d = loadedD(3) [OF l]
  let ?b = "gblock (fs_cache s) g"
  obtain c' where c': "guard_write kernel_disk g (fs_cache s) = (Ok (Inr ()), c')" "log_cache_ok (held + mset (map br_block brs)) c'"
      "\<forall>j. block_no_range j \<longrightarrow> cview c' j = cview (fs_cache s) j"
      "\<forall>j. block_no_range j \<longrightarrow> disk_block (bio_device c') j = (if j = bg_index g then bd_data ?b else disk_block (bio_device (fs_cache s)) j)"
      "is_locked c' = is_locked (fs_cache s)" "block_of c' = (block_of (fs_cache s))(lv_arc (bg_block g) := ?b\<lparr>bd_dirty := False\<rparr>)"
      "set (lru_list (bio_lru c')) = set (lru_list (bio_lru (fs_cache s)))"
    using vd.guard_write_ok [OF openedD(8) [OF o] openedD(5,3) [OF o] refl openedD(4) [OF o] loadedD(2) [OF l]] .
  have "loaded held brs c' g"
    by (rule opened_step [OF o c'(2,7,5,6)]) (use openedD(4,9) [OF o] loadedD(2) [OF l] c'(4) in auto)
  then have "Q () (s\<lparr>fs_cache := c'\<rparr>)" using c'(3-6) d by (intro Q) (auto simp: kept_def)
  then show ?thesis using c'(1) by (auto simp: cwp_never_fails cwp_on_cache intro: cwp_eqI)
qed


text \<open>A guard is dropped while another handle of its block is left.\<close>

lemma guard_drop_wp:
  assumes o: "opened (add_mset (bg_block g) held) brs (fs_cache s) g" and v: "bg_block g \<in># held + mset (map br_block brs)"
    and Q: "\<And>c. pinned held brs c \<Longrightarrow> cview c = cview (fs_cache s) \<Longrightarrow> bio_device c = bio_device (fs_cache s) \<Longrightarrow>
      is_locked c = (is_locked (fs_cache s))(lv_arc (bg_block g) := False) \<Longrightarrow> block_of c = block_of (fs_cache s) \<Longrightarrow> Q () (s\<lparr>fs_cache := c\<rparr>)"
  shows "cwp (on_cache (guard_drop g)) Q s"
proof -
  let ?c = "fs_cache s" and ?k = "bg_index g"
  have ok: "log_cache_ok (add_mset (bg_block g) (held + mset (map br_block brs))) ?c" using openedD(8) [OF o] by simp
  obtain c' where c': "guard_drop g ?c = (Ok (), c')" "log_cache_ok (held + mset (map br_block brs)) c'" "cview c' = cview ?c"
    "bio_device c' = bio_device ?c" "is_locked c' = (is_locked ?c)(lv_arc (bg_block g) := False)" "block_of c' = block_of ?c"
    "set (lru_list (bio_lru c')) = set (lru_list (bio_lru ?c))"
    using vd.guard_drop_ok [OF ok v] .
  have k: "?k \<in> keys_of held \<or> ?k \<in> logged brs"
    using v openedD(3) [OF o] pinnedD(3) [OF openedD(1) [OF o]] by force
  have "entry_ok (keys_of held) (logged brs) (bio_device c') ?k (block_of c' (lv_arc (bg_block g)))"
    using openedD(10) [OF o] k unfolding c'(4,6) by (auto simp: entry_ok_def split: if_splits)
  then have "pinned held brs c'"
    using pinnedD(2,3) [OF openedD(1) [OF o]] c'(2,4-6) openedD(3) [OF o]
    by (intro pinned_step [OF openedD(1) [OF o] _ openedD(6) [OF o] c'(7)]) auto
  then have "Q () (s\<lparr>fs_cache := c'\<rparr>)" using c'(3-6) by (intro Q) (auto simp: kept_def)
  then show ?thesis using c'(1) by (auto simp: cwp_on_cache intro: cwp_eqI)
qed

text \<open>A reference to an unlocked block is dropped; a block that it was the last reference of must not be dirty.\<close>

lemma ref_drop_wp:
  assumes ok: "pinned (add_mset (br_block r) held) brs (fs_cache s)" and un: "\<not> is_locked (fs_cache s) (lv_arc (br_block r))"
    and cl: "bd_valid (block_of (fs_cache s) (lv_arc (br_block r))) \<Longrightarrow> bd_index (block_of (fs_cache s) (lv_arc (br_block r))) = lv_key (br_block r) \<and>
      (bd_dirty (block_of (fs_cache s) (lv_arc (br_block r))) \<longrightarrow> lv_key (br_block r) \<in> logged brs)"
    and Q: "\<And>c. pinned held brs c \<Longrightarrow> cview c = cview (fs_cache s) \<Longrightarrow> bio_device c = bio_device (fs_cache s) \<Longrightarrow>
      is_locked c = is_locked (fs_cache s) \<Longrightarrow> block_of c = block_of (fs_cache s) \<Longrightarrow> Q () (s\<lparr>fs_cache := c\<rparr>)"
  shows "cwp (on_cache (ref_drop r)) Q s"
proof -
  let ?c = "fs_cache s" and ?v = "br_block r" and ?live = "held + mset (map br_block brs)"
  let ?b = "block_of ?c (lv_arc ?v)"
  have l: "log_cache_ok (add_mset ?v ?live) ?c" using pinnedD(1) [OF ok] by simp
  have e: "has_entry ?c (lv_key ?v) (lv_arc ?v)" using pinned_entry(1) [OF ok] by simp
  have old: "entry_ok (keys_of (add_mset ?v held)) (logged brs) (bio_device ?c) (lv_key ?v) ?b" by (rule pinnedD(5) [OF ok e])
  obtain c' where c': "bio_release ?v ?c = (Ok (), c')" "log_cache_ok ?live c'" "looks_same ?c c'"
  proof (cases "?v \<in># ?live")
    case True
    then show thesis using bio_release_ok [OF l True] that by blast
  next
    case False
    have "lv_key ?v \<notin> logged brs"
    proof
      assume "lv_key ?v \<in> logged brs"
      then obtain q where q: "q \<in> set brs" "lv_key (br_block q) = lv_key ?v" using logged_entry [OF ok] by blast
      then have "lv_arc (br_block q) = lv_arc ?v" using lru_handle_same [OF cache_okD(1) [OF l], of "br_block q" ?v] by auto
      then have "br_block q = ?v" using q(2) by (simp add: lru_value.equality)
      then show False using False imageI [OF q(1), of br_block] by simp
    qed
    then have clean: "bd_index ?b = lv_key ?v \<and> bd_data ?b = disk_block (bio_device ?c) (lv_key ?v)" if "bd_valid ?b"
      using cl old that by (simp add: entry_ok_def)
    then show thesis using bio_release_last [OF l un clean] that by blast
  qed
  have "entry_ok (keys_of held) (logged brs) (bio_device ?c) (lv_key ?v) ?b"
    using old cl by (auto simp: entry_ok_def)
  then have p: "pinned held brs c'"
    using pinnedD(2,3) [OF ok] c'(2) un looks_sameD [OF c'(3)] by (intro pinned_step [OF ok _ e]) auto
  have "Q () (s\<lparr>fs_cache := c'\<rparr>)"
    using p looks_sameD [OF c'(3)] looks_same_view [OF c'(3) cache_okD(1) [OF l] cache_okD(1) [OF c'(2)]] by (intro Q) auto
  then show ?thesis using c'(1) by (auto simp: cwp_on_cache ref_drop_def intro: cwp_eqI)
qed


text \<open>An open block is logged.\<close>

lemma lh_push_wp:
  assumes o: "loaded held (lh_blocks h) (fs_cache s) g" and r: "r = \<lparr>br_index = bg_index g, br_block = bg_block g\<rparr>"
    and len: "length (lh_blocks h) < max_log_len (fs_sb s)" "length (lh_blocks h) < 30"
    and Q: "\<And>c h'. loaded held (lh_blocks h') c g \<Longrightarrow> lh_dev h' = lh_dev h \<Longrightarrow> logged (lh_blocks h') = insert (bg_index g) (logged (lh_blocks h)) \<Longrightarrow>
      length (lh_blocks h') \<le> Suc (length (lh_blocks h)) \<Longrightarrow> cview c = cview (fs_cache s) \<Longrightarrow> bio_device c = bio_device (fs_cache s) \<Longrightarrow>
      is_locked c = is_locked (fs_cache s) \<Longrightarrow> block_of c = block_of (fs_cache s) \<Longrightarrow> Q h' (s\<lparr>fs_cache := c\<rparr>)"
  shows "cwp (lh_push r h) Q s"
proof (cases "bg_index g \<in> logged (lh_blocks h)")
  case True
  have "Q h (s\<lparr>fs_cache := fs_cache s\<rparr>)" using o True by (intro Q) auto
  then show ?thesis using len(1) True r by (auto simp: lh_push_def)
next
  case False
  let ?c = "fs_cache s" and ?brs = "lh_blocks h" and ?v = "bg_block g"
  note op = loadedD(1) [OF o]
  obtain c' where c': "bio_clone ?v ?c = (Ok ?v, c')" "log_cache_ok (add_mset ?v (held + mset (map br_block ?brs))) c'" "looks_same ?c c'"
    using bio_clone_ok [OF openedD(8) [OF op] openedD(5) [OF op]] .
  note same = looks_sameD [OF c'(3)]
  have "entry_ok (keys_of held) (logged (?brs @ [r])) (bio_device c') (bg_index g) (gblock c' g)"
    using openedD(4) [OF op] loadedD(2) [OF o] r same by (simp add: entry_ok_def)
  then have "pinned held (?brs @ [r]) c'"
    using pinnedD(2,3) [OF openedD(1) [OF op]] c'(2) same False openedD(3,7) [OF op] r
    by (intro pinned_step [OF openedD(1) [OF op] _ openedD(6) [OF op]]) auto
  then have l: "loaded held (?brs @ [r]) c' g" using openedD(2-4) [OF op] loadedD(2) [OF o] same by (simp add: loaded_def opened_def)
  have "cview c' = cview ?c" using looks_same_view [OF c'(3) cache_okD(1) [OF openedD(8) [OF op]] cache_okD(1) [OF c'(2)]] .
  then have "Q (h\<lparr>lh_blocks := ?brs @ [r]\<rparr>) (s\<lparr>fs_cache := c'\<rparr>)" using l same r by (intro Q) auto
  moreover have "cwp (on_cache (ref_clone r)) Q s \<longleftrightarrow> Q r (s\<lparr>fs_cache := c'\<rparr>)" for Q
    using c'(1) r by (simp add: on_cache_def ref_clone_def cwp_def cbind_simps)
  moreover have "\<forall>b \<in> set ?brs. br_index b \<noteq> br_index r" using False r by force
  ultimately show ?thesis using len by (simp add: lh_push_def LOG_SIZE_def MAX_OP_BLOCKS_def)
qed


section \<open>Commit\<close>

text \<open>The blocks of the log on disk, its header first.\<close>

definition log_area :: "super_block \<Rightarrow> nat \<Rightarrow> usize set" where
  "log_area sb n = (\<lambda>i. as_index (log_body_block sb (of_nat i))) ` {..<n}"

lemma header_in_log_area: "0 < n \<Longrightarrow> as_index (log_header_block sb) \<in> log_area sb n"
  by (force simp: log_area_def log_header_block_def log_body_block_def)

text \<open>What a write outside of some blocks keeps.\<close>

definition same_outside :: "usize set \<Rightarrow> memory block_io_cache \<Rightarrow> memory block_io_cache \<Rightarrow> bool" where
  "same_outside A c c' \<longleftrightarrow> (\<forall>j. block_no_range j \<longrightarrow> j \<notin> A \<longrightarrow>
     cview c' j = cview c j \<and> disk_block (bio_device c') j = disk_block (bio_device c) j)"

lemma same_outside_trans: "same_outside A c c' \<Longrightarrow> same_outside A c' c'' \<Longrightarrow> same_outside A c c''"
  by (simp add: same_outside_def)

lemma lock_read_wp:
  assumes ok: "pinned held brs (fs_cache s)" and r: "br_block r \<in># held + mset (map br_block brs)" "br_index r = lv_key (br_block r)"
    and un: "\<not> is_locked (fs_cache s) (lv_arc (br_block r))"
    and Q: "\<And>c g. g = \<lparr>bg_index = br_index r, bg_block = br_block r\<rparr> \<Longrightarrow> loaded (add_mset (br_block r) held) brs c g \<Longrightarrow>
      cview c = cview (fs_cache s) \<Longrightarrow> bio_device c = bio_device (fs_cache s) \<Longrightarrow>
      is_locked c = (is_locked (fs_cache s))(lv_arc (br_block r) := True) \<Longrightarrow> kept (lv_arc (br_block r)) (fs_cache s) c \<Longrightarrow>
      (bd_dirty (gblock c g) \<longrightarrow> bd_index (block_of (fs_cache s) (lv_arc (br_block r))) = br_index r \<and>
         bd_valid (block_of (fs_cache s) (lv_arc (br_block r))) \<and> bd_dirty (block_of (fs_cache s) (lv_arc (br_block r)))) \<Longrightarrow>
      Q g (s\<lparr>fs_cache := c\<rparr>)"
  shows "cwp (lock_read r) Q s"
  unfolding lock_read_def cwp_bind
proof (rule lock_wp [OF ok r un], goal_cases)
  case (1 c g)
  note l = 1
  show ?case
    by (rule guard_read_wp [where held = "add_mset (br_block r) held" and brs = brs])
      (use l Q [OF l(1)] in \<open>auto simp: relabel_def kept_def split: if_splits\<close>)
qed

lemma pinned_unlocked:
  assumes "pinned held brs c" and "r \<in> set brs" and "br_index r \<notin> keys_of held"
  shows "\<not> is_locked c (lv_arc (br_block r))" and "br_block r \<in># held + mset (map br_block brs)"
proof -
  have e: "has_entry c (lv_key (br_block r)) (lv_arc (br_block r))"
    using lru_okD(5) [OF cache_okD(1) [OF pinnedD(1) [OF assms(1)]], of "br_block r"] assms(2) by simp
  show "\<not> is_locked c (lv_arc (br_block r))"
    using pinnedD(4) [OF assms(1) e] pinnedD(3) [OF assms(1,2)] assms(3) by auto
  show "br_block r \<in># held + mset (map br_block brs)" using assms(2) by simp
qed


text \<open>A block is opened, and closed when it is clean or logged.\<close>

lemma open_wp:
  assumes ok: "pinned held brs (fs_cache s)" and k: "block_no_range k" "k \<notin> keys_of held" and room: "has_room held brs k"
    and Q: "\<And>v c. opened (add_mset v (add_mset v held)) brs c \<lparr>bg_index = k, bg_block = v\<rparr> \<Longrightarrow> lv_key v = k \<Longrightarrow> cview c = cview (fs_cache s) \<Longrightarrow>
      bio_device c = bio_device (fs_cache s) \<Longrightarrow> is_locked c = (is_locked (fs_cache s))(lv_arc v := True) \<Longrightarrow> \<not> is_locked (fs_cache s) (lv_arc v) \<Longrightarrow>
      kept (lv_arc v) (fs_cache s) c \<Longrightarrow> (k \<notin> logged brs \<longrightarrow> bd_valid (block_of c (lv_arc v)) \<longrightarrow> \<not> bd_dirty (block_of c (lv_arc v))) \<Longrightarrow>
      Q \<lparr>br_index = k, br_block = v\<rparr> \<lparr>bg_index = k, bg_block = v\<rparr> (s\<lparr>fs_cache := c\<rparr>)"
  shows "cwp (block_io_get ROOT_DEV k) (\<lambda>br. cwp (on_cache (ref_lock br)) (Q br)) s"
proof (rule get_wp [OF ok k(1) room], goal_cases)
  case (1 v c)
  note g = 1
  let ?r = "\<lparr>br_index = k, br_block = v\<rparr>"
  have p: "pinned (add_mset v held) brs (fs_cache (s\<lparr>fs_cache := c\<rparr>))" using g(1) by simp
  show ?case
  proof (rule lock_wp [OF p], goal_cases)
    case (4 c' g')
    note l = 4
    have "\<not> bd_dirty (block_of c' (lv_arc v))" if "k \<notin> logged brs" "bd_valid (block_of c' (lv_arc v))"
      using that g(7) k(2) l(1,7) by (auto simp: relabel_def split: if_splits)
    then show ?case using Q [of v c'] l g k(2) by (simp add: kept_def)
  qed (use g k(2) in auto)
qed

lemma close_wp:
  assumes o: "opened (add_mset v (add_mset v held)) brs (fs_cache s) \<lparr>bg_index = k, bg_block = v\<rparr>"
    and cl: "bd_valid (block_of (fs_cache s) (lv_arc v)) \<Longrightarrow> bd_dirty (block_of (fs_cache s) (lv_arc v)) \<Longrightarrow> k \<in> logged brs"
    and Q: "\<And>c. pinned held brs c \<Longrightarrow> cview c = cview (fs_cache s) \<Longrightarrow> bio_device c = bio_device (fs_cache s) \<Longrightarrow>
      is_locked c = (is_locked (fs_cache s))(lv_arc v := False) \<Longrightarrow> block_of c = block_of (fs_cache s) \<Longrightarrow> Q () (s\<lparr>fs_cache := c\<rparr>)"
  shows "cwp (on_cache (guard_drop \<lparr>bg_index = k, bg_block = v\<rparr>)) (\<lambda>_. cwp (on_cache (ref_drop \<lparr>br_index = k, br_block = v\<rparr>)) Q) s"
proof (rule guard_drop_wp [where held = "add_mset v held" and brs = brs])
  fix c
  assume "pinned (add_mset v held) brs c" and c: "cview c = cview (fs_cache s)" "bio_device c = bio_device (fs_cache s)"
    "is_locked c = (is_locked (fs_cache s))(lv_arc (bg_block \<lparr>bg_index = k, bg_block = v\<rparr>) := False)" "block_of c = block_of (fs_cache s)"
  then have "pinned (add_mset (br_block \<lparr>br_index = k, br_block = v\<rparr>) held) brs (fs_cache (s\<lparr>fs_cache := c\<rparr>))" by simp
  then show "cwp (on_cache (ref_drop \<lparr>br_index = k, br_block = v\<rparr>)) Q (s\<lparr>fs_cache := c\<rparr>)"
    by (rule ref_drop_wp) (use c openedD(3,4) [OF o] cl Q in auto)
qed (use o in simp_all)


lemma add_msets_keys [simp]: "keys_of (add_mset v held) = insert (lv_key v) (keys_of held)"
  by simp

lemma logged_card: "card (logged brs) \<le> length brs"
  using card_length [of "map br_index brs"] by simp

text \<open>One block of the log body is written.\<close>

lemma write_body_block_wp:
  assumes ok: "pinned {#} brs (fs_cache s)" and r: "r \<in> set brs" and len: "length brs < 30"
    and k: "block_no_range k" "k \<notin> logged brs"
    and Q: "\<And>c. pinned {#} brs c \<Longrightarrow> same_outside {k} (fs_cache s) c \<Longrightarrow> Q () (s\<lparr>fs_cache := c\<rparr>)"
  shows "cwp (write_body_block ROOT_DEV k r) Q s"
proof -
  have un: "\<not> is_locked (fs_cache s) (lv_arc (br_block r))" "br_block r \<in># {#} + mset (map br_block brs)"
    using pinned_unlocked [OF ok r] by simp_all
  have rk: "br_index r = lv_key (br_block r)" by (rule pinnedD(3) [OF ok r])
  have "keys_of {#br_block r#} \<union> logged brs = logged brs" using r rk by (auto simp: insert_absorb image_eqI [of _ br_index r])
  then have room: "has_room {#br_block r#} brs k" using logged_card [of brs] len by (simp add: has_room_def)
  have kr: "k \<notin> keys_of {#br_block r#}" using k(2) r rk by force
  show ?thesis
    unfolding write_body_block_def cwp_bind
  proof (rule lock_read_wp [OF ok un(2) rk un(1)], goal_cases)
    case (1 c1 g)
    note l1 = 1
    have p1: "pinned {#br_block r#} brs (fs_cache (s\<lparr>fs_cache := c1\<rparr>))" using openedD(1) [OF loadedD(1) [OF l1(2)]] by simp
    show ?case
    proof (rule open_wp [OF p1 k(1) kr room], goal_cases)
      case (1 v c2)
      note l2 = 1
      let ?lg = "\<lparr>bg_index = k, bg_block = v\<rparr>" and ?held = "add_mset v (add_mset v {#br_block r#})"
      have o2: "opened ?held brs (fs_cache (s\<lparr>fs_cache := c1, fs_cache := c2\<rparr>)) ?lg" using l2(1) by simp
      have arc: "lv_arc (bg_block g) \<noteq> lv_arc v"
        by (rule pinned_arcs [OF openedD(1) [OF l2(1)]]) (use l1(1) l2(2) kr in auto)
      have g2: "loaded ?held brs (fs_cache (s\<lparr>fs_cache := c1, fs_cache := c2\<rparr>)) g"
        by (rule loaded_other [OF l1(2)]) (use openedD(1) [OF l2(1)] l1(1) keptD [OF l2(7) arc] in auto)
      show ?case
      proof (rule guard_bytes_wp [OF g2], rule guard_set_data_wp [OF o2 loadedD(4) [OF g2]], goal_cases)
        case (1 c3)
        note l3 = 1
        show ?case
        proof (rule guard_write_wp [where held = ?held and brs = brs], goal_cases)
          case (2 c4)
          note l4 = 2
          show ?case
          proof (rule close_wp [where held = "{#br_block r#}" and brs = brs], goal_cases)
            case (3 c5)
            note l5 = 3
            have "gblock c5 g = gblock c1 g" using keptD [OF l2(7) arc] keptD [OF l3(5), of "lv_arc (bg_block g)"] keptD [OF l4(5), of "lv_arc (bg_block g)"] l5(5) arc by simp
            then have "loaded {#br_block r#} brs c5 g" by (intro loaded_other [OF l1(2) l5(1)]) (simp_all add: l1(1))
            then have g5: "opened {#br_block r#} brs c5 g" by (rule loadedD)
            show ?case
              by (rule guard_drop_wp [where held = "{#}" and brs = brs])
                (use g5 un(2) l1 l2 l3 l4 l5 in \<open>auto intro!: Q simp: same_outside_def\<close>)
          qed (use l4 loadedD(1) [OF l4(1)] in auto)
        qed (use l3 in auto)
      qed
    qed
  qed
qed


lemma write_body_wp:
  assumes "pinned {#} brs (fs_cache s)" and "set bs \<subseteq> set brs" and "length brs < 30"
    and "log_area (fs_sb s) n \<inter> logged brs = {}" and "i + length bs \<le> n"
    and "\<And>c. pinned {#} brs c \<Longrightarrow> same_outside (log_area (fs_sb s) n) (fs_cache s) c \<Longrightarrow> Q () (s\<lparr>fs_cache := c\<rparr>)"
  shows "cwp (write_body_from ROOT_DEV (of_nat i) bs) Q s"
  using assms
proof (induction bs arbitrary: i s)
  case Nil
  have "Q () (s\<lparr>fs_cache := fs_cache s\<rparr>)" by (rule Nil.prems(6)) (use Nil.prems(1) in \<open>auto simp: same_outside_def\<close>)
  then show ?case unfolding write_body_from.simps cwp_simps by simp
next
  case (Cons b bs)
  let ?k = "as_index (log_body_block (fs_sb s) (of_nat i))"
  have k: "?k \<in> log_area (fs_sb s) n" using Cons.prems(5) by (auto simp: log_area_def)
  have b: "b \<in> set brs" using Cons.prems(2) by simp
  have i: "of_nat i + (1 :: u32) = of_nat (Suc i)" by (simp add: add.commute)
  show ?case
    unfolding write_body_from.simps cwp_bind cwp_simps i
  proof (rule write_body_block_wp [OF Cons.prems(1) b Cons.prems(3) as_index_range], goal_cases)
    case 1
    then show ?case using k Cons.prems(4) by blast
  next
    case (2 c1)
    show ?case
    proof (rule Cons.IH, goal_cases)
      case (6 c2)
      have "same_outside (log_area (fs_sb s) n) (fs_cache s) c2" using 2(2) 6(2) k by (auto simp: same_outside_def)
      then show ?case using Cons.prems(6) [OF 6(1)] by simp
    qed (use 2 Cons.prems in auto)
  qed
qed

text \<open>The header is written: it reads back as the numbers of the logged blocks.\<close>

lemma head_indices_ok:
  assumes "i + length brs \<le> log_header_len dst" and "log_header_len dst \<le> 255" and "length dst = 1024"
    and "\<And>r. r \<in> set brs \<Longrightarrow> block_no_range (br_index r)"
  obtains dst' where "head_indices i brs dst = Ok dst'" "length dst' = 1024" "log_header_len dst' = log_header_len dst"
    "\<And>j. u32_at dst' (Suc j) = (if i \<le> j \<and> j < i + length brs then ucast (br_index (brs ! (j - i))) else u32_at dst (Suc j))"
  using assms
proof (induction brs arbitrary: i dst thesis)
  case Nil
  show ?case by (rule Nil.prems(1) [of dst]) (use Nil.prems in auto)
next
  case (Cons r brs)
  let ?d = "u32_put (Suc i) (ucast (br_index r)) dst"
  have len: "log_header_len ?d = log_header_len dst" "length ?d = 1024"
    using Cons.prems(2-4) by (simp_all add: log_header_len_def u32_at_put)
  obtain d' where d': "head_indices (Suc i) brs ?d = Ok d'" "length d' = 1024" "log_header_len d' = log_header_len ?d"
    "\<And>j. u32_at d' (Suc j) = (if Suc i \<le> j \<and> j < Suc i + length brs then ucast (br_index (brs ! (j - Suc i))) else u32_at ?d (Suc j))"
    by (rule Cons.IH [of "Suc i" ?d]) (use Cons.prems len in auto)
  have at: "u32_at d' (Suc j) = (if i \<le> j \<and> j < i + length (r # brs) then ucast (br_index ((r # brs) ! (j - i))) else u32_at dst (Suc j))" for j
    unfolding d'(4) using Cons.prems(2-4) by (cases "j = i") (auto simp: u32_at_put nth_Cons' Suc_le_eq)
  have "head_indices i (r # brs) dst = Ok d'"
    using d'(1) Cons.prems(2,3) Cons.prems(5) [of r] by (simp add: log_header_set_index_def MAX_LOG_COUNT_def block_no_range_def)
  then show ?case using Cons.prems(1) [of d'] d'(2,3) at len by simp
qed


text \<open>The bytes of a header with the given block numbers.\<close>

definition header_bytes :: "usize list \<Rightarrow> u8 list \<Rightarrow> bool" where
  "header_bytes ks bs \<longleftrightarrow> length bs = 1024 \<and> log_header_len bs = length ks \<and>
     (\<forall>i < length ks. as_index (u32_at bs (Suc i)) = ks ! i)"

lemma header_bytes_read:
  assumes "header_bytes ks bs" and "length ks \<le> 255"
  obtains bns where "log_header_block_indices bs = Ok bns" "map as_index bns = ks"
proof
  show "log_header_block_indices bs = Ok (map (\<lambda>i. u32_at bs (Suc i)) [0..<length ks])"
    using assms by (simp add: header_bytes_def log_header_block_indices_def MAX_LOG_COUNT_def)
  show "map as_index (map (\<lambda>i. u32_at bs (Suc i)) [0..<length ks]) = ks"
    using assms(1) by (intro nth_equalityI) (auto simp: header_bytes_def)
qed

lemma head_bytes_ok:
  assumes "length brs < 30" and "\<And>r. r \<in> set brs \<Longrightarrow> block_no_range (br_index r)"
  obtains dst where "obind (log_header_set_len (length brs) (replicate 1024 0)) (\<lambda>dst. head_indices 0 brs dst) = Ok dst"
    "header_bytes (map br_index brs) dst"
proof -
  let ?d = "u32_put 0 (of_nat (length brs)) (replicate 1024 0)"
  have len: "log_header_len ?d = length brs" "length ?d = 1024"
    using assms(1) by (simp_all add: log_header_len_def u32_at_put unat_of_nat_small)
  obtain dst where dst: "head_indices 0 brs ?d = Ok dst" "length dst = 1024" "log_header_len dst = log_header_len ?d"
    "\<And>j. u32_at dst (Suc j) = (if 0 \<le> j \<and> j < 0 + length brs then ucast (br_index (brs ! (j - 0))) else u32_at ?d (Suc j))"
    by (rule head_indices_ok [of 0 brs ?d]) (use assms len in auto)
  have "as_index (ucast (br_index (brs ! i))) = br_index (brs ! i)" if "i < length brs" for i
    using assms(2) [of "brs ! i"] that by (simp add: as_index_def block_no_range_def word_unat_eq_iff unat_ucast_up unsigned_ucast_eq unsigned_take_bit_eq take_bit_nat_eq_self)
  then have "header_bytes (map br_index brs) dst" using dst len by (simp add: header_bytes_def)
  moreover have "obind (log_header_set_len (length brs) (replicate 1024 0)) (\<lambda>dst. head_indices 0 brs dst) = Ok dst"
    using dst(1) assms(1) by (simp add: log_header_set_len_def)
  ultimately show thesis using that by blast
qed

lemma pinned_range:
  assumes "pinned held brs c" and "r \<in> set brs"
  shows "block_no_range (br_index r)"
  using logged_entry [OF assms(1), of "br_index r"] cache_okD(2) [OF pinnedD(1) [OF assms(1)]] assms(2) by blast

lemma write_log_head_wp:
  assumes ok: "pinned {#} brs (fs_cache s)" and h: "lh_blocks h = hs" "lh_dev h = ROOT_DEV" "\<And>r. r \<in> set hs \<Longrightarrow> block_no_range (br_index r)"
    and len: "length brs < 30" "length hs < 30" and kh: "as_index (log_header_block (fs_sb s)) = kh" "kh \<notin> logged brs"
    and Q: "\<And>c. pinned {#} brs c \<Longrightarrow> same_outside {kh} (fs_cache s) c \<Longrightarrow> header_bytes (map br_index hs) (disk_block (bio_device c) kh) \<Longrightarrow>
      Q () (s\<lparr>fs_cache := c\<rparr>)"
  shows "cwp (write_log_head h) Q s"
proof -
  have room: "has_room {#} brs kh" using logged_card [of brs] len by (simp add: has_room_def)
  have rng: "block_no_range kh" using kh(1) as_index_range by metis
  obtain dst where dst: "obind (log_header_set_len (length hs) (replicate 1024 0)) (\<lambda>dst. head_indices 0 hs dst) = Ok dst"
    "header_bytes (map br_index hs) dst" using head_bytes_ok [OF len(2) h(3)] .
  have dlen: "length dst = 1024" using dst(2) by (simp add: header_bytes_def)
  show ?thesis
    unfolding write_log_head_def lock_zeroed_def cwp_bind cwp_simps h(1,2) kh(1)
  proof (rule open_wp [OF ok rng _ room], simp, goal_cases)
    case (1 v c1)
    note l1 = 1
    let ?g = "\<lparr>bg_index = kh, bg_block = v\<rparr>"
    show ?case
    proof (rule guard_zeroed_wp [where held = "{#v, v#}" and brs = brs], goal_cases)
      case (2 c2)
      note l2 = 2
      show ?case
      proof (rule guard_bytes_wp [where held = "{#v, v#}" and brs = brs], simp add: l2(1), rule cwp_lift [where a = dst], goal_cases)
        case 1
        show ?case using dst(1) l2(2) by simp
      next
        case 2
        show ?case
        proof (rule guard_bytes_mut_wp [where held = "{#v, v#}" and brs = brs], goal_cases)
          case (3 c3)
          note l3 = 3
          show ?case
          proof (rule guard_write_wp [where held = "{#v, v#}" and brs = brs], goal_cases)
            case (2 c4)
            note l4 = 2
            show ?case
              by (rule close_wp [where held = "{#}" and brs = brs])
                (use l1 l2 l3 l4 loadedD(1) [OF l4(1)] rng dst(2) in \<open>auto intro!: Q simp: same_outside_def\<close>)
          qed (use l3 in auto)
        qed (use l2 dlen in auto)
      qed
    qed (use l1 in auto)
  qed
qed


text \<open>The logged blocks are written home, one by one, and leave the log.\<close>

lemma opened_unlog:
  assumes o: "opened held (r # brs) c g" and g: "bg_block g = br_block r"
    and cl: "\<not> bd_dirty (gblock c g)" "bd_data (gblock c g) = disk_block (bio_device c) (bg_index g)"
  shows "opened (add_mset (br_block r) held) brs c g"
proof -
  have r: "br_index r = bg_index g" using pinnedD(3) [OF openedD(1) [OF o], of r] openedD(3) [OF o] g by simp
  have "pinned (add_mset (br_block r) held) brs c"
    using openedD(7,8) [OF o] pinnedD(2,3) [OF openedD(1) [OF o]] cl r openedD(3) [OF o] g
    by (intro pinned_step [OF openedD(1) [OF o] _ openedD(6) [OF o] refl]) (auto simp: entry_ok_def)
  then show ?thesis using o by (simp add: opened_def)
qed

lemma install_blocks_wp:
  assumes "pinned {#} brs (fs_cache s)"
    and "\<And>c. pinned {#} [] c \<Longrightarrow> (\<forall>j. block_no_range j \<longrightarrow> cview c j = cview (fs_cache s) j) \<Longrightarrow>
      (\<forall>j. block_no_range j \<longrightarrow> disk_block (bio_device c) j = (if j \<in> logged brs then cview (fs_cache s) j else disk_block (bio_device (fs_cache s)) j)) \<Longrightarrow>
      Q () (s\<lparr>fs_cache := c\<rparr>)"
  shows "cwp (install_blocks brs) Q s"
  using assms
proof (induction brs arbitrary: s)
  case Nil
  have "Q () (s\<lparr>fs_cache := fs_cache s\<rparr>)" by (rule Nil.prems(2)) (use Nil.prems(1) in auto)
  then show ?case unfolding install_blocks.simps cwp_simps by simp
next
  case (Cons r brs)
  have un: "\<not> is_locked (fs_cache s) (lv_arc (br_block r))" "br_block r \<in># {#} + mset (map br_block (r # brs))"
    using pinned_unlocked [OF Cons.prems(1), of r] by simp_all
  have rk: "br_index r = lv_key (br_block r)" using pinnedD(3) [OF Cons.prems(1), of r] by simp
  let ?v = "br_block r"
  show ?case
    unfolding install_blocks.simps cwp_bind
  proof (rule lock_read_wp [OF Cons.prems(1) un(2) rk un(1)], goal_cases)
    case (1 c1 g)
    note l1 = 1
    show ?case
    proof (rule guard_write_wp [where held = "{#?v#}" and brs = "r # brs"], goal_cases)
      case (2 c2)
      note l2 = 2
      have rng: "block_no_range (bg_index g)" by (rule openedD(9) [OF loadedD(1) [OF l2(1)]])
      have o: "opened (add_mset ?v {#?v#}) brs c2 g"
        by (rule opened_unlog [OF loadedD(1) [OF l2(1)]]) (use l1(1) l2(2,3,6) loadedD(3) [OF l2(1)] rng in auto)
      have r: "\<lparr>br_index = br_index r, br_block = ?v\<rparr> = r" by simp
      have "cwp (on_cache (guard_drop g)) (\<lambda>_. cwp (on_cache (ref_drop r)) (\<lambda>_. cwp (install_blocks brs) Q)) (s\<lparr>fs_cache := c1, fs_cache := c2\<rparr>)"
        unfolding l1(1)
      proof (rule close_wp [of ?v "{#}" brs _ "br_index r", unfolded r], goal_cases)
        case (3 c3)
        note l3 = 3
        show ?case
          by (rule Cons.IH) (use l1 l2 l3 in \<open>auto intro!: Cons.prems(2)\<close>)
      qed (use o l1(1) l2(6) in auto)
      then show ?case .
    qed (use l1 in auto)
  qed
qed


lemma same_outside_weaken: "same_outside A c c' \<Longrightarrow> A \<subseteq> B \<Longrightarrow> same_outside B c c'"
  by (auto simp: same_outside_def)

lemma lh_commit_wp:
  assumes ok: "pinned {#} (lh_blocks h) (fs_cache s)" and dev: "lh_dev h = ROOT_DEV" and len: "length (lh_blocks h) < 30"
    and area: "log_area (fs_sb s) (length (lh_blocks h)) \<inter> logged (lh_blocks h) = {}"
    and Q: "\<And>c. pinned {#} [] c \<Longrightarrow>
      (\<forall>j. block_no_range j \<longrightarrow> j \<notin> log_area (fs_sb s) (length (lh_blocks h)) \<longrightarrow>
         cview c j = cview (fs_cache s) j \<and> disk_block (bio_device c) j = (if j \<in> logged (lh_blocks h) then cview (fs_cache s) j else disk_block (bio_device (fs_cache s)) j)) \<Longrightarrow>
      (lh_blocks h \<noteq> [] \<longrightarrow> header_bytes [] (disk_block (bio_device c) (as_index (log_header_block (fs_sb s))))) \<Longrightarrow>
      Q (h\<lparr>lh_blocks := []\<rparr>) (s\<lparr>fs_cache := c\<rparr>)"
  shows "cwp (lh_commit h) Q s"
proof (cases "lh_blocks h = []")
  case True
  have "Q (h\<lparr>lh_blocks := []\<rparr>) (s\<lparr>fs_cache := fs_cache s\<rparr>)" by (rule Q) (use ok True in auto)
  moreover have "h\<lparr>lh_blocks := []\<rparr> = h" using True by simp
  ultimately show ?thesis using True unfolding lh_commit_def by (simp only: cwp_simps if_False not_True_eq_False refl) simp
next
  case False
  let ?brs = "lh_blocks h" and ?kh = "as_index (log_header_block (fs_sb s))" and ?A = "log_area (fs_sb s) (length (lh_blocks h))"
  have kh: "?kh \<in> ?A" using header_in_log_area [of "length ?brs"] False by simp
  have c: "lh_commit h = cbind (write_body_from ROOT_DEV (of_nat 0) ?brs) (\<lambda>_. cbind (write_log_head h) (\<lambda>_.
      cbind (cbind (install_blocks ?brs) (\<lambda>_. creturn (h\<lparr>lh_blocks := []\<rparr>))) (\<lambda>h.
      cbind (clift (require (lh_blocks h = []))) (\<lambda>_. cbind (write_log_head h) (\<lambda>_. creturn h)))))"
    using False dev unfolding lh_commit_def write_log_body_def install_transaction_def by simp
  show ?thesis
    unfolding c cwp_bind
  proof (rule write_body_wp [where n = "length ?brs", OF ok subset_refl len area], goal_cases)
    case (2 c1)
    note l1 = 2
    have p1: "pinned {#} ?brs (fs_cache (s\<lparr>fs_cache := c1\<rparr>))" using l1(1) by simp
    show ?case
    proof (rule write_log_head_wp [OF p1 refl dev, where kh = ?kh], goal_cases)
      case (6 c2)
      note l2 = 6
      have p2: "pinned {#} ?brs (fs_cache (s\<lparr>fs_cache := c1, fs_cache := c2\<rparr>))" using l2(1) by simp
      show ?case
      proof (rule install_blocks_wp [OF p2], unfold cwp_simps cwp_unit_simps, goal_cases)
        case (1 c3)
        note l3 = 1
        show ?case
        proof (intro conjI, simp, rule write_log_head_wp [where brs = "[]" and hs = "[]" and kh = ?kh], goal_cases)
          case (9 c4)
          note l4 = 9
          have "cview c4 j = cview (fs_cache s) j \<and>
              disk_block (bio_device c4) j = (if j \<in> logged ?brs then cview (fs_cache s) j else disk_block (bio_device (fs_cache s)) j)"
            if "block_no_range j" "j \<notin> ?A" for j
          proof -
            have "j \<noteq> ?kh" using kh that(2) by auto
            then show ?thesis using l1(2) l2(2) l3(2,3) l4(2) that by (simp add: same_outside_def cong: if_cong)
          qed
          then have "Q (h\<lparr>lh_blocks := []\<rparr>) (s\<lparr>fs_cache := c4\<rparr>)" by (intro Q [OF l4(1)]) (use l4(3) in auto)
          then show ?case unfolding cwp_simps by simp
        qed (use l3 dev in auto)
      qed
    qed (use len kh area pinned_range [OF ok] in auto)
  qed simp
qed

lemma end_op_wp:
  assumes h: "ld_header (fs_log s) = Some h" "ld_outstanding (fs_log s) = 1" and ok: "pinned {#} (lh_blocks h) (fs_cache s)"
    and dev: "lh_dev h = ROOT_DEV" and len: "length (lh_blocks h) < 30"
    and area: "log_area (fs_sb s) (length (lh_blocks h)) \<inter> logged (lh_blocks h) = {}"
    and Q: "\<And>c. pinned {#} [] c \<Longrightarrow>
      (\<forall>j. block_no_range j \<longrightarrow> j \<notin> log_area (fs_sb s) (length (lh_blocks h)) \<longrightarrow>
         cview c j = cview (fs_cache s) j \<and> disk_block (bio_device c) j = (if j \<in> logged (lh_blocks h) then cview (fs_cache s) j else disk_block (bio_device (fs_cache s)) j)) \<Longrightarrow>
      (lh_blocks h \<noteq> [] \<longrightarrow> header_bytes [] (disk_block (bio_device c) (as_index (log_header_block (fs_sb s))))) \<Longrightarrow>
      Q () (s\<lparr>fs_cache := c, fs_log := (fs_log s)\<lparr>ld_outstanding := 0, ld_header := Some (h\<lparr>lh_blocks := []\<rparr>)\<rparr>\<rparr>)"
  shows "cwp end_op Q s"
proof -
  let ?s = "s\<lparr>fs_log := (fs_log s)\<lparr>ld_outstanding := 0, ld_header := None\<rparr>\<rparr>"
  have e: "end_op s = cbind (lh_commit h) (\<lambda>header. cbind (cread (\<lambda>s. ld_header (fs_log s))) (\<lambda>h.
      cbind (clift (require (h = None))) (\<lambda>_. cmodify (\<lambda>s. s\<lparr>fs_log := (fs_log s)\<lparr>ld_header := Some header\<rparr>\<rparr>)))) ?s"
    using h by (simp add: end_op_def Let_def)
  have "cwp (cbind (lh_commit h) (\<lambda>header. cbind (cread (\<lambda>s. ld_header (fs_log s))) (\<lambda>h.
      cbind (clift (require (h = None))) (\<lambda>_. cmodify (\<lambda>s. s\<lparr>fs_log := (fs_log s)\<lparr>ld_header := Some header\<rparr>\<rparr>))))) Q ?s"
    unfolding cwp_bind
    by (rule lh_commit_wp) (use ok dev len area Q in auto)
  then show ?thesis using e by (simp add: cwp_def)
qed


section \<open>Blocks in a transaction\<close>

lemma tx_open_wp:
  assumes ok: "pinned held brs (fs_cache s)" and k: "as_index bn = k" "k \<notin> keys_of held" and room: "has_room held brs k"
    and Q: "\<And>v c. loaded (add_mset v (add_mset v held)) brs c \<lparr>bg_index = k, bg_block = v\<rparr> \<Longrightarrow> lv_key v = k \<Longrightarrow> cview c = cview (fs_cache s) \<Longrightarrow>
      bio_device c = bio_device (fs_cache s) \<Longrightarrow> kept (lv_arc v) (fs_cache s) c \<Longrightarrow> (bd_dirty (block_of c (lv_arc v)) \<longrightarrow> k \<in> logged brs) \<Longrightarrow>
      is_locked c = (is_locked (fs_cache s))(lv_arc v := True) \<Longrightarrow> \<not> is_locked (fs_cache s) (lv_arc v) \<Longrightarrow>
      Q \<lparr>br_index = k, br_block = v\<rparr> \<lparr>bg_index = k, bg_block = v\<rparr> (s\<lparr>fs_cache := c\<rparr>)"
  shows "cwp (tx_get_block ROOT_DEV bn) (\<lambda>br. cwp (lock_read br) (Q br)) s"
  unfolding tx_get_block_def lock_read_def cwp_bind k(1)
proof (rule open_wp [OF ok _ k(2) room], goal_cases)
  case 1
  show ?case using as_index_range [of bn] k(1) by simp
next
  case (2 v c)
  note l = 2
  let ?held = "add_mset v (add_mset v held)"
  show ?case
  proof (rule guard_read_wp [where held = ?held and brs = brs], goal_cases)
    case (2 c')
    note r = 2
    show ?case using Q [of v c'] l r by (auto simp: kept_def)
  qed (use l in auto)
qed

lemma fs_update_swap [simp]: "s\<lparr>fs_log := l, fs_cache := c\<rparr> = s\<lparr>fs_cache := c, fs_log := l\<rparr>"
  by (cases s) simp

lemma ref_drop_held_wp:
  assumes ok: "pinned (add_mset (br_block r) held) brs (fs_cache s)" and v: "br_block r \<in># held"
    and Q: "\<And>c. pinned held brs c \<Longrightarrow> cview c = cview (fs_cache s) \<Longrightarrow> bio_device c = bio_device (fs_cache s) \<Longrightarrow>
      is_locked c = is_locked (fs_cache s) \<Longrightarrow> block_of c = block_of (fs_cache s) \<Longrightarrow> Q () (s\<lparr>fs_cache := c\<rparr>)"
  shows "cwp (on_cache (ref_drop r)) Q s"
proof -
  let ?c = "fs_cache s" and ?v = "br_block r" and ?live = "held + mset (map br_block brs)"
  have l: "log_cache_ok (add_mset ?v ?live) ?c" using pinnedD(1) [OF ok] by simp
  have e: "has_entry ?c (lv_key ?v) (lv_arc ?v)" using pinned_entry(1) [OF ok] by simp
  obtain c' where c': "bio_release ?v ?c = (Ok (), c')" "log_cache_ok ?live c'" "looks_same ?c c'" using bio_release_ok [OF l] v by auto
  have "insert (lv_key ?v) (keys_of held) = keys_of held" using v by auto
  then have "entry_ok (keys_of held) (logged brs) (bio_device ?c) (lv_key ?v) (block_of ?c (lv_arc ?v))" using pinnedD(5) [OF ok e] by simp
  then have p: "pinned held brs c'"
    using pinnedD(2,3) [OF ok] c'(2) v looks_sameD [OF c'(3)] by (intro pinned_step [OF ok _ e]) auto
  have "Q () (s\<lparr>fs_cache := c'\<rparr>)"
    using p looks_sameD [OF c'(3)] looks_same_view [OF c'(3) cache_okD(1) [OF l] cache_okD(1) [OF c'(2)]] by (intro Q) auto
  then show ?thesis using c'(1) by (auto simp: cwp_on_cache ref_drop_def intro: cwp_eqI)
qed

lemma log_write_wp:
  assumes l: "loaded held (lh_blocks h) (fs_cache s) g" and h: "ld_header (fs_log s) = Some h"
    and len: "0 < ld_outstanding (fs_log s)" "length (lh_blocks h) < max_log_len (fs_sb s)" "length (lh_blocks h) < 30"
    and Q: "\<And>c h'. loaded held (lh_blocks h') c g \<Longrightarrow> lh_dev h' = lh_dev h \<Longrightarrow> logged (lh_blocks h') = insert (bg_index g) (logged (lh_blocks h)) \<Longrightarrow>
      cview c = cview (fs_cache s) \<Longrightarrow> bio_device c = bio_device (fs_cache s) \<Longrightarrow> is_locked c = is_locked (fs_cache s) \<Longrightarrow>
      block_of c = block_of (fs_cache s) \<Longrightarrow> Q () (s\<lparr>fs_cache := c, fs_log := (fs_log s)\<lparr>ld_header := Some h'\<rparr>\<rparr>)"
  shows "cwp (log_write g) Q s"
proof -
  let ?v = "bg_block g" and ?r = "\<lparr>br_index = bg_index g, br_block = bg_block g\<rparr>"
  note o = loadedD(1) [OF l]
  obtain c1 where c1: "bio_clone ?v (fs_cache s) = (Ok ?v, c1)" "log_cache_ok (add_mset ?v (held + mset (map br_block (lh_blocks h)))) c1"
      "looks_same (fs_cache s) c1"
    using bio_clone_ok [OF openedD(8) [OF o] openedD(5) [OF o]] .
  note same = looks_sameD [OF c1(3)]
  have "pinned (add_mset ?v held) (lh_blocks h) c1"
    using pinnedD(2,3) [OF openedD(1) [OF o]] c1(2) same openedD(3,7,10) [OF o]
    by (intro pinned_step [OF openedD(1) [OF o] _ openedD(6) [OF o]]) (auto simp: insert_absorb)
  then have l1: "loaded (add_mset ?v held) (lh_blocks h) c1 g" by (rule loaded_other [OF l]) (simp_all add: same)
  have v1: "cview c1 = cview (fs_cache s)" using looks_same_view [OF c1(3) cache_okD(1) [OF openedD(8) [OF o]] cache_okD(1) [OF c1(2)]] .
  have gb: "cwp (on_cache (guard_block g)) P s \<longleftrightarrow> P ?r (s\<lparr>fs_cache := c1\<rparr>)" for P
    using c1(1) by (simp add: on_cache_def guard_block_def cwp_def cbind_simps)
  show ?thesis
    unfolding log_write_def cwp_bind cwp_simps cwp_unit_simps h gb
  proof (intro exI [of _ h] conjI refl len(1), rule lh_push_wp [where held = "add_mset ?v held", OF _ refl], goal_cases)
    case (4 c2 h')
    note l2 = 4
    show ?case
    proof (rule ref_drop_held_wp [where held = held and brs = "lh_blocks h'"], goal_cases)
      case (3 c3)
      note l3 = 3
      have "loaded held (lh_blocks h') c3 g" by (rule loaded_other [OF l]) (use l3 l2 same openedD(2) [OF o] in auto)
      then have "Q () (s\<lparr>fs_cache := c3, fs_log := (fs_log s)\<lparr>ld_header := Some h'\<rparr>\<rparr>)"
        by (intro Q) (use l2 l3 v1 same in auto)
      then show ?case by simp
    qed (use l2(1) openedD(1) [OF loadedD(1) [OF l2(1)]] openedD(2) [OF o] in auto)
  qed (use l1 len in auto)
qed


lemma guard_flags_wp:
  "cwp (on_cache (guard_is_dirty g)) P s \<longleftrightarrow> P (bd_dirty (gblock (fs_cache s) g)) s"
  "cwp (on_cache (guard_try_validate g)) R s \<longleftrightarrow> R (if bd_valid (gblock (fs_cache s) g) then Inr g else Inl g) s"
  by (simp_all add: cwp_on_cache guard_is_dirty_def guard_try_validate_def bio_block_eq)

lemma tx_guard_drop_wp:
  assumes l: "loaded (add_mset v (add_mset v held)) (lh_blocks h) (fs_cache s) \<lparr>bg_index = k, bg_block = v\<rparr>" and h: "ld_header (fs_log s) = Some h"
    and rw: "bd_dirty (block_of (fs_cache s) (lv_arc v)) \<Longrightarrow> \<not> ro \<Longrightarrow>
      0 < ld_outstanding (fs_log s) \<and> length (lh_blocks h) < max_log_len (fs_sb s) \<and> length (lh_blocks h) < 30"
    and ro: "bd_dirty (block_of (fs_cache s) (lv_arc v)) \<Longrightarrow> ro \<Longrightarrow> k \<in> logged (lh_blocks h)"
    and Q: "\<And>c h'. pinned (add_mset v held) (lh_blocks h') c \<Longrightarrow> lh_dev h' = lh_dev h \<Longrightarrow>
      logged (lh_blocks h') = (if bd_dirty (block_of (fs_cache s) (lv_arc v)) then insert k (logged (lh_blocks h)) else logged (lh_blocks h)) \<Longrightarrow>
      cview c = cview (fs_cache s) \<Longrightarrow> bio_device c = bio_device (fs_cache s) \<Longrightarrow> block_of c = block_of (fs_cache s) \<Longrightarrow>
      is_locked c = (is_locked (fs_cache s))(lv_arc v := False) \<Longrightarrow> Q () (s\<lparr>fs_cache := c, fs_log := (fs_log s)\<lparr>ld_header := Some h'\<rparr>\<rparr>)"
  shows "cwp (tx_guard_drop ro \<lparr>bg_index = k, bg_block = v\<rparr>) Q s"
proof -
  let ?g = "\<lparr>bg_index = k, bg_block = v\<rparr>" and ?b = "block_of (fs_cache s) (lv_arc v)"
  have plain: "cwp (on_cache (guard_drop ?g)) Q s" if "bd_dirty ?b \<Longrightarrow> k \<in> logged (lh_blocks h)"
  proof (rule guard_drop_wp [where held = "add_mset v held" and brs = "lh_blocks h"], goal_cases)
    case (3 c)
    have "Q () (s\<lparr>fs_cache := c, fs_log := (fs_log s)\<lparr>ld_header := Some h\<rparr>\<rparr>)" by (rule Q) (use 3 that in \<open>auto simp: insert_absorb\<close>)
    moreover have "(fs_log s)\<lparr>ld_header := Some h\<rparr> = fs_log s" using h by simp
    ultimately show ?case by simp
  qed (use loadedD(1) [OF l] in auto)
  have drop: "cwp (tx_guard_drop ro ?g) Q s =
      (if bd_dirty ?b then cwp (if ro then creturn () else log_write ?g) (\<lambda>_. cwp (on_cache (guard_drop ?g)) Q) s else cwp (on_cache (guard_drop ?g)) Q s)"
    using loadedD(2) [OF l] by (simp add: tx_guard_drop_def guard_flags_wp)
  show ?thesis
  proof (cases "bd_dirty ?b \<and> \<not> ro")
    case True
    have "cwp (log_write ?g) (\<lambda>_. cwp (on_cache (guard_drop ?g)) Q) s"
    proof (rule log_write_wp [OF l h], goal_cases)
      case (4 c h')
      note w = 4
      show ?case
      proof (rule guard_drop_wp [where held = "add_mset v held" and brs = "lh_blocks h'"], goal_cases)
        case (3 c')
        have "Q () (s\<lparr>fs_cache := c', fs_log := (fs_log s)\<lparr>ld_header := Some h'\<rparr>\<rparr>)" by (rule Q) (use w 3 True in auto)
        then show ?case by simp
      qed (use w loadedD(1) [OF w(1)] in auto)
    qed (use rw True in auto)
    then show ?thesis using drop True by simp
  next
    case False
    have "cwp (creturn ()) R s = R () s" for R by simp
    then show ?thesis using drop False ro plain by auto
  qed
qed

lemma tx_close_wp:
  assumes l: "loaded (add_mset v (add_mset v held)) (lh_blocks h) (fs_cache s) \<lparr>bg_index = k, bg_block = v\<rparr>" and h: "ld_header (fs_log s) = Some h"
    and rw: "bd_dirty (block_of (fs_cache s) (lv_arc v)) \<Longrightarrow> \<not> ro \<Longrightarrow>
      0 < ld_outstanding (fs_log s) \<and> length (lh_blocks h) < max_log_len (fs_sb s) \<and> length (lh_blocks h) < 30"
    and ro: "bd_dirty (block_of (fs_cache s) (lv_arc v)) \<Longrightarrow> ro \<Longrightarrow> k \<in> logged (lh_blocks h)"
    and Q: "\<And>c h'. pinned held (lh_blocks h') c \<Longrightarrow> lh_dev h' = lh_dev h \<Longrightarrow>
      logged (lh_blocks h') = (if bd_dirty (block_of (fs_cache s) (lv_arc v)) then insert k (logged (lh_blocks h)) else logged (lh_blocks h)) \<Longrightarrow>
      cview c = cview (fs_cache s) \<Longrightarrow> bio_device c = bio_device (fs_cache s) \<Longrightarrow> block_of c = block_of (fs_cache s) \<Longrightarrow>
      is_locked c = (is_locked (fs_cache s))(lv_arc v := False) \<Longrightarrow> Q () (s\<lparr>fs_cache := c, fs_log := (fs_log s)\<lparr>ld_header := Some h'\<rparr>\<rparr>)"
  shows "cwp (tx_guard_drop ro \<lparr>bg_index = k, bg_block = v\<rparr>) (\<lambda>_. cwp (on_cache (ref_drop \<lparr>br_index = k, br_block = v\<rparr>)) Q) s"
proof (rule tx_guard_drop_wp [OF l h rw ro], goal_cases)
  case (5 c h')
  note d = 5
  have ix: "bd_index (block_of (fs_cache s) (lv_arc v)) = k" "k = lv_key v"
    using openedD(3,4) [OF loadedD(1) [OF l]] by simp_all
  show ?case
  proof (rule ref_drop_wp [where held = held and brs = "lh_blocks h'"], goal_cases)
    case (4 c')
    have "Q () (s\<lparr>fs_cache := c', fs_log := (fs_log s)\<lparr>ld_header := Some h'\<rparr>\<rparr>)" by (rule Q) (use d 4 in auto)
    then show ?case by simp
  qed (use d ix in auto)
qed

lemma bg_bytes_wp: "loaded held brs (fs_cache s) g \<Longrightarrow> Q (cview (fs_cache s) (bg_index g)) s \<Longrightarrow> cwp (bg_bytes g) Q s"
  unfolding bg_bytes_def by (rule guard_bytes_wp)

lemma bg_update_wp:
  assumes l: "loaded held brs (fs_cache s) g" and f: "f (cview (fs_cache s) (bg_index g)) = Ok bs" "length bs = 1024"
    and Q: "\<And>c. loaded held brs c g \<Longrightarrow> cview c = (cview (fs_cache s))(bg_index g := bs) \<Longrightarrow> bio_device c = bio_device (fs_cache s) \<Longrightarrow>
      kept (lv_arc (bg_block g)) (fs_cache s) c \<Longrightarrow> bd_dirty (gblock c g) \<Longrightarrow> is_locked c = is_locked (fs_cache s) \<Longrightarrow> Q () (s\<lparr>fs_cache := c\<rparr>)"
  shows "cwp (bg_update g f) Q s"
  unfolding bg_update_def cwp_bind
proof (rule bg_bytes_wp [OF l], rule guard_bytes_mut_wp [OF l], goal_cases)
  case (2 c1)
  note l1 = 2
  show ?case
  proof (rule cwp_lift [OF f(1)], rule guard_bytes_mut_wp [where held = held and brs = brs], goal_cases)
    case (3 c2)
    show ?case using Q [of c2] l1 3 by (simp add: kept_def)
  qed (use l1 f(2) in auto)
qed (simp add: loadedD(4) [OF l])

section \<open>Whole transactions\<close>

text \<open>A transaction that changes some blocks, each by a function on its bytes.\<close>

definition tx_write :: "block_no \<times> (u8 list \<Rightarrow> u8 list) \<Rightarrow> ('z, unit) log_call" where
  "tx_write w = with_block False ROOT_DEV (fst w) (\<lambda>bg. bg_update bg (\<lambda>bs. Ok (snd w bs)))"

definition run_tx :: "(block_no \<times> (u8 list \<Rightarrow> u8 list)) list \<Rightarrow> ('z, unit) log_call" where
  "run_tx ws = cbind (begin_op False) (\<lambda>_. cbind (cforeach tx_write ws) (\<lambda>_. tx_drop False))"

primrec array_writes :: "(block_no \<times> (u8 list \<Rightarrow> u8 list)) list \<Rightarrow> (usize \<Rightarrow> u8 list) \<Rightarrow> usize \<Rightarrow> u8 list" where
  "array_writes [] m = m"
| "array_writes (w # ws) m = array_writes ws (m(as_index (fst w) := snd w (m (as_index (fst w)))))"

definition log_idle :: "'z log_fs_scheme \<Rightarrow> bool" where
  "log_idle s \<longleftrightarrow> ld_outstanding (fs_log s) = 0 \<and> ld_header (fs_log s) = Some \<lparr>lh_dev = ROOT_DEV, lh_blocks = []\<rparr> \<and> pinned {#} [] (fs_cache s)"

definition keeps_size :: "(u8 list \<Rightarrow> u8 list) \<Rightarrow> bool" where
  "keeps_size f \<longleftrightarrow> (\<forall>bs. length bs = 1024 \<longrightarrow> length (f bs) = 1024)"

lemma pinned_length: "pinned held brs c \<Longrightarrow> length brs = card (logged brs)"
  using distinct_card [of "map br_index brs"] pinnedD(2) by fastforce

lemma tx_write_wp:
  assumes ok: "pinned {#} (lh_blocks h) (fs_cache s)" and h: "ld_header (fs_log s) = Some h"
    and f: "keeps_size (snd w)" and k: "as_index (fst w) = k"
    and len: "0 < ld_outstanding (fs_log s)" "length (lh_blocks h) < max_log_len (fs_sb s)" "length (lh_blocks h) < 30"
    and Q: "\<And>c h'. pinned {#} (lh_blocks h') c \<Longrightarrow> lh_dev h' = lh_dev h \<Longrightarrow> logged (lh_blocks h') = insert k (logged (lh_blocks h)) \<Longrightarrow>
      cview c = (cview (fs_cache s))(k := snd w (cview (fs_cache s) k)) \<Longrightarrow> bio_device c = bio_device (fs_cache s) \<Longrightarrow>
      Q () (s\<lparr>fs_cache := c, fs_log := (fs_log s)\<lparr>ld_header := Some h'\<rparr>\<rparr>)"
  shows "cwp (tx_write w) Q s"
proof -
  have room: "has_room {#} (lh_blocks h) k" using logged_card [of "lh_blocks h"] len(3) by (simp add: has_room_def)
  show ?thesis
    unfolding tx_write_def with_block_def cwp_bind
  proof (rule tx_open_wp [OF ok k _ room], simp, goal_cases)
    case (1 v c1)
    note l1 = 1
    let ?g = "\<lparr>bg_index = k, bg_block = v\<rparr>"
    have l: "loaded {#v, v#} (lh_blocks h) (fs_cache (s\<lparr>fs_cache := c1\<rparr>)) ?g" using l1(1) by simp
    have sz: "length (snd w (cview (fs_cache (s\<lparr>fs_cache := c1\<rparr>)) (bg_index ?g))) = 1024" using f loadedD(4) [OF l] by (simp add: keeps_size_def)
    show ?case
    proof (rule bg_update_wp [OF l _ sz], simp, goal_cases)
      case (1 c2)
      note l2 = 1
      show ?case
      proof (rule tx_close_wp [where held = "{#}" and h = h], goal_cases)
        case (5 c3 h3)
        have "Q () (s\<lparr>fs_cache := c3, fs_log := (fs_log s)\<lparr>ld_header := Some h3\<rparr>\<rparr>)"
          by (rule Q) (use 5 l1 l2 in \<open>auto split: if_splits\<close>)
        then show ?case by simp
      qed (use l2 h len in auto)
    qed
  qed
qed


lemma tx_writes_wp:
  assumes "pinned {#} (lh_blocks h) (fs_cache s)" and "ld_header (fs_log s) = Some h" and "lh_dev h = ROOT_DEV" and "0 < ld_outstanding (fs_log s)"
    and "\<forall>w \<in> set ws. keeps_size (snd w)" and "length (lh_blocks h) + length ws \<le> max_log_len (fs_sb s)" "length (lh_blocks h) + length ws \<le> 30"
    and "\<And>c h'. pinned {#} (lh_blocks h') c \<Longrightarrow> lh_dev h' = ROOT_DEV \<Longrightarrow> logged (lh_blocks h') = logged (lh_blocks h) \<union> (as_index \<circ> fst) ` set ws \<Longrightarrow>
      length (lh_blocks h') \<le> length (lh_blocks h) + length ws \<Longrightarrow>
      cview c = array_writes ws (cview (fs_cache s)) \<Longrightarrow> bio_device c = bio_device (fs_cache s) \<Longrightarrow>
      Q () (s\<lparr>fs_cache := c, fs_log := (fs_log s)\<lparr>ld_header := Some h'\<rparr>\<rparr>)"
  shows "cwp (cforeach tx_write ws) Q s"
  using assms
proof (induction ws arbitrary: s h)
  case Nil
  have "Q () (s\<lparr>fs_cache := fs_cache s, fs_log := (fs_log s)\<lparr>ld_header := Some h\<rparr>\<rparr>)" by (rule Nil.prems(8)) (use Nil.prems in auto)
  moreover have "s\<lparr>fs_cache := fs_cache s, fs_log := (fs_log s)\<lparr>ld_header := Some h\<rparr>\<rparr> = s" using Nil.prems(2) by simp
  ultimately show ?case unfolding cforeach.simps cwp_simps by simp
next
  case (Cons w ws)
  show ?case
    unfolding cforeach.simps cwp_bind
  proof (rule tx_write_wp [OF Cons.prems(1,2) _ refl], goal_cases)
    case (5 c1 h1)
    note l1 = 5
    have len: "length (lh_blocks h1) \<le> Suc (length (lh_blocks h))"
      using l1(3) pinned_length [OF l1(1)] pinned_length [OF Cons.prems(1)]
      by (simp add: card_insert_if split: if_splits)
    show ?case
    proof (rule Cons.IH [where h = h1], goal_cases)
      case (8 h2 c2)
      note l2 = 8
      have "logged (lh_blocks h2) = logged (lh_blocks h) \<union> (as_index \<circ> fst) ` set (w # ws)"
        using l2(3) l1(3) by auto
      moreover have "cview c2 = array_writes (w # ws) (cview (fs_cache s))" using l2(5) by (simp add: l1(4) del: fun_upd_apply)
      ultimately have "Q () (s\<lparr>fs_cache := c2, fs_log := (fs_log s)\<lparr>ld_header := Some h2\<rparr>\<rparr>)"
        using l1(5) l2(1,2,4,6) len by (intro Cons.prems(8)) simp_all
      then show ?case by simp
    qed (use l1(1,2) len Cons.prems(3-7) in auto)
  qed (use Cons.prems(4-7) in auto)
qed

lemma pinned_idle_view: "pinned {#} [] c \<Longrightarrow> block_no_range j \<Longrightarrow> cview c j = disk_block (bio_device c) j"
proof -
  assume ok: "pinned {#} [] c" and "block_no_range j"
  show ?thesis
  proof (cases "\<exists>a. has_entry c j a")
    case True
    then obtain a where a: "has_entry c j a" by blast
    have "entry_ok {} {} (bio_device c) j (block_of c a)" using pinnedD(5) [OF ok a] by simp
    then show ?thesis using bview_hit [OF pinnedD(1) [OF ok] a] by (auto simp: entry_ok_def split: if_splits)
  next
    case False
    then show ?thesis using bview_miss [OF pinnedD(1) [OF ok]] by blast
  qed
qed

lemma begin_op_idle:
  "log_idle s \<Longrightarrow> begin_op killed s = (Ok (Inr ()), s\<lparr>fs_log := (fs_log s)\<lparr>ld_outstanding := 1\<rparr>\<rparr>)"
  by (simp add: begin_op_def log_idle_def log_busy_def lh_len_def lh_max_len_def MAX_OP_BLOCKS_def LOG_SIZE_def)

lemma log_area_mono: "n \<le> m \<Longrightarrow> log_area sb n \<subseteq> log_area sb m"
  by (auto simp: log_area_def)

lemma array_writes_cong:
  "\<forall>j. block_no_range j \<longrightarrow> m j = m' j \<Longrightarrow> block_no_range j \<Longrightarrow> array_writes ws m j = array_writes ws m' j"
proof (induction ws arbitrary: m m')
  case (Cons w ws)
  have "m (as_index (fst w)) = m' (as_index (fst w))" using Cons.prems(1) as_index_range by blast
  then show ?case unfolding array_writes.simps by (intro Cons.IH) (use Cons.prems in simp_all)
qed simp

text \<open>
  C2. A transaction that changes at most ten blocks outside of the log returns, without a panic and without waiting, when no other is
  running; afterwards the blocks on the disk outside of the log are what the changes make of those before, and the log is idle again.
\<close>

theorem transaction_commits:
  assumes "log_idle s" and "length ws \<le> 10" and "length ws \<le> max_log_len (fs_sb s)"
    and "\<forall>w \<in> set ws. keeps_size (snd w) \<and> as_index (fst w) \<notin> log_area (fs_sb s) 10"
  shows "\<exists>s'. run_tx ws s = (Ok (), s') \<and> log_idle s' \<and> fs_sb s' = fs_sb s \<and>
    (\<forall>j. block_no_range j \<longrightarrow> j \<notin> log_area (fs_sb s) 10 \<longrightarrow>
      disk_block (bio_device (fs_cache s')) j = array_writes ws (disk_block (bio_device (fs_cache s))) j)"
proof -
  let ?s = "s\<lparr>fs_log := (fs_log s)\<lparr>ld_outstanding := 1\<rparr>\<rparr>" and ?A = "log_area (fs_sb s) 10"
  have idle: "pinned {#} [] (fs_cache s)" using assms(1) by (simp add: log_idle_def)
  let ?R = "\<lambda>_ s'. log_idle s' \<and> fs_sb s' = fs_sb s \<and> (\<forall>j. block_no_range j \<longrightarrow> j \<notin> ?A \<longrightarrow>
      disk_block (bio_device (fs_cache s')) j = array_writes ws (disk_block (bio_device (fs_cache s))) j)"
  have "cwp (cforeach tx_write ws) (\<lambda>_. cwp (tx_drop False) ?R) ?s"
  proof (rule tx_writes_wp [where h = "\<lparr>lh_dev = ROOT_DEV, lh_blocks = []\<rparr>"], goal_cases)
    case (8 c1 h1)
    note l1 = 8
    have area: "log_area (fs_sb s) (length (lh_blocks h1)) \<subseteq> ?A" using l1(4) assms(2) by (intro log_area_mono) simp
    have "x \<notin> ?A" if "x \<in> logged (lh_blocks h1)" for x
    proof -
      have "x \<in> (as_index \<circ> fst) ` set ws" using l1(3) that by auto
      then show ?thesis using assms(4) by auto
    qed
    then have l3: "log_area (fs_sb s) (length (lh_blocks h1)) \<inter> logged (lh_blocks h1) = {}" using area by blast
    show ?case
      unfolding tx_drop_def if_False
    proof (rule end_op_wp [where h = h1], goal_cases)
      case (7 c2)
      note l2 = 7
      have "disk_block (bio_device c2) j = array_writes ws (disk_block (bio_device (fs_cache s))) j" if "block_no_range j" "j \<notin> ?A" for j
      proof -
        have "disk_block (bio_device c2) j = cview c2 j" using pinned_idle_view [OF l2(1) that(1)] by simp
        also have "\<dots> = array_writes ws (cview (fs_cache s)) j" using l2(2) l1(5) area that by auto
        also have "\<dots> = array_writes ws (disk_block (bio_device (fs_cache s))) j"
          using pinned_idle_view [OF idle] that(1) by (intro array_writes_cong) simp_all
        finally show ?thesis .
      qed
      moreover have "h1\<lparr>lh_blocks := []\<rparr> = \<lparr>lh_dev = ROOT_DEV, lh_blocks = []\<rparr>" using l1(2) by (cases h1) simp
      ultimately show ?case using l2(1) by (simp add: log_idle_def)
    qed (use l1(1,2,4) l3 assms(2) in auto)
  next
    case 2
    show ?case using assms(1) by (simp add: log_idle_def)
  qed (use assms(2-4) idle in auto)
  then have "cwp (cbind (cforeach tx_write ws) (\<lambda>_. tx_drop False)) ?R ?s" unfolding cwp_bind .
  moreover have "run_tx ws s = cbind (cforeach tx_write ws) (\<lambda>_. tx_drop False) ?s"
    using begin_op_idle [OF assms(1), of False] by (simp add: run_tx_def cbind_simps)
  ultimately have "cwp (run_tx ws) ?R s" by (simp only: cwp_def)
  then obtain a s' where "run_tx ws s = (Ok a, s')" "?R a s'" by (rule cwp_obtain)
  then show ?thesis by (intro exI [of _ s']) simp
qed


text \<open>A log over a new cache is idle.\<close>

lemma block_io_init_pinned:
  assumes "block_io_init d = Ok c"
  shows "pinned {#} [] c"
proof -
  have new: "bio_new 1024 d 30 = (Ok c :: (memory block_io_cache, stuck) outcome)" using assms by (simp add: block_io_init_def FS_BLOCK_SIZE_def NBUF_def MAX_OP_BLOCKS_def)
  then have "\<not> has_entry c k a" for k a by (auto simp: bio_new_def lru_new_def)
  then show ?thesis using bio_new_ok(1) [OF new] by (simp add: pinned_def)
qed

definition example_sb :: super_block where
  "example_sb = \<lparr>sb_magic = FS_MAGIC, sb_size = 2000, sb_nblocks = 1954, sb_ninodes = 200, sb_nlog = 30, sb_logstart = 2, sb_inodestart = 32, sb_bmapstart = 45\<rparr>"

definition example_fs :: "memory block_io_cache \<Rightarrow> log_fs" where
  "example_fs c = \<lparr>fs_cache = c, fs_sb = example_sb, fs_log = \<lparr>ld_outstanding = 0, ld_header = Some \<lparr>lh_dev = ROOT_DEV, lh_blocks = []\<rparr>\<rparr>\<rparr>"

lemma example_idle: "block_io_init d = Ok c \<Longrightarrow> log_idle (example_fs c)"
  by (simp add: log_idle_def example_fs_def block_io_init_pinned)

lemma example_area: "as_index bn \<notin> log_area (fs_sb (example_fs c)) n" if "32 \<le> unat bn" "n \<le> 30" for bn
proof
  assume "as_index bn \<in> log_area (fs_sb (example_fs c)) n"
  then obtain i where i: "i < n" "bn = 2 + of_nat i"
    by (auto simp: log_area_def log_body_block_def example_fs_def example_sb_def)
  then have "unat bn = 2 + i" using that(2) by (simp add: unat_word_ariths unat_of_nat_small)
  then show False using that i(1) by simp
qed

theorem transaction_commits_witness:
  "\<exists>c s'. block_io_init (\<lambda>_. 0) = Ok c \<and>
    run_tx [(50, \<lambda>_. replicate 1024 7), (51, rev)] (example_fs c) = (Ok (), s') \<and> disk_block (bio_device (fs_cache s')) 50 = replicate 1024 7"
proof -
  obtain c where c: "block_io_init (\<lambda>_. 0) = Ok c" by (simp add: block_io_init_def bio_new_def lru_new_def NBUF_def MAX_OP_BLOCKS_def)
  let ?ws = "[(50, \<lambda>_. replicate 1024 7), (51, rev)] :: (block_no \<times> (u8 list \<Rightarrow> u8 list)) list"
  obtain s' where s': "run_tx ?ws (example_fs c) = (Ok (), s')"
      "\<And>j. block_no_range j \<Longrightarrow> j \<notin> log_area (fs_sb (example_fs c)) 10 \<Longrightarrow>
        disk_block (bio_device (fs_cache s')) j = array_writes ?ws (disk_block (bio_device (fs_cache (example_fs c)))) j"
    using transaction_commits [OF example_idle [OF c], of ?ws] example_area [of 50 10 c] example_area [of 51 10 c]
    by (auto simp: keeps_size_def example_fs_def example_sb_def max_log_len_def)
  have "as_index 50 = 50" "as_index 51 = 51" by (simp_all add: as_index_def)
  then have "disk_block (bio_device (fs_cache s')) 50 = replicate 1024 7"
    using s'(2) [of 50] example_area [of 50 10 c] by (simp add: block_no_range_def)
  then show ?thesis using c s'(1) by blast
qed

end
