(* ===== verification/Fs_Recover.thy ===== *)
theory Fs_Recover
  imports Fs_Log
begin

text \<open>
  What the start of the log (\<^verbatim>\<open>recover_from_log\<close> of \<^verbatim>\<open>fs/log.rs\<close>) does with a transaction that was committed, and
  what commit does with a full log.
\<close>

section \<open>Recovery\<close>

text \<open>
  While the header is read and while the blocks are installed, references are held that were never locked. The state
  below is that of the cache with such references, with none of its buffers logged.
\<close>

lemma push_held_wp:
  assumes ok: "pinned held [] (fs_cache s)" and r: "br_block r \<in># held"
    and len: "length (lh_blocks h) < max_log_len (fs_sb s)" "length (lh_blocks h) < 30"
    and Q: "\<And>c h'. (h' = h \<and> br_index r \<in> logged (lh_blocks h) \<and> pinned held [] c \<or>
        lh_blocks h' = lh_blocks h @ [r] \<and> br_index r \<notin> logged (lh_blocks h) \<and> pinned (add_mset (br_block r) held) [] c) \<Longrightarrow> lh_dev h' = lh_dev h \<Longrightarrow>
      cview c = cview (fs_cache s) \<Longrightarrow> bio_device c = bio_device (fs_cache s) \<Longrightarrow> is_locked c = is_locked (fs_cache s) \<Longrightarrow>
      block_of c = block_of (fs_cache s) \<Longrightarrow> Q h' (s\<lparr>fs_cache := c\<rparr>)"
  shows "cwp (lh_push r h) Q s"
proof (cases "br_index r \<in> logged (lh_blocks h)")
  case True
  have "Q h (s\<lparr>fs_cache := fs_cache s\<rparr>)" using ok True by (intro Q) auto
  then show ?thesis using len(1) True by (auto simp: lh_push_def)
next
  case False
  let ?c = "fs_cache s" and ?v = "br_block r"
  have l: "log_cache_ok held ?c" using pinnedD(1) [OF ok] by simp
  have e: "has_entry ?c (lv_key ?v) (lv_arc ?v)" by (rule pinned_entry(1) [OF ok r])
  obtain c' where c': "bio_clone ?v ?c = (Ok ?v, c')" "log_cache_ok (add_mset ?v held) c'" "looks_same ?c c'"
    using bio_clone_ok [OF l r] .
  note same = looks_sameD [OF c'(3)]
  have "insert (lv_key ?v) (keys_of held) = keys_of held" using r by auto
  then have "pinned (add_mset ?v held) [] c'"
    using pinnedD(4,5) [OF ok e] c'(2) same r by (intro pinned_step [OF ok _ e]) auto
  moreover have "cview c' = cview ?c" using looks_same_view [OF c'(3) cache_okD(1) [OF l] cache_okD(1) [OF c'(2)]] .
  ultimately have "Q (h\<lparr>lh_blocks := lh_blocks h @ [r]\<rparr>) (s\<lparr>fs_cache := c'\<rparr>)" using same False by (intro Q) auto
  moreover have "cwp (on_cache (ref_clone r)) Q s \<longleftrightarrow> Q r (s\<lparr>fs_cache := c'\<rparr>)" for Q
    using c'(1) by (cases r) (simp add: on_cache_def ref_clone_def cwp_def cbind_simps)
  moreover have "\<forall>b \<in> set (lh_blocks h). br_index b \<noteq> br_index r" using False by (metis image_eqI)
  ultimately show ?thesis using len by (simp add: lh_push_def LOG_SIZE_def MAX_OP_BLOCKS_def)
qed

lemma pinned_same:
  assumes "pinned held brs c" and "v \<in># held" and "w \<in># held" and "lv_key v = lv_key w"
  shows "v = w"
  using lru_handle_same [OF cache_okD(1) [OF pinnedD(1) [OF assms(1)]], of v w] assms(2-4) by (simp add: lru_value.equality)

text \<open>The references of a header that is being read, beside the handles \<open>held\<close> of its own block.\<close>

abbreviation refs :: "log_header \<Rightarrow> usize lru_value multiset" where
  "refs h \<equiv> mset (map br_block (lh_blocks h))"

definition refs_ok :: "log_header \<Rightarrow> bool" where
  "refs_ok h \<longleftrightarrow> lh_dev h = ROOT_DEV \<and> (\<forall>r \<in> set (lh_blocks h). br_index r = lv_key (br_block r))"

lemma refs_keys: "refs_ok h \<Longrightarrow> keys_of (held + refs h) = keys_of held \<union> logged (lh_blocks h)"
  by (auto simp: refs_ok_def image_iff)

lemma lh_read_blocks_wp:
  assumes "pinned (held + refs h) [] (fs_cache s)" and "refs_ok h"
    and "length (lh_blocks h) + length bns \<le> max_log_len (fs_sb s)" "card (keys_of held) + length (lh_blocks h) + length bns \<le> 30" 
    and "\<And>c h'. pinned (held + refs h') [] c \<Longrightarrow> refs_ok h' \<Longrightarrow> length (lh_blocks h') \<le> length (lh_blocks h) + length bns \<Longrightarrow>
      cview c = cview (fs_cache s) \<Longrightarrow> bio_device c = bio_device (fs_cache s) \<Longrightarrow> is_locked c = is_locked (fs_cache s) \<Longrightarrow>
      block_of c = block_of (fs_cache s) \<Longrightarrow> Q h' (s\<lparr>fs_cache := c\<rparr>)"
  shows "cwp (lh_read_blocks bns h) Q s"
  using assms
proof (induction bns arbitrary: h s)
  case Nil
  have "Q h (s\<lparr>fs_cache := fs_cache s\<rparr>)" by (rule Nil.prems(5)) (use Nil.prems in auto)
  then show ?case unfolding lh_read_blocks.simps cwp_simps by simp
next
  case (Cons bn bns)
  let ?k = "as_index bn"
  have "card (keys_of held \<union> logged (lh_blocks h)) \<le> card (keys_of held) + length (lh_blocks h)"
    using card_Un_le [of "keys_of held" "logged (lh_blocks h)"] logged_card [of "lh_blocks h"] by linarith
  then have room: "has_room (held + refs h) [] ?k"
    using Cons.prems(4) refs_keys [OF Cons.prems(2), of held] by (simp add: has_room_def)
  have dev: "lh_dev h = ROOT_DEV" using Cons.prems(2) by (simp add: refs_ok_def)
  show ?case
    unfolding lh_read_blocks.simps cwp_bind dev
  proof (rule get_wp [OF Cons.prems(1) as_index_range room], goal_cases)
    case (1 v c1)
    note l1 = 1
    let ?r = "\<lparr>br_index = ?k, br_block = v\<rparr>"
    show ?case
    proof (rule push_held_wp [where held = "add_mset v (held + refs h)"], goal_cases)
      case (5 c2 h2)
      note l2 = 5
      have len: "length (lh_blocks h2) \<le> Suc (length (lh_blocks h))" using l2(1) by auto
      have p2: "pinned (add_mset v (held + refs h2)) [] c2"
        using l2(1) by (auto simp: union_mset_add_mset_right)
      have v: "v \<in># held + refs h2"
      proof (cases "?k \<in> logged (lh_blocks h)")
        case True
        then obtain q where q: "q \<in> set (lh_blocks h)" "br_index q = ?k" by auto
        then have "lv_key (br_block q) = lv_key v" using Cons.prems(2) l1(2) by (simp add: refs_ok_def)
        moreover have "br_block q \<in># refs h" using q(1) by simp
        ultimately have "br_block q = v" using pinned_same [OF l1(1), of "br_block q" v] by simp
        then show ?thesis using l2(1) True q(1) by auto
      next
        case False
        then show ?thesis using l2(1) by auto
      qed
      have ok2: "refs_ok h2" using Cons.prems(2) l2(1,2) l1(2) by (auto simp: refs_ok_def)
      show ?case
      proof (rule ref_drop_held_wp [where held = "held + refs h2" and brs = "[]"], goal_cases)
        case (3 c3)
        note l3 = 3
        show ?case
        proof (rule Cons.IH [where h = h2], goal_cases)
          case (5 h4 c4)
          note l4 = 5
          have "Q h4 (s\<lparr>fs_cache := c4\<rparr>)" by (rule Cons.prems(5)) (use l1 l2 l3 l4 len in simp_all)
          then show ?case by simp
        qed (use l3(1) ok2 len Cons.prems(3,4) in auto)
      qed (use p2 v in auto)
    qed (use l1(1) Cons.prems(3,4) in auto)
  qed
qed


lemma lh_read_wp:
  assumes ok: "pinned {#} [] (fs_cache s)" and h: "refs_ok h" "lh_blocks h = []" and kh: "as_index (log_header_block (fs_sb s)) = kh"
    and bns: "log_header_block_indices (cview (fs_cache s) kh) = (Ok bns :: (u32 list, stuck) outcome)" and len: "length bns \<le> max_log_len (fs_sb s)" "length bns < 30"
    and Q: "\<And>c h'. pinned (refs h') [] c \<Longrightarrow> refs_ok h' \<Longrightarrow> cview c = cview (fs_cache s) \<Longrightarrow>
      bio_device c = bio_device (fs_cache s) \<Longrightarrow> \<forall>a. is_locked c a \<longrightarrow> is_locked (fs_cache s) a \<Longrightarrow> length (lh_blocks h') \<le> length bns \<Longrightarrow> Q h' (s\<lparr>fs_cache := c\<rparr>)"
  shows "cwp (lh_read h) Q s"
proof -
  have dev: "lh_dev h = ROOT_DEV" using h(1) by (simp add: refs_ok_def)
  have rng: "block_no_range kh" using kh as_index_range by metis
  have room: "has_room {#} [] kh" by (simp add: has_room_def)
  show ?thesis
    unfolding lh_read_def lock_read_def cwp_bind cwp_simps cwp_unit_simps dev kh
  proof (intro conjI h(2), rule open_wp [OF ok rng _ room], simp, goal_cases)
    case (1 v c1)
    note l1 = 1
    let ?g = "\<lparr>bg_index = kh, bg_block = v\<rparr>"
    show ?case
    proof (rule guard_read_wp [where held = "{#v, v#}" and brs = "[]"], goal_cases)
      case (2 c2)
      note l2 = 2
      have l: "loaded {#v, v#} [] (fs_cache (s\<lparr>fs_cache := c1, fs_cache := c2\<rparr>)) ?g" using l2(1) by simp
      show ?case
      proof (rule guard_bytes_wp [OF l], rule cwp_lift [where a = bns], goal_cases)
        case 1
        show ?case using bns l1(3) l2(2) by simp
      next
        case 2
        show ?case
        proof (rule lh_read_blocks_wp [where held = "{#v, v#}"], goal_cases)
          case (5 c3 h3)
          note l3 = 5
          have "loaded (add_mset v (add_mset v (refs h3))) [] c3 ?g"
            by (rule loaded_other [OF l]) (use l3 in auto)
          then have o: "opened (add_mset v (add_mset v (refs h3))) [] c3 ?g" by (rule loadedD)
          show ?case
          proof (rule close_wp [where held = "refs h3" and brs = "[]"], goal_cases)
            case (3 c4)
            have "Q h3 (s\<lparr>fs_cache := c4\<rparr>)" by (rule Q) (use l1 l2 l3 3 h(2) in auto)
            then show ?case unfolding cwp_simps by simp
          qed (use o l2(6) l1(8) l3(7) in auto)
        qed (use l2 h len openedD(1) [OF loadedD(1) [OF l2(1)]] in auto)
      qed
    qed (use l1 in auto)
  qed
qed


text \<open>Installing writes to each block what the disk has there already.\<close>

lemma install_held_wp:
  assumes "pinned (mset (map br_block brs)) [] (fs_cache s)" and "\<forall>r \<in> set brs. br_index r = lv_key (br_block r)"
    and "\<forall>a < 30. \<not> is_locked (fs_cache s) a" and "\<forall>j. block_no_range j \<longrightarrow> cview (fs_cache s) j = disk_block (bio_device (fs_cache s)) j"
    and "\<And>c. pinned {#} [] c \<Longrightarrow> same_outside {} (fs_cache s) c \<Longrightarrow> Q () (s\<lparr>fs_cache := c\<rparr>)"
  shows "cwp (install_blocks brs) Q s"
  using assms
proof (induction brs arbitrary: s)
  case Nil
  have "Q () (s\<lparr>fs_cache := fs_cache s\<rparr>)" by (rule Nil.prems(5)) (use Nil.prems(1) in \<open>auto simp: same_outside_def\<close>)
  then show ?case unfolding install_blocks.simps cwp_simps by simp
next
  case (Cons r brs)
  let ?v = "br_block r" and ?held = "mset (map br_block (r # brs))"
  have "has_entry (fs_cache s) (lv_key ?v) (lv_arc ?v)" using pinned_entry(1) [OF Cons.prems(1), of ?v] by simp
  then have "lv_arc ?v < 30" by (rule lru_ok_arc(1) [OF cache_okD(1) [OF pinnedD(1) [OF Cons.prems(1)]]])
  then have p: "br_block r \<in># ?held + mset (map br_block [])" "br_index r = lv_key ?v" "\<not> is_locked (fs_cache s) (lv_arc ?v)"
    using Cons.prems(2,3) by auto
  have r: "\<lparr>br_index = br_index r, br_block = ?v\<rparr> = r" by simp
  show ?case
    unfolding install_blocks.simps cwp_bind
  proof (rule lock_read_wp [OF Cons.prems(1) p], goal_cases)
    case (1 c1 g)
    note l1 = 1
    show ?case
    proof (rule guard_write_wp [where held = "add_mset ?v ?held" and brs = "[]"], goal_cases)
      case (2 c2)
      note l2 = 2
      have o: "opened (add_mset ?v (add_mset ?v (mset (map br_block brs)))) [] c2 g" using loadedD(1) [OF l2(1)] by simp
      have "cwp (on_cache (guard_drop g)) (\<lambda>_. cwp (on_cache (ref_drop r)) (\<lambda>_. cwp (install_blocks brs) Q)) (s\<lparr>fs_cache := c1, fs_cache := c2\<rparr>)"
        unfolding l1(1)
      proof (rule close_wp [of ?v "mset (map br_block brs)" "[]" _ "br_index r", unfolded r], goal_cases)
        case (3 c3)
        note l3 = 3
        have "same_outside {} (fs_cache s) c3"
          using l1(3,4) l2(2,3) l3(2,3) Cons.prems(4) by (auto simp: same_outside_def)
        then show ?case
          by (intro Cons.IH)
            (use l1 l2 l3 Cons.prems(2-4) in \<open>auto intro!: Cons.prems(5) simp: same_outside_def\<close>)
      qed (use o l1(1) l2(6) in auto)
      then show ?case .
    qed (use l1 in auto)
  qed
qed

text \<open>
  C29. When the system starts with a transaction committed in the log, as after a crash between its commit and the end of its
  installation, the start returns and leaves an idle log, but it writes no block except the header, which it erases: the contents
  that the log holds for the blocks are never copied to them, and the transaction is lost.
\<close>

theorem recovery_loses_transaction:
  assumes "pinned {#} [] (fs_cache s)" and "as_index (log_header_block (fs_sb s)) = kh"
    and "log_header_block_indices (disk_block (bio_device (fs_cache s)) kh) = (Ok bns :: (u32 list, stuck) outcome)"
    and "length bns \<le> max_log_len (fs_sb s)" and "max_log_len (fs_sb s) \<le> 30" and "length bns < 30"
  shows "\<exists>s'. log_init ROOT_DEV s = (Ok (), s') \<and> log_idle s' \<and> header_bytes [] (disk_block (bio_device (fs_cache s')) kh) \<and>
    (\<forall>j. block_no_range j \<longrightarrow> j \<noteq> kh \<longrightarrow> disk_block (bio_device (fs_cache s')) j = disk_block (bio_device (fs_cache s)) j)"
proof -
  let ?h = "\<lparr>lh_dev = ROOT_DEV, lh_blocks = []\<rparr>"
  have rng: "block_no_range kh" using assms(2) as_index_range by metis
  let ?R = "\<lambda>_ s'. log_idle s' \<and> header_bytes [] (disk_block (bio_device (fs_cache s')) kh) \<and>
    (\<forall>j. block_no_range j \<longrightarrow> j \<noteq> kh \<longrightarrow> disk_block (bio_device (fs_cache s')) j = disk_block (bio_device (fs_cache s)) j)"
  have un: "\<not> is_locked (fs_cache s) a" if "a < 30" for a
  proof -
    have "a \<in> set (map snd (lru_list (bio_lru (fs_cache s))))" using lru_okD(2) [OF cache_okD(1) [OF pinnedD(1) [OF assms(1)]]] that by simp
    then obtain k where "(k, a) \<in> set (lru_list (bio_lru (fs_cache s)))" by auto
    then show ?thesis using cache_okD(4) [OF pinnedD(1) [OF assms(1)]] by auto
  qed
  have "cwp (log_init ROOT_DEV) ?R s"
    unfolding log_init_def lh_new_def recover_from_log_def install_transaction_def cwp_bind cwp_simps cwp_unit_simps
  proof (intro conjI, simp add: assms(5) LOG_SIZE_def MAX_OP_BLOCKS_def, rule lh_read_wp [where kh = kh and bns = bns], goal_cases)
    case (8 c1 h1)
    note l1 = 8
    show ?case
    proof (rule install_held_wp, goal_cases)
      case (5 c2)
      note l2 = 5
      show ?case
      proof (rule write_log_head_wp [where brs = "[]" and hs = "[]" and kh = kh], goal_cases)
        case (9 c3)
        have "h1\<lparr>lh_blocks := []\<rparr> = ?h" using l1(2) by (cases h1) (simp add: refs_ok_def)
        then show ?case using l1(3,4) l2(2) 9 by (simp add: log_idle_def same_outside_def)
      qed (use l1(2) l2(1) assms(2) in \<open>auto simp: refs_ok_def\<close>)
    qed (use l1 un pinned_idle_view [OF assms(1)] in \<open>auto simp: refs_ok_def\<close>)
  qed (use assms pinned_idle_view [OF assms(1) rng] in \<open>auto simp: refs_ok_def\<close>)
  then obtain a s' where "log_init ROOT_DEV s = (Ok a, s')" "?R a s'" by (rule cwp_obtain)
  then show ?thesis by (intro exI [of _ s']) simp
qed


lemma u32_at_disk:
  assumes "i * 4 + 4 \<le> 1024"
  shows "u32_at (disk_block d k) i = le_word (map (\<lambda>j. d (k * 1024 + of_nat (i * 4) + of_nat j)) [0..<4])"
proof -
  have "slot_get 4 i (disk_block d k) = map (\<lambda>j. d (k * 1024 + of_nat (i * 4) + of_nat j)) [0..<4]"
    using assms by (intro nth_equalityI) (auto simp: slot_get_def disk_block_def mem_read_def FS_BLOCK_SIZE_def add.assoc)
  then show ?thesis by (simp add: u32_at_def)
qed

text \<open>A disk with block 50 committed in the log, and its content in the block that follows the header.\<close>

definition crash_disk :: memory where
  "crash_disk a = (if a = 2048 then 1 else if a = 2052 then 50 else if 3072 \<le> a \<and> a < 4096 then 7 else 0)"

lemma crash_header: "log_header_block_indices (disk_block crash_disk 2) = Ok [50]"
proof -
  have "u32_at (disk_block crash_disk 2) 0 = 1" "u32_at (disk_block crash_disk 2) 1 = 50"
    by (simp_all add: u32_at_disk crash_disk_def upt_rec le_word_def)
  then show ?thesis by (simp add: log_header_block_indices_def log_header_len_def MAX_LOG_COUNT_def upt_rec)
qed


theorem recovery_loses_transaction_witness:
  "\<exists>c s'. block_io_init crash_disk = Ok c \<and> log_header_block_indices (disk_block crash_disk 2) = (Ok [50] :: (u32 list, stuck) outcome) \<and>
    log_init ROOT_DEV (example_fs c) = (Ok (), s') \<and> disk_block crash_disk 3 = replicate 1024 7 \<and>
    disk_block (bio_device (fs_cache s')) 50 = replicate 1024 0"
proof -
  obtain c where c: "block_io_init crash_disk = Ok c"
    by (simp add: block_io_init_def bio_new_def lru_new_def NBUF_def MAX_OP_BLOCKS_def)
  have dev: "bio_device (fs_cache (example_fs c)) = crash_disk" using c by (auto simp: block_io_init_def example_fs_def bio_new_def)
  have kh: "as_index (log_header_block (fs_sb (example_fs c))) = 2"
    by (simp add: example_fs_def example_sb_def log_header_block_def as_index_def)
  have p: "pinned {#} [] (fs_cache (example_fs c))" using block_io_init_pinned [OF c] by (simp add: example_fs_def)
  obtain s' where s': "log_init ROOT_DEV (example_fs c) = (Ok (), s')"
      "\<And>j. block_no_range j \<Longrightarrow> j \<noteq> 2 \<Longrightarrow> disk_block (bio_device (fs_cache s')) j = disk_block crash_disk j"
    using recovery_loses_transaction [OF p kh, of "[50]"] crash_header dev by (auto simp: max_log_len_def example_fs_def example_sb_def)
  have "disk_block crash_disk 3 = replicate 1024 7" "disk_block crash_disk 50 = replicate 1024 0"
    by (auto simp: disk_block_def mem_read_def crash_disk_def FS_BLOCK_SIZE_def list_eq_iff_nth_eq word_less_nat_alt word_le_nat_alt
        word_unat_eq_iff unat_word_ariths unat_of_nat_small)
  then show ?thesis using c crash_header s' by (auto simp: block_no_range_def)
qed

section \<open>A full log\<close>

lemma cbind_Panic: "cwp m (\<lambda>a s'. fst (f a s') = Panic) s \<Longrightarrow> fst (cbind m f s) = Panic"
  by (auto simp: cwp_def cbind_def)

lemma cbind_Panic_first: "fst (m s) = Panic \<Longrightarrow> fst (cbind m f s) = Panic"
  by (auto simp: cbind_def split: prod.splits outcome.splits)

lemma get_no_buffer:
  assumes ok: "pinned held brs (fs_cache s)" and "30 \<le> card (logged brs)" and k: "k \<notin> keys_of held \<union> logged brs"
  shows "fst (block_io_get ROOT_DEV k s) = Panic"
proof -
  let ?live = "held + mset (map br_block brs)" and ?l = "bio_lru (fs_cache s)"
  have l: "lru_ok 30 ?live ?l" using cache_okD(1) [OF pinnedD(1) [OF ok]] .
  have sub: "lv_arc ` set_mset ?live \<subseteq> {..<30}" using lru_ok_arc(1) [OF l lru_okD(5) [OF l]] by blast
  have "card (lv_arc ` set_mset ?live) = card (keys_of ?live)" using lru_handle_same [OF l] by (intro card_image_same) auto
  moreover have "card (logged brs) \<le> card (keys_of ?live)" unfolding pinned_keys [OF ok] by (intro card_mono) auto
  ultimately have arcs: "lv_arc ` set_mset ?live = {..<30}" using assms(2) sub by (intro card_seteq) auto
  have used: "\<exists>v \<in># ?live. lv_arc v = a" if "(k', a) \<in> set (lru_list ?l)" for k' a
  proof -
    have "a \<in> lv_arc ` set_mset ?live" unfolding arcs using lru_ok_arc(1) [OF l that] by simp
    then show ?thesis by blast
  qed
  have "(Some k, a) \<notin> set (lru_list ?l)" for a
  proof
    assume e: "(Some k, a) \<in> set (lru_list ?l)"
    obtain v where v: "v \<in># ?live" "lv_arc v = a" using used [OF e] by blast
    then have "lv_key v = k" using lru_ok_arc(2) [OF l e, of "Some (lv_key v)"] lru_okD(5) [OF l v(1)] by simp
    then show False using k v(1) pinned_keys [OF ok] by blast
  qed
  moreover have "\<forall>e \<in> set (lru_list ?l). \<exists>v \<in># ?live. lv_arc v = snd e" using used by fastforce
  ultimately have "fst (lru_get k ?l) = None" using lru_get_None [OF l] by blast
  then show ?thesis
    by (cases "lru_get k ?l") (simp add: block_io_get_def on_cache_def bio_get_def try_get_def cbind_def)
qed


lemma commit_no_buffer:
  assumes ok: "pinned {#} (lh_blocks h) (fs_cache s)" and dev: "lh_dev h = ROOT_DEV" and len: "length (lh_blocks h) = 30"
    and k: "as_index (log_body_block (fs_sb s) 0) \<notin> logged (lh_blocks h)"
  shows "fst (lh_commit h s) = Panic"
proof -
  obtain r brs where brs: "lh_blocks h = r # brs" using len by (cases "lh_blocks h") auto
  have un: "\<not> is_locked (fs_cache s) (lv_arc (br_block r))" "br_block r \<in># {#} + mset (map br_block (lh_blocks h))"
    using pinned_unlocked [OF ok, of r] brs by simp_all
  have rk: "br_index r = lv_key (br_block r)" using pinnedD(3) [OF ok, of r] brs by simp
  have card: "30 \<le> card (logged (lh_blocks h))" using pinned_length [OF ok] len by simp
  have "fst (write_body_block ROOT_DEV (as_index (log_body_block (fs_sb s) 0)) r s) = Panic"
    unfolding write_body_block_def
  proof (rule cbind_Panic, rule lock_read_wp [OF ok un(2) rk un(1)], goal_cases)
    case (1 c g)
    have "fst (block_io_get ROOT_DEV (as_index (log_body_block (fs_sb s) 0)) (s\<lparr>fs_cache := c\<rparr>)) = Panic"
      by (rule get_no_buffer [where held = "{#br_block r#}" and brs = "lh_blocks h"])
        (use openedD(1) [OF loadedD(1) [OF 1(2)]] card k rk brs in auto)
    then show ?case by (rule cbind_Panic_first)
  qed
  then have "fst (write_log_body h s) = Panic"
    unfolding write_log_body_def brs dev write_body_from.simps
    by (intro cbind_Panic) (simp add: cbind_Panic_first)
  then show ?thesis using brs by (simp add: lh_commit_def cbind_Panic_first)
qed

definition three_ops :: "(block_no \<times> (u8 list \<Rightarrow> u8 list)) list \<Rightarrow> ('z, unit) log_call" where
  "three_ops ws =
     cbind (begin_op False) (\<lambda>_. cbind (begin_op False) (\<lambda>_. cbind (begin_op False) (\<lambda>_.
     cbind (cforeach tx_write ws) (\<lambda>_. cbind end_op (\<lambda>_. cbind end_op (\<lambda>_. end_op))))))"

text \<open>
  C30. The log admits three operations at a time, of ten blocks each. When they have logged thirty different blocks, the end of the
  last one panics: the references of the log hold all of the thirty buffers, and the commit asks for one more.
\<close>

theorem full_log_panics:
  assumes "log_idle s" and "max_log_len (fs_sb s) = 30" and "length ws = 30" and "distinct (map fst ws)"
    and "\<forall>w \<in> set ws. keeps_size (snd w) \<and> as_index (fst w) \<notin> log_area (fs_sb s) 30"
  shows "fst (three_ops ws s) = Panic"
proof -
  let ?s = "s\<lparr>fs_log := (fs_log s)\<lparr>ld_outstanding := 3\<rparr>\<rparr>"
  have start: "three_ops ws s = cbind (cforeach tx_write ws) (\<lambda>_. cbind end_op (\<lambda>_. cbind end_op (\<lambda>_. end_op))) ?s"
    using assms(1)
    by (simp add: three_ops_def cbind_def begin_op_def log_idle_def log_busy_def lh_len_def lh_max_len_def MAX_OP_BLOCKS_def LOG_SIZE_def)
  have "cwp (cforeach tx_write ws) (\<lambda>_ s'. fst (cbind end_op (\<lambda>_. cbind end_op (\<lambda>_. end_op)) s') = Panic) ?s"
  proof (rule tx_writes_wp [where h = "\<lparr>lh_dev = ROOT_DEV, lh_blocks = []\<rparr>"], goal_cases)
    case (8 c h)
    note l = 8
    have "card ((as_index \<circ> fst) ` set ws) = card (fst ` set ws)" unfolding image_comp [symmetric] by (intro card_image) (auto simp: inj_on_def)
    also have "\<dots> = 30" using distinct_card [OF assms(4)] assms(3) by simp
    finally have len: "length (lh_blocks h) = 30" using pinned_length [OF l(1)] l(3) by simp
    have "as_index (log_body_block (fs_sb s) 0) \<in> log_area (fs_sb s) 30"
      unfolding log_area_def by (intro image_eqI [of _ _ 0]) simp_all
    then have k: "as_index (log_body_block (fs_sb s) 0) \<notin> logged (lh_blocks h)" using l(3) assms(5) by auto
    have "fst (lh_commit h t) = Panic" if "fs_cache t = c" "fs_sb t = fs_sb s" for t :: "'a log_fs_scheme"
      by (rule commit_no_buffer) (use l(1,2) len k that in auto)
    then show ?case
      by (simp add: end_op_def Let_def cbind_def [of end_op] cbind_Panic_first)
  qed (use assms in \<open>auto simp: log_idle_def\<close>)
  then show ?thesis unfolding start by (rule cbind_Panic)
qed

theorem full_log_panics_witness:
  "\<exists>c. block_io_init (\<lambda>_. 0) = Ok c \<and> fst (three_ops (map (\<lambda>i. (of_nat i, rev)) [50..<80]) (example_fs c)) = Panic"
proof -
  obtain c where c: "block_io_init (\<lambda>_. 0) = Ok c"
    by (simp add: block_io_init_def bio_new_def lru_new_def NBUF_def MAX_OP_BLOCKS_def)
  let ?ws = "map (\<lambda>i. (of_nat i, rev)) [50..<80] :: (block_no \<times> (u8 list \<Rightarrow> u8 list)) list"
  have u: "unat (of_nat i :: block_no) = i" if "i < 80" for i using that by (simp add: unat_of_nat_small)
  have dist: "distinct (map fst ?ws)"
    by (auto simp: distinct_map inj_on_def comp_def word_unat_eq_iff u simp del: upt.simps upt_rec_numeral)
  have "as_index (of_nat i) \<notin> log_area (fs_sb (example_fs c)) 30" if "50 \<le> i" "i < 80" for i
    using example_area [of "of_nat i" 30 c] that u by simp
  then have all: "\<forall>w \<in> set ?ws. keeps_size (snd w) \<and> as_index (fst w) \<notin> log_area (fs_sb (example_fs c)) 30"
    unfolding set_map set_upt by (auto simp: keeps_size_def)
  have "fst (three_ops ?ws (example_fs c)) = Panic"
    by (rule full_log_panics [OF example_idle [OF c] _ _ dist all])
      (simp_all add: max_log_len_def example_fs_def example_sb_def)
  then show ?thesis using c by blast
qed

end
