(* ===== verification/Fs_Inode.thy ===== *)
theory Fs_Inode
  imports Fs_Log
begin

text \<open>
  The blocks of files: \<^verbatim>\<open>fs/data_block.rs\<close> (the bitmap of free blocks) and \<^verbatim>\<open>fs/inode/content.rs\<close> with the data of
  \<^verbatim>\<open>fs/inode/mod.rs\<close> (the content of an inode), on top of the transactions of the log. A locked inode is the value of its
  guard, which the operations take and return; the bytes of a \<^verbatim>\<open>GenericSlice\<close> are a list.
\<close>

section \<open>Data blocks\<close>

text \<open>The search of \<^verbatim>\<open>alloc\<close> in one block of the bitmap, over the bits that are left.\<close>

primrec find_free :: "u32 \<Rightarrow> u32 \<Rightarrow> u8 list \<Rightarrow> nat list \<Rightarrow> (nat option, stuck) outcome" where
  "find_free sz bn0 bs [] = Ok None"
| "find_free sz bn0 bs (bni # bnis) =
     (if bn0 + of_nat bni < sz
      then obind (bmap_is_allocated bs bni) (\<lambda>allocated. if \<not> allocated then Ok (Some bni) else find_free sz bn0 bs bnis)
      else Ok None)"

text \<open>The loop of \<^verbatim>\<open>alloc\<close> over the first block numbers of the blocks of the bitmap.\<close>

primrec alloc_loop :: "device_no \<Rightarrow> super_block \<Rightarrow> u32 list \<Rightarrow> ('z, kernel_error + block_no) log_call" where
  "alloc_loop dev sb [] = creturn (Inl StorageOutOfBlocks)"
| "alloc_loop dev sb (bn0 # bns) =
     cbind (tx_get_block dev (bmap_block sb bn0)) (\<lambda>br.
     cbind (lock_read br) (\<lambda>bg.
     cbind (bg_bytes bg) (\<lambda>bs.
     cbind (clift (find_free (sb_size sb) bn0 bs [0..<unat BITS_PER_BLOCK])) (\<lambda>found.
     case found of
       None \<Rightarrow>
         cbind (tx_guard_drop False bg) (\<lambda>_.
         cbind (on_cache (ref_drop br)) (\<lambda>_. alloc_loop dev sb bns))
     | Some bni \<Rightarrow>
         cbind (bg_update bg (bmap_allocate bni)) (\<lambda>_.
         cbind (tx_guard_drop False bg) (\<lambda>_.
         cbind (block_zero dev (bn0 + of_nat bni)) (\<lambda>_.
         cbind (on_cache (ref_drop br)) (\<lambda>_. creturn (Inr (bn0 + of_nat bni))))))))))"

definition bitmap_starts :: "super_block \<Rightarrow> u32 list" where
  "bitmap_starts sb = map (\<lambda>i. of_nat i * BITS_PER_BLOCK) [0..<(unat (sb_size sb) + 8191) div 8192]"

definition data_block_alloc :: "device_no \<Rightarrow> ('z, kernel_error + block_no) log_call" where
  "data_block_alloc dev = cbind (cread fs_sb) (\<lambda>sb. alloc_loop dev sb (bitmap_starts sb))"

definition data_block_free :: "device_no \<Rightarrow> block_no \<Rightarrow> ('z, unit) log_call" where
  "data_block_free dev b =
     cbind (cread fs_sb) (\<lambda>sb.
     with_block False dev (bmap_block sb b) (\<lambda>bg.
       let bi = unat b mod unat BITS_PER_BLOCK in
       cbind (bg_bytes bg) (\<lambda>bs.
       cbind (clift (obind (bmap_is_allocated bs bi) require)) (\<lambda>_.
       bg_update bg (bmap_free bi)))))"

section \<open>Inodes in memory\<close>

record inode_data =
  id_ty :: u16
  id_major :: device_no
  id_minor :: u16
  id_nlink :: u16
  id_size :: u32
  id_addrs :: "block_no option list"

definition from_repr :: "disk_inode \<Rightarrow> inode_data" where
  "from_repr r =
     \<lparr>id_ty = di_ty r, id_major = ucast (di_major r), id_minor = di_minor r, id_nlink = di_nlink r, id_size = di_size r,
      id_addrs = read_addrs r\<rparr>"

definition write_repr :: "inode_data \<Rightarrow> disk_inode \<Rightarrow> (disk_inode, 'e) outcome" where
  "write_repr d r =
     obind (require (unat (id_major d) < 2 ^ 16)) (\<lambda>_.
     write_addrs (id_addrs d) (r\<lparr>di_ty := id_ty d, di_major := ucast (id_major d), di_nlink := id_nlink d, di_size := id_size d\<rparr>))"

record locked_inode =
  li_dev :: device_no
  li_ino :: inode_no
  li_data :: inode_data

definition read_inode :: "bool \<Rightarrow> device_no \<Rightarrow> inode_no \<Rightarrow> ('z, locked_inode) log_call" where
  "read_inode ro dev ino =
     cbind (cread fs_sb) (\<lambda>sb.
     with_block ro dev (inode_block sb ino) (\<lambda>bg.
       cbind (bg_bytes bg) (\<lambda>bs. creturn \<lparr>li_dev = dev, li_ino = ino, li_data = from_repr (block_inode bs ino)\<rparr>)))"

definition inode_update :: "locked_inode \<Rightarrow> ('z, unit) log_call" where
  "inode_update li =
     cbind (cread fs_sb) (\<lambda>sb.
     with_block False (li_dev li) (inode_block sb (li_ino li)) (\<lambda>bg.
       bg_update bg (\<lambda>bs.
         obind (write_repr (li_data li) (block_inode bs (li_ino li))) (\<lambda>r. Ok (block_put_inode (li_ino li) r bs)))))"

definition set_addr :: "nat \<Rightarrow> block_no option \<Rightarrow> locked_inode \<Rightarrow> locked_inode" where
  "set_addr i a li = li\<lparr>li_data := (li_data li)\<lparr>id_addrs := (id_addrs (li_data li))[i := a]\<rparr>\<rparr>"

section \<open>The content of an inode\<close>

text \<open>The block of an inode; \<open>Inr None\<close> when there is none and the transaction is read only.\<close>

type_synonym 'a inode_result = "(kernel_error + 'a) \<times> locked_inode"

definition get_or_alloc_direct :: "bool \<Rightarrow> nat \<Rightarrow> locked_inode \<Rightarrow> ('z, block_no option inode_result) log_call" where
  "get_or_alloc_direct ro i li =
     cbind (clift (require (i < NUM_DIRECT_REFS))) (\<lambda>_.
     case id_addrs (li_data li) ! i of
       Some bn \<Rightarrow> creturn (Inr (Some bn), li)
     | None \<Rightarrow>
         if ro then creturn (Inr None, li)
         else cbind (data_block_alloc (li_dev li)) (\<lambda>r. creturn (
           case r of
             Inl e \<Rightarrow> (Inl e, li)
           | Inr bn \<Rightarrow> (Inr (Some bn), set_addr i (Some bn) li))))"

text \<open>The second half of \<^verbatim>\<open>get_or_alloc_indirect_data_block\<close>: a new block for the entry \<open>i\<close> of the indirect block.\<close>

definition alloc_indirect_entry :: "bool \<Rightarrow> nat \<Rightarrow> block_no \<Rightarrow> locked_inode \<Rightarrow> ('z, block_no option inode_result) log_call" where
  "alloc_indirect_entry ro i ind_bn li =
     (if ro then creturn (Inr None, li)
      else cbind (data_block_alloc (li_dev li)) (\<lambda>r.
        case r of
          Inl e \<Rightarrow> creturn (Inl e, li)
        | Inr bn \<Rightarrow>
            cbind (with_block False (li_dev li) ind_bn (\<lambda>bg. bg_update bg (indirect_set i (Some bn)))) (\<lambda>_.
            creturn (Inr (Some bn), li))))"

definition get_or_alloc_indirect :: "bool \<Rightarrow> nat \<Rightarrow> locked_inode \<Rightarrow> ('z, block_no option inode_result) log_call" where
  "get_or_alloc_indirect ro i li =
     (case id_addrs (li_data li) ! NUM_DIRECT_REFS of
        Some ind_bn \<Rightarrow>
          cbind (with_block ro (li_dev li) ind_bn (\<lambda>bg. cbind (bg_bytes bg) (\<lambda>bs. clift (indirect_get bs i)))) (\<lambda>entry.
          case entry of
            Some bn \<Rightarrow> creturn (Inr (Some bn), li)
          | None \<Rightarrow> alloc_indirect_entry ro i ind_bn li)
      | None \<Rightarrow>
          if ro then creturn (Inr None, li)
          else cbind (data_block_alloc (li_dev li)) (\<lambda>r.
            case r of
              Inl e \<Rightarrow> creturn (Inl e, li)
            | Inr ind_bn \<Rightarrow> alloc_indirect_entry ro i ind_bn (set_addr NUM_DIRECT_REFS (Some ind_bn) li)))"

definition get_or_alloc :: "bool \<Rightarrow> nat \<Rightarrow> locked_inode \<Rightarrow> ('z, block_no option inode_result) log_call" where
  "get_or_alloc ro i li =
     (if i < NUM_DIRECT_REFS then get_or_alloc_direct ro i li
      else if i - NUM_DIRECT_REFS < NUM_INDIRECT_REFS then get_or_alloc_indirect ro (i - NUM_DIRECT_REFS) li
      else clift Panic)"

text \<open>The loop of \<^verbatim>\<open>read\<close>: \<open>tot\<close> of \<open>len\<close> bytes from \<open>off\<close> on are read; each round reads at most to the end of a block.\<close>

function content_read_loop :: "bool \<Rightarrow> nat \<Rightarrow> nat \<Rightarrow> nat \<Rightarrow> u8 list \<Rightarrow> locked_inode \<Rightarrow> ('z, u8 list inode_result) log_call" where
  "content_read_loop ro off len tot dst li =
     (if tot < len
      then
        let pos = off + tot; m = min (len - tot) (1024 - pos mod 1024) in
        cbind (get_or_alloc ro (pos div 1024) li) (\<lambda>(r, li).
        case r of
          Inl e \<Rightarrow> creturn (if 0 < tot then Inr dst else Inl e, li)
        | Inr None \<Rightarrow> creturn (Inr dst, li)
        | Inr (Some bn) \<Rightarrow>
            cbind (with_block ro (li_dev li) bn bg_bytes) (\<lambda>bs.
            content_read_loop ro off len (tot + m) (dst @ take m (drop (pos mod 1024) bs)) li))
      else creturn (Inr dst, li))"
  by pat_completeness auto
termination
  by (relation "measure (\<lambda>(ro, off, len, tot, dst, li). len - tot)") auto

definition inode_read :: "bool \<Rightarrow> nat \<Rightarrow> nat \<Rightarrow> locked_inode \<Rightarrow> ('z, u8 list inode_result) log_call" where
  "inode_read ro n off li =
     (let sz = unat (id_size (li_data li)) in
      if sz < off \<or> 2 ^ 64 \<le> off + n then creturn (Inr [], li)
      else content_read_loop ro off (min n (sz - off)) 0 [] li)"

text \<open>The loop of \<^verbatim>\<open>write\<close>, on the bytes of \<open>src\<close> that are left; it returns the number of bytes written.\<close>

function content_write_loop :: "nat \<Rightarrow> nat \<Rightarrow> u8 list \<Rightarrow> locked_inode \<Rightarrow> ('z, nat inode_result) log_call" where
  "content_write_loop off tot src li =
     (if tot < length src
      then
        let pos = off + tot; m = min (length src - tot) (1024 - pos mod 1024) in
        cbind (get_or_alloc False (pos div 1024) li) (\<lambda>(r, li).
        case r of
          Inl e \<Rightarrow> creturn (if 0 < tot then Inr tot else Inl e, li)
        | Inr None \<Rightarrow> clift Panic
        | Inr (Some bn) \<Rightarrow>
            cbind (with_block False (li_dev li) bn (\<lambda>bg.
              bg_update bg (\<lambda>bs. Ok (take (pos mod 1024) bs @ take m (drop tot src) @ drop (pos mod 1024 + m) bs)))) (\<lambda>_.
            content_write_loop off (tot + m) src li))
      else creturn (Inr tot, li))"
  by pat_completeness auto
termination
  by (relation "measure (\<lambda>(off, tot, src, li). length src - tot)") auto

definition inode_write :: "u8 list \<Rightarrow> nat \<Rightarrow> locked_inode \<Rightarrow> ('z, nat inode_result) log_call" where
  "inode_write src off li =
     (let sz = unat (id_size (li_data li)) in
      if 2 ^ 64 \<le> off + length src \<or> MAX_FILE * 1024 < off + length src then creturn (Inl FileTooLarge, li)
      else if sz < off then creturn (Inl WriteOffsetTooLarge, li)
      else
        cbind (content_write_loop off 0 src li) (\<lambda>(r, li).
        case r of
          Inl e \<Rightarrow> creturn (Inl e, li)
        | Inr tot \<Rightarrow>
            let li = (if sz < off + tot then li\<lparr>li_data := (li_data li)\<lparr>id_size := of_nat (off + tot)\<rparr>\<rparr> else li) in
            cbind (clift (require (sz < off + tot \<longrightarrow> off + tot < 2 ^ 32))) (\<lambda>_.
            cbind (inode_update li) (\<lambda>_. creturn (Inr tot, li)))))"

text \<open>Discards the content. The entries of the indirect block are taken out one by one while its guard is held.\<close>

definition free_ref :: "device_no \<Rightarrow> block_no option \<Rightarrow> ('z, unit) log_call" where
  "free_ref dev a = (case a of Some bn \<Rightarrow> data_block_free dev bn | None \<Rightarrow> creturn ())"

definition drain_entry :: "device_no \<Rightarrow> block_guard \<Rightarrow> nat \<Rightarrow> ('z, unit) log_call" where
  "drain_entry dev bg i =
     cbind (bg_bytes bg) (\<lambda>bs.
     cbind (bg_update bg (\<lambda>bs. Ok (u32_put i 0 bs))) (\<lambda>_.
     cbind (clift (indirect_get bs i)) (free_ref dev)))"

definition inode_truncate :: "locked_inode \<Rightarrow> ('z, locked_inode) log_call" where
  "inode_truncate li =
     (let dev = li_dev li; addrs = id_addrs (li_data li) in
      cbind (cforeach (free_ref dev) (take NUM_DIRECT_REFS addrs)) (\<lambda>_.
      cbind (case addrs ! NUM_DIRECT_REFS of
          None \<Rightarrow> creturn ()
        | Some bn \<Rightarrow>
            cbind (tx_get_block dev bn) (\<lambda>br.
            cbind (lock_read br) (\<lambda>bg.
            cbind (cforeach (drain_entry dev bg) [0..<NUM_INDIRECT_REFS]) (\<lambda>_.
            cbind (tx_guard_drop False bg) (\<lambda>_.
            cbind (data_block_free dev bn) (\<lambda>_. on_cache (ref_drop br))))))) (\<lambda>_.
      let li = li\<lparr>li_data := (li_data li)\<lparr>id_addrs := replicate (NUM_DIRECT_REFS + 1) None, id_size := 0\<rparr>\<rparr> in
      cbind (inode_update li) (\<lambda>_. creturn li))))"

definition inode_free :: "locked_inode \<Rightarrow> ('z, unit) log_call" where
  "inode_free li = inode_update (li\<lparr>li_data := (li_data li)\<lparr>id_ty := 0\<rparr>\<rparr>)"

text \<open>The loop of \<^verbatim>\<open>alloc_ino\<close>, which takes each block of inodes it looks at for writing.\<close>

primrec alloc_ino_loop :: "device_no \<Rightarrow> super_block \<Rightarrow> u16 \<Rightarrow> inode_no list \<Rightarrow> ('z, kernel_error + inode_no) log_call" where
  "alloc_ino_loop dev sb ty [] = creturn (Inl StorageOutOfInodes)"
| "alloc_ino_loop dev sb ty (ino # inos) =
     cbind (with_block False dev (inode_block sb ino) (\<lambda>bg.
       cbind (bg_bytes bg) (\<lambda>bs.
       let r = block_inode bs ino in
       cbind (bg_update bg (\<lambda>bs.
         if inode_is_free r then obind (inode_allocate ty r) (\<lambda>r. Ok (block_put_inode ino r bs)) else Ok bs)) (\<lambda>_.
       creturn (inode_is_free r))))) (\<lambda>free.
     if free then creturn (Inr ino) else alloc_ino_loop dev sb ty inos)"

definition alloc_ino :: "device_no \<Rightarrow> u16 \<Rightarrow> ('z, kernel_error + inode_no) log_call" where
  "alloc_ino dev ty = cbind (cread fs_sb) (\<lambda>sb. alloc_ino_loop dev sb ty (map of_nat [1..<unat (sb_ninodes sb)]))"

declare content_read_loop.simps [simp del] content_write_loop.simps [simp del]

section \<open>Steps of a transaction\<close>

text \<open>
  A state \<open>s\<close> of a transaction that began its operation at \<open>s0\<close>: the blocks read as \<open>m\<close>, the references \<open>held\<close> to logged blocks are held, none of them
  locked, and \<open>n\<close> more blocks fit into the log and, besides those held, into the cache.
\<close>

definition in_tx :: "'z log_fs_scheme \<Rightarrow> usize lru_value multiset \<Rightarrow> nat \<Rightarrow> (usize \<Rightarrow> u8 list) \<Rightarrow> 'z log_fs_scheme \<Rightarrow> bool" where
  "in_tx s0 held n m s \<longleftrightarrow>
     fs_sb s = fs_sb s0 \<and> bio_device (fs_cache s) = bio_device (fs_cache s0) \<and> log_fs.more s = log_fs.more s0 \<and>
     ld_outstanding (fs_log s) = ld_outstanding (fs_log s0) \<and> 0 < ld_outstanding (fs_log s0) \<and> cview (fs_cache s) = m \<and>
     (\<exists>h. (\<forall>v \<in># held. \<not> is_locked (fs_cache s) (lv_arc v) \<and> lv_key v \<in> logged (lh_blocks h)) \<and>
       logged (lh_blocks h) \<inter> log_area (fs_sb s0) 30 = {} \<and>
       ld_header (fs_log s) = Some h \<and> lh_dev h = ROOT_DEV \<and> pinned held (lh_blocks h) (fs_cache s) \<and>
       length (lh_blocks h) + n < max_log_len (fs_sb s0) \<and> length (lh_blocks h) + n \<le> 27 \<and> size held \<le> 2)"

lemma in_txD:
  assumes "in_tx s0 held n m s"
  obtains h where "ld_header (fs_log s) = Some h" "lh_dev h = ROOT_DEV" "pinned held (lh_blocks h) (fs_cache s)"
    "length (lh_blocks h) + n < max_log_len (fs_sb s0)" "length (lh_blocks h) + n \<le> 27 \<and> size held \<le> 2"
    "fs_sb s = fs_sb s0" "bio_device (fs_cache s) = bio_device (fs_cache s0)" "log_fs.more s = log_fs.more s0"
    "ld_outstanding (fs_log s) = ld_outstanding (fs_log s0)" "0 < ld_outstanding (fs_log s0)" "cview (fs_cache s) = m"
    "\<forall>v \<in># held. \<not> is_locked (fs_cache s) (lv_arc v) \<and> lv_key v \<in> logged (lh_blocks h)"
    "logged (lh_blocks h) \<inter> log_area (fs_sb s0) 30 = {}"
  using assms unfolding in_tx_def by blast

lemma in_txI:
  assumes "pinned held (lh_blocks h) c" "lh_dev h = ROOT_DEV" "length (lh_blocks h) + n < max_log_len (fs_sb s0)"
    "length (lh_blocks h) + n \<le> 27 \<and> size held \<le> 2" "fs_sb s = fs_sb s0" "bio_device c = bio_device (fs_cache s0)" "log_fs.more s = log_fs.more s0"
    "ld_outstanding (fs_log s) = ld_outstanding (fs_log s0)" "0 < ld_outstanding (fs_log s0)" "cview c = m" "\<forall>v \<in># held. \<not> is_locked c (lv_arc v) \<and> lv_key v \<in> logged (lh_blocks h)"
    "logged (lh_blocks h) \<inter> log_area (fs_sb s0) 30 = {}"
  shows "in_tx s0 held n m (s\<lparr>fs_cache := c, fs_log := (fs_log s)\<lparr>ld_header := Some h\<rparr>\<rparr>)"
  using assms unfolding in_tx_def by auto

lemma in_tx_weaken: "in_tx s0 held n m s \<Longrightarrow> n' \<le> n \<Longrightarrow> in_tx s0 held n' m s"
  unfolding in_tx_def by auto

lemma cview_length: "pinned held brs c \<Longrightarrow> length (cview c j) = 1024"
  using cache_okD(3) [OF pinnedD(1)] by (auto simp: bview_def disk_block_def split: option.split)

lemma in_tx_length: "in_tx s0 held n m s \<Longrightarrow> length (m j) = 1024"
  using cview_length by (fastforce elim: in_txD)

lemma keys_size: "card (keys_of held) \<le> size held"
  by (induction held) (auto simp: card_insert_if)

lemma tx_room:
  assumes "pinned held brs c" "length brs + size held \<le> 29"
  shows "has_room held brs k"
proof -
  have "card (keys_of held \<union> logged brs) \<le> card (keys_of held) + card (logged brs)"
    by (rule card_Un_le)
  also have "\<dots> \<le> size held + length brs"
    using keys_size [of held] logged_card [of brs] by simp
  finally show ?thesis
    using assms(2) by (simp add: has_room_def)
qed

text \<open>A body of a scope leaves the state as it is, or changes the block of its guard.\<close>

definition reads_block :: "(usize \<Rightarrow> u8 list) \<Rightarrow> usize \<Rightarrow> (block_guard \<Rightarrow> ('z, 'a) log_call) \<Rightarrow> 'a \<Rightarrow> bool" where
  "reads_block m k body x \<longleftrightarrow> (\<forall>held brs s v. loaded held brs (fs_cache s) \<lparr>bg_index = k, bg_block = v\<rparr> \<longrightarrow> cview (fs_cache s) = m \<longrightarrow>
     body \<lparr>bg_index = k, bg_block = v\<rparr> s = (Ok x, s))"

lemma with_block_read_wp:
  assumes t: "in_tx s0 held n m s" and k: "as_index bn = k" "k \<notin> keys_of held" and body: "reads_block m k body x"
    and Q: "\<And>s'. in_tx s0 held n m s' \<Longrightarrow> Q x s'"
  shows "cwp (with_block ro ROOT_DEV bn body) Q s"
proof -
  obtain h where h: "ld_header (fs_log s) = Some h" "lh_dev h = ROOT_DEV" "pinned held (lh_blocks h) (fs_cache s)"
    "length (lh_blocks h) + n < max_log_len (fs_sb s0)" "length (lh_blocks h) + n \<le> 27 \<and> size held \<le> 2"
    "fs_sb s = fs_sb s0" "bio_device (fs_cache s) = bio_device (fs_cache s0)" "log_fs.more s = log_fs.more s0"
    "ld_outstanding (fs_log s) = ld_outstanding (fs_log s0)" "0 < ld_outstanding (fs_log s0)" "cview (fs_cache s) = m"
    "\<forall>v \<in># held. \<not> is_locked (fs_cache s) (lv_arc v) \<and> lv_key v \<in> logged (lh_blocks h)"
    "logged (lh_blocks h) \<inter> log_area (fs_sb s0) 30 = {}"
    using in_txD [OF t] .
  have room: "has_room held (lh_blocks h) k"
    using h(3,5) by (intro tx_room) auto
  show ?thesis
    unfolding with_block_def cwp_bind
  proof (rule tx_open_wp [OF h(3) k room], goal_cases)
    case (1 v c1)
    note l = 1
    let ?g = "\<lparr>bg_index = k, bg_block = v\<rparr>" and ?s = "s\<lparr>fs_cache := c1\<rparr>"
    have b: "body ?g ?s = (Ok x, ?s)"
      using body l(1,3) h(11) unfolding reads_block_def by auto
    show ?case
    proof (rule cwp_eqI [of "body ?g" ?s x ?s, OF b], rule tx_close_wp [where held = held and h = h], goal_cases)
      case (5 c2 h2)
      have lg: "logged (lh_blocks h2) = logged (lh_blocks h)"
        using 5(3) l(6) by auto
      have len: "length (lh_blocks h2) = length (lh_blocks h)"
        using pinned_length [OF 5(1)] pinned_length [OF h(3)] lg by simp
      have "is_locked c2 = is_locked (fs_cache s)"
        using 5(7) l(7,8) by (simp add: fun_upd_idem_iff)
      then have "in_tx s0 held n m (s\<lparr>fs_cache := c2, fs_log := (fs_log s)\<lparr>ld_header := Some h2\<rparr>\<rparr>)"
        using 5 l(3,4) h len lg by (intro in_txI) simp_all
      then show ?case
        unfolding cwp_simps by (intro Q) simp
    qed (use l h in auto)
  qed
qed

definition writes_block :: "(usize \<Rightarrow> u8 list) \<Rightarrow> usize \<Rightarrow> (block_guard \<Rightarrow> ('z, 'a) log_call) \<Rightarrow> 'a \<Rightarrow> u8 list \<Rightarrow> bool" where
  "writes_block m k body x bs \<longleftrightarrow> (\<forall>held brs s v. loaded held brs (fs_cache s) \<lparr>bg_index = k, bg_block = v\<rparr> \<longrightarrow> cview (fs_cache s) = m \<longrightarrow>
     cwp (body \<lparr>bg_index = k, bg_block = v\<rparr>) (\<lambda>y s'. y = x \<and> (\<exists>c. s' = s\<lparr>fs_cache := c\<rparr> \<and> loaded held brs c \<lparr>bg_index = k, bg_block = v\<rparr> \<and>
       cview c = m(k := bs) \<and> bio_device c = bio_device (fs_cache s) \<and> kept (lv_arc v) (fs_cache s) c \<and>
       bd_dirty (block_of c (lv_arc v)) \<and> is_locked c = is_locked (fs_cache s))) s)"

lemma reads_block_bytes: "reads_block m k bg_bytes (m k)"
  unfolding reads_block_def
proof (intro allI impI)
  fix held :: "usize lru_value multiset" and brs and s :: "'z log_fs_scheme" and v
  assume l: "loaded held brs (fs_cache s) \<lparr>bg_index = k, bg_block = v\<rparr>" and m: "cview (fs_cache s) = m"
  have "cwp (bg_bytes \<lparr>bg_index = k, bg_block = v\<rparr>) (\<lambda>x s'. x = m k \<and> s' = s) s"
    by (rule bg_bytes_wp [OF l]) (simp add: m)
  then show "bg_bytes \<lparr>bg_index = k, bg_block = v\<rparr> s = (Ok (m k), s)"
    by (auto simp: cwp_def)
qed

lemma reads_blockD:
  "reads_block m k body x \<Longrightarrow> loaded held brs (fs_cache s) \<lparr>bg_index = k, bg_block = v\<rparr> \<Longrightarrow> cview (fs_cache s) = m \<Longrightarrow>
   body \<lparr>bg_index = k, bg_block = v\<rparr> s = (Ok x, s)"
  unfolding reads_block_def by blast

lemma reads_block_bind:
  assumes "reads_block m k r y" "\<And>s. f y s = (Ok x, s)"
  shows "reads_block m k (\<lambda>bg. cbind (r bg) f) x"
  unfolding reads_block_def
proof (intro allI impI, goal_cases)
  case (1 held brs s v)
  show ?case
    using reads_blockD [OF assms(1) 1] assms(2) by (simp add: cbind_def)
qed

lemma reads_block_lift: "f (m k) = Ok x \<Longrightarrow> reads_block m k (\<lambda>bg. cbind (bg_bytes bg) (\<lambda>bs. clift (f bs))) x"
  by (rule reads_block_bind [OF reads_block_bytes]) (simp add: clift_def)

lemma reads_block_return: "reads_block m k (\<lambda>bg. cbind (bg_bytes bg) (\<lambda>bs. creturn (g bs))) (g (m k))"
  by (rule reads_block_bind [OF reads_block_bytes]) (simp add: creturn_def)

lemma writes_block_wp:
  assumes "writes_block m k body x bs" "loaded held brs (fs_cache s) \<lparr>bg_index = k, bg_block = v\<rparr>" "cview (fs_cache s) = m"
    and "\<And>c. loaded held brs c \<lparr>bg_index = k, bg_block = v\<rparr> \<Longrightarrow> cview c = m(k := bs) \<Longrightarrow> bio_device c = bio_device (fs_cache s) \<Longrightarrow>
      kept (lv_arc v) (fs_cache s) c \<Longrightarrow> bd_dirty (block_of c (lv_arc v)) \<Longrightarrow> is_locked c = is_locked (fs_cache s) \<Longrightarrow> Q x (s\<lparr>fs_cache := c\<rparr>)"
  shows "cwp (body \<lparr>bg_index = k, bg_block = v\<rparr>) Q s"
proof -
  have "cwp (body \<lparr>bg_index = k, bg_block = v\<rparr>) (\<lambda>y s'. y = x \<and> (\<exists>c. s' = s\<lparr>fs_cache := c\<rparr> \<and> loaded held brs c \<lparr>bg_index = k, bg_block = v\<rparr> \<and>
       cview c = m(k := bs) \<and> bio_device c = bio_device (fs_cache s) \<and> kept (lv_arc v) (fs_cache s) c \<and>
       bd_dirty (block_of c (lv_arc v)) \<and> is_locked c = is_locked (fs_cache s))) s"
    using assms(1-3) unfolding writes_block_def by blast
  then show ?thesis
    by (rule cwp_mono) (use assms(4) in blast)
qed

lemma writes_block_update:
  assumes "f (m k) = Ok bs" "length bs = 1024"
  shows "writes_block m k (\<lambda>bg. bg_update bg f) () bs"
  unfolding writes_block_def
proof (intro allI impI, goal_cases)
  case (1 held brs s v)
  show ?case
    by (rule bg_update_wp [OF 1(1), of f bs]) (use 1(2) assms in \<open>auto\<close>)
qed

lemma writes_block_after_read:
  assumes "reads_block m k r y" "writes_block m k (w y) x bs"
  shows "writes_block m k (\<lambda>bg. cbind (r bg) (\<lambda>y. w y bg)) x bs"
  unfolding writes_block_def cwp_bind
proof (intro allI impI, goal_cases)
  case (1 held brs s v)
  let ?g = "\<lparr>bg_index = k, bg_block = v\<rparr>"
  show ?case
    by (rule cwp_eqI [of "r ?g" s y s, OF reads_blockD [OF assms(1) 1]]) (use assms(2) 1 in \<open>unfold writes_block_def, blast\<close>)
qed

lemma writes_block_return: "writes_block m k w x bs \<Longrightarrow> writes_block m k (\<lambda>bg. cbind (w bg) (\<lambda>_. creturn y)) y bs"
  unfolding writes_block_def cwp_bind cwp_simps by (fast elim: cwp_mono)

text \<open>A block is opened, written and its guard dropped, while the reference is held on.\<close>

lemma in_tx_close:
  assumes t: "in_tx s0 held (Suc n) m s" and p: "pinned held (lh_blocks h2) c2" "logged (lh_blocks h2) = insert k (logged (lh_blocks h))"
      "lh_dev h2 = ROOT_DEV" "bio_device c2 = bio_device (fs_cache s)" "is_locked c2 = is_locked (fs_cache s)" "cview c2 = m'"
    and h: "ld_header (fs_log s) = Some h" and k: "k \<notin> log_area (fs_sb s0) 30"
  shows "in_tx s0 held n m' (s\<lparr>fs_cache := c2, fs_log := (fs_log s)\<lparr>ld_header := Some h2\<rparr>\<rparr>)"
  using t
proof (rule in_txD, goal_cases)
  case (1 h')
  then have h': "h' = h"
    using h by simp
  have "length (lh_blocks h2) \<le> Suc (length (lh_blocks h))"
    using pinned_length [OF p(1)] pinned_length [OF 1(3)] p(2) by (simp add: h' card_insert_if)
  then show ?case
    using p 1 k by (intro in_txI) (auto simp: h')
qed

lemma with_block_write_wp:
  assumes t: "in_tx s0 held (Suc n) m s" and k: "as_index bn = k" "k \<notin> keys_of held" and area: "k \<notin> log_area (fs_sb s0) 30" and body: "writes_block m k body x bs"
    and Q: "\<And>s'. in_tx s0 held n (m(k := bs)) s' \<Longrightarrow> Q x s'"
  shows "cwp (with_block False ROOT_DEV bn body) Q s"
  using t
proof (rule in_txD, goal_cases)
  case (1 h)
  note h = 1
  have room: "has_room held (lh_blocks h) k"
    using h(3,5) by (intro tx_room) auto
  show ?case
    unfolding with_block_def cwp_bind
  proof (rule tx_open_wp [OF h(3) k room], goal_cases)
    case (1 v c1)
    note l = 1
    let ?g = "\<lparr>bg_index = k, bg_block = v\<rparr>" and ?s = "s\<lparr>fs_cache := c1\<rparr>"
    show ?case
    proof (rule writes_block_wp [OF body, where held = "add_mset v (add_mset v held)" and brs = "lh_blocks h"], goal_cases)
      case (3 c2)
      note w = 3
      show ?case
      proof (rule tx_close_wp [where held = held and h = h], goal_cases)
        case (5 c3 h3)
        have "is_locked c3 = is_locked (fs_cache s)"
          using 5(7) l(7,8) w(6) by (simp add: fun_upd_idem_iff)
        then have "in_tx s0 held n (m(k := bs)) (s\<lparr>fs_cache := c3, fs_log := (fs_log s)\<lparr>ld_header := Some h3\<rparr>\<rparr>)"
          using 5 w l h area by (intro in_tx_close [OF t]) auto
        then show ?case
          unfolding cwp_simps by (intro Q) simp
      qed (use w h in auto)
    qed (use l h in auto)
  qed
qed

lemma block_zero_wp:
  assumes t: "in_tx s0 held (Suc n) m s" and k: "as_index bn = k" "k \<notin> keys_of held" and area: "k \<notin> log_area (fs_sb s0) 30"
    and Q: "\<And>s'. in_tx s0 held n (m(k := replicate 1024 0)) s' \<Longrightarrow> Q () s'"
  shows "cwp (block_zero ROOT_DEV bn) Q s"
  using t
proof (rule in_txD, goal_cases)
  case (1 h)
  note h = 1
  have room: "has_room held (lh_blocks h) k"
    using h(3,5) by (intro tx_room) auto
  show ?case
    unfolding block_zero_def lock_zeroed_def tx_get_block_def cwp_bind k(1)
  proof (rule open_wp [OF h(3) _ k(2) room], goal_cases)
    case 1
    show ?case
      using as_index_range [of bn] k(1) by simp
  next
    case (2 v c1)
    note l = 2
    show ?case
    proof (rule guard_zeroed_wp [where held = "add_mset v (add_mset v held)" and brs = "lh_blocks h"], goal_cases)
      case (2 c2)
      note z = 2
      show ?case
      proof (rule tx_close_wp [where held = held and h = h], goal_cases)
        case (5 c3 h3)
        have "is_locked c3 = is_locked (fs_cache s)"
          using 5(7) l(5,6) z(4) by (simp add: fun_upd_idem_iff)
        then have "in_tx s0 held n (m(k := replicate 1024 0)) (s\<lparr>fs_cache := c3, fs_log := (fs_log s)\<lparr>ld_header := Some h3\<rparr>\<rparr>)"
          using 5 z l h area by (intro in_tx_close [OF t]) auto
        then show ?case
          by (intro Q) simp
      qed (use z h in auto)
    qed (use l in auto)
  qed
qed

text \<open>A reference to a logged block is dropped.\<close>

lemma ref_drop_in_tx_wp:
  assumes t: "in_tx s0 (add_mset v held) n m s" and Q: "\<And>s'. in_tx s0 held n m s' \<Longrightarrow> Q () s'"
  shows "cwp (on_cache (ref_drop \<lparr>br_index = lv_key v, br_block = v\<rparr>)) Q s"
  using t
proof (rule in_txD, goal_cases)
  case (1 h)
  note h = 1
  have e: "has_entry (fs_cache s) (lv_key v) (lv_arc v)"
    using pinned_entry(1) [OF h(3)] by simp
  show ?case
  proof (rule ref_drop_wp [where held = held and brs = "lh_blocks h"], goal_cases)
    case 3
    then show ?case
      using pinnedD(5) [OF h(3) e] h(12) by (auto simp: entry_ok_def)
  next
    case (4 c)
    have "in_tx s0 held n m (s\<lparr>fs_cache := c, fs_log := (fs_log s)\<lparr>ld_header := Some h\<rparr>\<rparr>)"
      using 4 h by (intro in_txI) auto
    moreover have "(fs_log s)\<lparr>ld_header := Some h\<rparr> = fs_log s"
      using h(1) by simp
    ultimately show ?case
      by (intro Q) simp
  qed (use h in auto)
qed

section \<open>The bitmap\<close>

definition bmap_bit :: "u8 list \<Rightarrow> nat \<Rightarrow> bool" where
  "bmap_bit bs i \<longleftrightarrow> bit (bs ! (i div 8)) (i mod 8)"

definition bmap_set :: "nat \<Rightarrow> u8 list \<Rightarrow> u8 list" where
  "bmap_set i bs = bs[i div 8 := bs ! (i div 8) OR push_bit (i mod 8) 1]"

lemma and_push_bit: "w AND push_bit k 1 \<noteq> 0 \<longleftrightarrow> bit w k" for w :: u8
  by (simp add: push_bit_eq_mult and_exp_eq_0_iff_not_bit)

lemma bmap_is_allocated_eq: "i < 8192 \<Longrightarrow> bmap_is_allocated bs i = Ok (bmap_bit bs i)"
  unfolding bmap_is_allocated_def bmap_bit_def and_push_bit by (simp add: BITS_PER_BLOCK_def)

lemma bmap_allocate_eq: "i < 8192 \<Longrightarrow> bmap_allocate i bs = Ok (bmap_set i bs)"
  by (simp add: bmap_allocate_def bmap_set_def BITS_PER_BLOCK_def)

lemma bmap_set_length [simp]: "length (bmap_set i bs) = length bs"
  by (simp add: bmap_set_def)

lemma nat_div_mod_eq: "a div d = b div d \<Longrightarrow> a mod d = b mod d \<Longrightarrow> a = b" for a b d :: nat
  by (metis div_mult_mod_eq)

lemma bmap_bit_set:
  assumes "length bs = 1024" "i < 8192"
  shows "bmap_bit (bmap_set i bs) j \<longleftrightarrow> j = i \<or> bmap_bit bs j"
proof -
  have "i div 8 < length bs"
    using assms by simp
  moreover have "i mod 8 < 8"
    by simp
  ultimately show ?thesis
    by (cases "j div 8 = i div 8") (auto simp: bmap_bit_def bmap_set_def bit_or_iff bit_exp_iff nth_list_update
        intro: nat_div_mod_eq)
qed

text \<open>The blocks that the bitmap has as allocated.\<close>

definition allocated :: "super_block \<Rightarrow> (usize \<Rightarrow> u8 list) \<Rightarrow> block_no \<Rightarrow> bool" where
  "allocated sb m b \<longleftrightarrow> bmap_bit (m (as_index (bmap_block sb b))) (unat b mod 8192)"

definition in_size :: "super_block \<Rightarrow> block_no \<Rightarrow> bool" where
  "in_size sb b \<longleftrightarrow> unat b < unat (sb_size sb)"

text \<open>The bitmap lies on the disk and outside of the log; block 0, the bitmap and the log are marked as allocated.\<close>

definition bitmap_marked :: "super_block \<Rightarrow> (usize \<Rightarrow> u8 list) \<Rightarrow> bool" where
  "bitmap_marked sb m \<longleftrightarrow> in_size sb 0 \<and> allocated sb m 0 \<and>
     (\<forall>b. in_size sb b \<longrightarrow> in_size sb (bmap_block sb b) \<and> allocated sb m (bmap_block sb b) \<and> as_index (bmap_block sb b) \<notin> log_area sb 30) \<and>
     (\<forall>b. as_index b \<in> log_area sb 30 \<longrightarrow> in_size sb b \<and> allocated sb m b)"

lemma bitmap_markedD:
  assumes "bitmap_marked sb m"
  shows "in_size sb 0" "allocated sb m 0" "in_size sb b \<Longrightarrow> in_size sb (bmap_block sb b)" "in_size sb b \<Longrightarrow> allocated sb m (bmap_block sb b)"
    "in_size sb b \<Longrightarrow> as_index (bmap_block sb b) \<notin> log_area sb 30" "as_index b \<in> log_area sb 30 \<Longrightarrow> in_size sb b"
    "as_index b \<in> log_area sb 30 \<Longrightarrow> allocated sb m b"
  using assms unfolding bitmap_marked_def by blast+

text \<open>The blocks after the allocation of \<open>b\<close>.\<close>

definition alloc_view :: "super_block \<Rightarrow> block_no \<Rightarrow> (usize \<Rightarrow> u8 list) \<Rightarrow> usize \<Rightarrow> u8 list" where
  "alloc_view sb b m = (let k = as_index (bmap_block sb b) in m(k := bmap_set (unat b mod 8192) (m k), as_index b := replicate 1024 0))"

lemma bmap_block_eq: "bmap_block sb b = bmap_block sb b' \<longleftrightarrow> unat b div 8192 = unat b' div 8192"
  unfolding bmap_block_def BITS_PER_BLOCK_def add_left_cancel word_unat_eq_iff [of "b div 8192"] by (simp add: unat_div)

lemma alloc_view_allocated:
  assumes m: "\<And>j. length (m j) = 1024" and ok: "bitmap_marked sb m" and b: "\<not> allocated sb m b" and b': "in_size sb b'"
  shows "allocated sb (alloc_view sb b m) b' \<longleftrightarrow> b' = b \<or> allocated sb m b'"
proof -
  have "as_index b \<noteq> as_index (bmap_block sb b')"
    using ok b b' unfolding bitmap_marked_def by auto
  moreover have "b' = b" if "unat b' div 8192 = unat b div 8192" "unat b' mod 8192 = unat b mod 8192"
    using nat_div_mod_eq [OF that] by (simp add: word_unat_eq_iff)
  ultimately show ?thesis
    using m bmap_block_eq [of sb b' b] by (auto simp: allocated_def alloc_view_def Let_def bmap_bit_set)
qed

lemma bitmap_marked_alloc:
  assumes "\<And>j. length (m j) = 1024" "bitmap_marked sb m" "\<not> allocated sb m b"
  shows "bitmap_marked sb (alloc_view sb b m)"
  using assms(2) unfolding bitmap_marked_def by (simp add: alloc_view_allocated [OF assms])

lemma alloc_view_length: "(\<And>j. length (m j) = 1024) \<Longrightarrow> length (alloc_view sb b m j) = 1024"
  by (simp add: alloc_view_def Let_def)

lemma find_free_result:
  assumes "\<forall>i \<in> set is. i < 8192" "sorted is" "\<forall>i < 8192. unat (bn0 + of_nat i) = unat bn0 + i"
  shows "\<exists>r. find_free sz bn0 bs is = Ok r \<and> (case r of
    None \<Rightarrow> \<forall>i \<in> set is. bn0 + of_nat i < sz \<longrightarrow> bmap_bit bs i
  | Some i \<Rightarrow> i < 8192 \<and> bn0 + of_nat i < sz \<and> \<not> bmap_bit bs i)"
  using assms
proof (induction "is")
  case (Cons i "is")
  then obtain r where r: "find_free sz bn0 bs is = Ok r" "case r of
    None \<Rightarrow> \<forall>i \<in> set is. bn0 + of_nat i < sz \<longrightarrow> bmap_bit bs i
  | Some i \<Rightarrow> i < 8192 \<and> bn0 + of_nat i < sz \<and> \<not> bmap_bit bs i"
    by auto
  have "\<not> bn0 + of_nat j < sz" if "\<not> bn0 + of_nat i < sz" "j \<in> set is" for j
    using that Cons.prems by (auto simp: word_less_nat_alt)
  then show ?case
    using Cons.prems(1) r by (cases "bn0 + of_nat i < sz"; cases "bmap_bit bs i") (auto simp: bmap_is_allocated_eq split: option.splits)
qed simp

lemma start_block:
  assumes "unat bn0 mod 8192 = 0" "i < 8192"
  shows "unat (bn0 + of_nat i) = unat bn0 + i" "bmap_block sb (bn0 + of_nat i) = bmap_block sb bn0" "unat (bn0 + of_nat i) mod 8192 = i"
proof -
  obtain q where q: "unat bn0 = 8192 * q"
    using assms(1) by auto
  have "unat bn0 < 2 ^ 32"
    using unat_lt_width [of bn0] by simp
  then have "unat bn0 + i < 2 ^ 32"
    using q assms(2) by simp
  then show u: "unat (bn0 + of_nat i) = unat bn0 + i"
    using assms(2) by (simp add: unat_word_ariths unat_of_nat)
  show "unat (bn0 + of_nat i) mod 8192 = i"
    using u q assms(2) by simp
  show "bmap_block sb (bn0 + of_nat i) = bmap_block sb bn0"
    using u q assms(2) by (simp add: bmap_block_eq)
qed

text \<open>The end of a scope that did not change its block.\<close>

lemma close_read_wp:
  assumes t: "in_tx s0 held n m s" and h: "ld_header (fs_log s) = Some h"
    and l: "loaded (add_mset v (add_mset v held)) (lh_blocks h) c1 \<lparr>bg_index = k, bg_block = v\<rparr>" "cview c1 = m"
      "bio_device c1 = bio_device (fs_cache s)" "bd_dirty (block_of c1 (lv_arc v)) \<longrightarrow> k \<in> logged (lh_blocks h)"
      "is_locked c1 = (is_locked (fs_cache s))(lv_arc v := True)" "\<not> is_locked (fs_cache s) (lv_arc v)"
    and Q: "\<And>s'. in_tx s0 held n m s' \<Longrightarrow> Q () s'"
  shows "cwp (tx_guard_drop ro \<lparr>bg_index = k, bg_block = v\<rparr>) (\<lambda>_. cwp (on_cache (ref_drop \<lparr>br_index = k, br_block = v\<rparr>)) Q) (s\<lparr>fs_cache := c1\<rparr>)"
  using t
proof (rule in_txD, goal_cases)
  case (1 h')
  note t = 1
  have h': "h' = h"
    using t(1) h by simp
  show ?case
  proof (rule tx_close_wp [where held = held and h = h], goal_cases)
    case (5 c2 h2)
    have lg: "logged (lh_blocks h2) = logged (lh_blocks h)"
      using 5(3) l(4) by auto
    have len: "length (lh_blocks h2) = length (lh_blocks h)"
      using pinned_length [OF 5(1)] pinned_length [OF t(3)] lg by (simp add: h')
    have "is_locked c2 = is_locked (fs_cache s)"
      using 5(7) l(5,6) by (simp add: fun_upd_idem_iff)
    then have "in_tx s0 held n m (s\<lparr>fs_cache := c2, fs_log := (fs_log s)\<lparr>ld_header := Some h2\<rparr>\<rparr>)"
      using 5 l(2,3) t len lg by (intro in_txI) (simp_all add: h')
    then show ?case
      by (intro Q) simp
  qed (use l t in \<open>auto simp: h'\<close>)
qed

text \<open>The end of the round of \<^verbatim>\<open>alloc\<close> that found a free block: the bitmap is written, its guard dropped and the new block zeroed.\<close>

lemma take_block_wp:
  assumes t: "in_tx s0 {#} (Suc (Suc n)) m s" and h: "ld_header (fs_log s) = Some h"
    and l: "loaded {#v, v#} (lh_blocks h) c1 \<lparr>bg_index = k, bg_block = v\<rparr>" "cview c1 = m" "bio_device c1 = bio_device (fs_cache s)"
      "is_locked c1 = (is_locked (fs_cache s))(lv_arc v := True)" "\<not> is_locked (fs_cache s) (lv_arc v)"
    and k: "lv_key v = k" "as_index b \<noteq> k" "i < 8192" "as_index b \<notin> log_area (fs_sb s0) 30" "k \<notin> log_area (fs_sb s0) 30"
    and Q: "\<And>s'. in_tx s0 {#} n (m(k := bmap_set i (m k), as_index b := replicate 1024 0)) s' \<Longrightarrow> Q () s'"
  shows "cwp (bg_update \<lparr>bg_index = k, bg_block = v\<rparr> (bmap_allocate i)) (\<lambda>_. cwp (tx_guard_drop False \<lparr>bg_index = k, bg_block = v\<rparr>)
    (\<lambda>_. cwp (block_zero ROOT_DEV b) (\<lambda>_. cwp (on_cache (ref_drop \<lparr>br_index = k, br_block = v\<rparr>)) Q))) (s\<lparr>fs_cache := c1\<rparr>)"
  using t
proof (rule in_txD, goal_cases)
  case (1 h')
  note t = 1
  have h': "h' = h"
    using t(1) h by simp
  let ?m = "m(k := bmap_set i (m k))"
  have l1: "loaded {#v, v#} (lh_blocks h) (fs_cache (s\<lparr>fs_cache := c1\<rparr>)) \<lparr>bg_index = k, bg_block = v\<rparr>"
    using l(1) by simp
  show ?case
  proof (rule bg_update_wp [OF l1, where bs = "bmap_set i (m k)"], goal_cases)
    case (3 c2)
    note u = 3
    show ?case
    proof (rule tx_guard_drop_wp [where held = "{#}" and h = h], goal_cases)
      case (5 c3 h3)
      note d = 5
      have "length (lh_blocks h3) \<le> Suc (length (lh_blocks h))"
        using pinned_length [OF d(1)] pinned_length [OF t(3)] d(3) by (simp add: h' card_insert_if split: if_splits)
      then have "in_tx s0 {#v#} (Suc n) ?m (s\<lparr>fs_cache := c3, fs_log := (fs_log s)\<lparr>ld_header := Some h3\<rparr>\<rparr>)"
        using d u l t k by (intro in_txI) (auto simp: h')
      then have z: "cwp (block_zero ROOT_DEV b) (\<lambda>_. cwp (on_cache (ref_drop \<lparr>br_index = lv_key v, br_block = v\<rparr>)) Q)
          (s\<lparr>fs_cache := c3, fs_log := (fs_log s)\<lparr>ld_header := Some h3\<rparr>\<rparr>)"
        by (rule block_zero_wp [OF _ refl]) (use k Q in \<open>auto intro!: ref_drop_in_tx_wp\<close>)
      then show ?case
        by (simp add: k(1))
    qed (use u t l in \<open>auto simp: h'\<close>)
  qed (use l(2) k(3) bmap_allocate_eq in_tx_length [OF assms(1)] in auto)
qed

lemma alloc_loop_wp:
  assumes t: "in_tx s0 {#} (Suc (Suc n)) m s" and sb: "sb = fs_sb s0" and ok: "bitmap_marked sb m"
    and starts: "\<forall>bn0 \<in> set bns. unat bn0 mod 8192 = 0"
    and none: "\<And>s'. in_tx s0 {#} (Suc (Suc n)) m s' \<Longrightarrow>
      (\<forall>bn0 \<in> set bns. \<forall>i < 8192. in_size sb (bn0 + of_nat i) \<longrightarrow> allocated sb m (bn0 + of_nat i)) \<Longrightarrow> Q (Inl StorageOutOfBlocks) s'"
    and some: "\<And>b s'. in_size sb b \<Longrightarrow> \<not> allocated sb m b \<Longrightarrow> in_tx s0 {#} n (alloc_view sb b m) s' \<Longrightarrow> Q (Inr b) s'"
  shows "cwp (alloc_loop ROOT_DEV sb bns) Q s"
  using t starts none
proof (induction bns arbitrary: s)
  case Nil
  then show ?case
    by (simp add: cwp_def creturn_def)
next
  case (Cons bn0 bns)
  let ?k = "as_index (bmap_block sb bn0)"
  have u: "\<forall>i<8192. unat (bn0 + of_nat i) = unat bn0 + i"
    using Cons.prems(2) by (auto simp: start_block)
  obtain r where r: "find_free (sb_size sb) bn0 (m ?k) [0..<unat BITS_PER_BLOCK] = Ok r" "case r of
      None \<Rightarrow> \<forall>i < 8192. bn0 + of_nat i < sb_size sb \<longrightarrow> bmap_bit (m ?k) i
    | Some i \<Rightarrow> i < 8192 \<and> bn0 + of_nat i < sb_size sb \<and> \<not> bmap_bit (m ?k) i"
    using find_free_result [OF _ _ u, of "[0..<8192]" "sb_size sb" "m ?k"] by (auto simp: BITS_PER_BLOCK_def split: option.splits)
  have al: "allocated sb m (bn0 + of_nat i) \<longleftrightarrow> bmap_bit (m ?k) i" if "i < 8192" for i
    using start_block(2,3) [OF _ that, of bn0] Cons.prems(2) by (simp add: allocated_def)
  from Cons.prems(1) show ?case
  proof (rule in_txD, goal_cases)
    case (1 h)
    note h = 1
    have room: "has_room {#} (lh_blocks h) ?k"
      using h(3,5) by (intro tx_room) auto
    show ?case
      unfolding alloc_loop.simps cwp_bind
    proof (rule tx_open_wp [OF h(3) refl _ room], simp, goal_cases)
      case (1 v c1)
      note l = 1
      have l1: "loaded {#v, v#} (lh_blocks h) (fs_cache (s\<lparr>fs_cache := c1\<rparr>)) \<lparr>bg_index = ?k, bg_block = v\<rparr>"
        using l(1) by simp
      show ?case
        unfolding cwp_bind
      proof (rule bg_bytes_wp [OF l1], rule cwp_lift [of _ r], goal_cases)
        case 1
        show ?case
          using r(1) l(3) h(11) by simp
      next
        case 2
        show ?case
        proof (cases r)
          case None
          show ?thesis
            unfolding None option.case cwp_bind
          proof (rule close_read_wp [OF Cons.prems(1) h(1)], goal_cases)
            case (7 s')
            show ?case
              by (rule Cons.IH [OF 7]) (use Cons.prems(2,3) r(2) al None in \<open>auto simp: in_size_def word_less_nat_alt\<close>)
          qed (use l h in auto)
        next
          case (Some i)
          let ?b = "bn0 + of_nat i"
          have b: "in_size sb ?b" "\<not> allocated sb m ?b" "i < 8192"
            using r(2) Some al by (auto simp: in_size_def word_less_nat_alt)
          have bk: "bmap_block sb ?b = bmap_block sb bn0" "unat ?b mod 8192 = i"
            using start_block(2,3) [of bn0 i] Cons.prems(2) b(3) by auto
          have ne: "as_index ?b \<noteq> ?k" "as_index ?b \<notin> log_area sb 30" "?k \<notin> log_area sb 30"
            using bitmap_markedD(4,5) [OF ok b(1)] bitmap_markedD(7) [OF ok, of ?b] b(2) bk(1) by auto
          show ?thesis
            unfolding Some option.case cwp_bind
          proof (rule take_block_wp [OF Cons.prems(1) h(1)], goal_cases)
            case (11 s')
            then show ?case
              unfolding cwp_simps using b bk by (intro some) (auto simp: alloc_view_def Let_def)
          qed (use l h ne b sb in auto)
        qed
      qed
    qed
  qed
qed

lemma bitmap_starts_unat:
  assumes "j < (unat (sb_size sb) + 8191) div 8192"
  shows "unat (of_nat j * BITS_PER_BLOCK :: u32) = j * 8192"
proof -
  have "unat (sb_size sb) < 2 ^ 32"
    using unat_lt_width [of "sb_size sb"] by simp
  then have j: "j * 8192 < 2 ^ 32"
    using assms by simp
  then have "(of_nat j * BITS_PER_BLOCK :: u32) = of_nat (j * 8192)"
    by (simp add: BITS_PER_BLOCK_def)
  then show ?thesis
    using j by (simp only: unat_of_nat) simp
qed

lemma bitmap_starts_blocks:
  "bn0 \<in> set (bitmap_starts sb) \<Longrightarrow> unat bn0 mod 8192 = 0"
  "in_size sb b \<Longrightarrow> \<exists>bn0 \<in> set (bitmap_starts sb). \<exists>i < 8192. b = bn0 + of_nat i"
proof -
  show "bn0 \<in> set (bitmap_starts sb) \<Longrightarrow> unat bn0 mod 8192 = 0"
    by (auto simp: bitmap_starts_def bitmap_starts_unat)
  assume "in_size sb b"
  then have j: "unat b div 8192 < (unat (sb_size sb) + 8191) div 8192"
    unfolding in_size_def by linarith
  let ?bn0 = "of_nat (unat b div 8192) * BITS_PER_BLOCK :: u32"
  have "unat ?bn0 = unat b div 8192 * 8192"
    by (rule bitmap_starts_unat [OF j])
  then have "b = ?bn0 + of_nat (unat b mod 8192)"
    using start_block(1) [of ?bn0 "unat b mod 8192"] by (simp add: word_unat_eq_iff)
  then show "\<exists>bn0 \<in> set (bitmap_starts sb). \<exists>i < 8192. b = bn0 + of_nat i"
    using j unfolding bitmap_starts_def by (intro bexI [of _ ?bn0] exI [of _ "unat b mod 8192"]) auto
qed

lemma data_block_alloc_wp:
  assumes t: "in_tx s0 {#} (Suc (Suc n)) m s" and sb: "sb = fs_sb s0" and ok: "bitmap_marked sb m"
    and none: "\<And>s'. in_tx s0 {#} (Suc (Suc n)) m s' \<Longrightarrow> (\<forall>b. in_size sb b \<longrightarrow> allocated sb m b) \<Longrightarrow> Q (Inl StorageOutOfBlocks) s'"
    and some: "\<And>b s'. in_size sb b \<Longrightarrow> \<not> allocated sb m b \<Longrightarrow> in_tx s0 {#} n (alloc_view sb b m) s' \<Longrightarrow> Q (Inr b) s'"
  shows "cwp (data_block_alloc ROOT_DEV) Q s"
proof -
  have "fs_sb s = sb"
    using t sb by (auto elim: in_txD)
  then show ?thesis
    unfolding data_block_alloc_def cwp_bind cwp_simps
    by (simp, intro alloc_loop_wp [OF t sb ok] none some) (use bitmap_starts_blocks in \<open>blast+\<close>)
qed

section \<open>Begin and end\<close>

lemma in_tx_begin:
  assumes "log_idle s" "n < max_log_len (fs_sb s)" "n \<le> 27"
  shows "in_tx (s\<lparr>fs_log := (fs_log s)\<lparr>ld_outstanding := 1\<rparr>\<rparr>) {#} n (cview (fs_cache s)) (s\<lparr>fs_log := (fs_log s)\<lparr>ld_outstanding := 1\<rparr>\<rparr>)"
  using assms by (auto simp: in_tx_def log_idle_def)

lemma tx_commit_wp:
  assumes t: "in_tx s0 {#} n m s" and one: "ld_outstanding (fs_log s0) = 1"
    and Q: "\<And>s'. log_idle s' \<Longrightarrow> fs_sb s' = fs_sb s0 \<Longrightarrow> log_fs.more s' = log_fs.more s0 \<Longrightarrow>
      (\<forall>j. block_no_range j \<longrightarrow> j \<notin> log_area (fs_sb s0) 30 \<longrightarrow> cview (fs_cache s') j = m j \<and> disk_block (bio_device (fs_cache s')) j = m j) \<Longrightarrow> Q () s'"
  shows "cwp (tx_drop False) Q s"
  using t
proof (rule in_txD, goal_cases)
  case (1 h)
  note h = 1
  have area: "log_area (fs_sb s) (length (lh_blocks h)) \<subseteq> log_area (fs_sb s0) 30"
    using h(5,6) log_area_mono [of "length (lh_blocks h)" 30 "fs_sb s0"] by simp
  show ?case
    unfolding tx_drop_def if_False
  proof (rule end_op_wp [where h = h], goal_cases)
    case (7 c)
    note e = 7
    have "h\<lparr>lh_blocks := []\<rparr> = \<lparr>lh_dev = ROOT_DEV, lh_blocks = []\<rparr>"
      using h(2) by (cases h) simp
    moreover have "cview c j = m j \<and> disk_block (bio_device c) j = m j" if "block_no_range j" "j \<notin> log_area (fs_sb s0) 30" for j
      using pinned_idle_view [OF e(1) that(1)] e(2) h(11) that area by auto
    ultimately show ?case
      using e(1) h by (intro Q) (auto simp: log_idle_def)
  qed (use h area one in auto)
qed

text \<open>One allocation as a transaction of its own.\<close>

definition alloc_tx :: "('z, kernel_error + block_no) log_call" where
  "alloc_tx = cbind (begin_op False) (\<lambda>_. cbind (data_block_alloc ROOT_DEV) (\<lambda>r. cbind (tx_drop False) (\<lambda>_. creturn r)))"

abbreviation disk_view :: "'z log_fs_scheme \<Rightarrow> usize \<Rightarrow> u8 list" where
  "disk_view s \<equiv> disk_block (bio_device (fs_cache s))"

lemma cview_idle: "log_idle s \<Longrightarrow> block_no_range j \<Longrightarrow> cview (fs_cache s) j = disk_view s j"
  using pinned_idle_view by (auto simp: log_idle_def)

lemma cwp_return_fun: "cwp (creturn a) Q = Q a"
  unfolding fun_eq_iff cwp_simps by simp

lemma run_in_tx:
  assumes "log_idle s" and "cwp body (\<lambda>r s'. cwp (tx_drop False) (\<lambda>_. Q r) s') (s\<lparr>fs_log := (fs_log s)\<lparr>ld_outstanding := 1\<rparr>\<rparr>)"
  shows "cwp (cbind (begin_op False) (\<lambda>_. cbind body (\<lambda>r. cbind (tx_drop False) (\<lambda>_. creturn r)))) Q s"
  unfolding cwp_bind by (rule cwp_eqI [where m = "begin_op False" and s = s, OF begin_op_idle [OF assms(1)]])
    (use assms(2) in \<open>simp only: cwp_return_fun\<close>)

lemma allocated_cong: "m (as_index (bmap_block sb b)) = m' (as_index (bmap_block sb b)) \<Longrightarrow> allocated sb m b = allocated sb m' b"
  by (simp add: allocated_def)

lemma allocated_idle: "log_idle s \<Longrightarrow> allocated sb (cview (fs_cache s)) b = allocated sb (disk_view s) b"
  by (rule allocated_cong) (simp add: cview_idle as_index_range)

lemma bitmap_marked_idle: "log_idle s \<Longrightarrow> bitmap_marked sb (cview (fs_cache s)) = bitmap_marked sb (disk_view s)"
  by (simp add: bitmap_marked_def allocated_idle)

text \<open>
  C10. The allocation of a block, committed as a transaction: it returns a block below the size of the file system that was free, which is
  then allocated and holds zeros on the disk, while no other block changes its state in the bitmap and no block but the new one, its block of
  the bitmap and the log changes its content; or, exactly when no block is free, it returns the error and changes nothing outside of the log.
\<close>

theorem data_block_alloc_commits:
  assumes "log_idle s" and "bitmap_marked (fs_sb s) (disk_view s)" and "2 < max_log_len (fs_sb s)"
  shows "\<exists>r s'. alloc_tx s = (Ok r, s') \<and> log_idle s' \<and> fs_sb s' = fs_sb s \<and> (case r of
      Inl e \<Rightarrow> e = StorageOutOfBlocks \<and> (\<forall>b. in_size (fs_sb s) b \<longrightarrow> allocated (fs_sb s) (disk_view s) b) \<and>
        (\<forall>c. as_index c \<notin> log_area (fs_sb s) 30 \<longrightarrow> disk_view s' (as_index c) = disk_view s (as_index c))
    | Inr b \<Rightarrow> in_size (fs_sb s) b \<and> \<not> allocated (fs_sb s) (disk_view s) b \<and> disk_view s' (as_index b) = replicate 1024 0 \<and>
        (\<forall>c. in_size (fs_sb s) c \<longrightarrow> (allocated (fs_sb s) (disk_view s') c \<longleftrightarrow> c = b \<or> allocated (fs_sb s) (disk_view s) c)) \<and>
        (\<forall>c. c \<noteq> b \<longrightarrow> c \<noteq> bmap_block (fs_sb s) b \<longrightarrow> as_index c \<notin> log_area (fs_sb s) 30 \<longrightarrow> disk_view s' (as_index c) = disk_view s (as_index c)))"
    (is "\<exists>r s'. _ \<and> _ \<and> _ \<and> ?R r s'")
proof -
  let ?sb = "fs_sb s" and ?s0 = "s\<lparr>fs_log := (fs_log s)\<lparr>ld_outstanding := 1\<rparr>\<rparr>" and ?m = "cview (fs_cache s)"
  note idle = cview_idle [OF assms(1) as_index_range]
  have t: "in_tx ?s0 {#} (Suc (Suc 0)) ?m ?s0"
    using in_tx_begin [OF assms(1), of 2] assms(3) by (simp add: numeral_2_eq_2)
  have marked: "bitmap_marked ?sb ?m"
    using assms(2) bitmap_marked_idle [OF assms(1)] by simp
  have "cwp (data_block_alloc ROOT_DEV) (\<lambda>r. cwp (tx_drop False) (\<lambda>_ s'. log_idle s' \<and> fs_sb s' = ?sb \<and> ?R r s')) ?s0"
  proof (rule data_block_alloc_wp [OF t], simp, simp add: marked, goal_cases)
    case (1 s1)
    note full = 1(2)
    show ?case
    proof (rule tx_commit_wp [OF 1(1)], simp, goal_cases)
      case (1 s')
      then show ?case
        using full allocated_idle [OF assms(1)] idle as_index_range by simp
    qed
  next
    case (2 b s1)
    note b = 2
    have sz: "in_size ?sb b" and fresh: "\<not> allocated ?sb ?m b"
      using b by auto
    note ne = bitmap_markedD(4) [OF marked] bitmap_markedD(7) [OF marked, of b]
    show ?case
    proof (rule tx_commit_wp [OF b(3)], simp, goal_cases)
      case (1 s')
      then have view: "disk_view s' (as_index c) = alloc_view ?sb b ?m (as_index c)" if "as_index c \<notin> log_area ?sb 30" for c
        using that as_index_range [of c] by simp
      have "allocated ?sb (disk_view s') c \<longleftrightarrow> c = b \<or> allocated ?sb (disk_view s) c" if "in_size ?sb c" for c
        using alloc_view_allocated [OF in_tx_length [OF t] marked fresh that] view [OF bitmap_markedD(5) [OF marked that]]
          allocated_idle [OF assms(1)] by (simp add: allocated_def [of _ "disk_view s'"] allocated_def [of _ "alloc_view _ _ _"])
      moreover have "disk_view s' (as_index b) = replicate 1024 0"
        using view [of b] ne(2) fresh by (auto simp: alloc_view_def Let_def)
      ultimately show ?case
        using 1(1,2) sz fresh view ne allocated_idle [OF assms(1)] idle by (auto simp: alloc_view_def Let_def)
    qed
  qed
  then have "cwp alloc_tx (\<lambda>r s'. log_idle s' \<and> fs_sb s' = ?sb \<and> ?R r s') s"
    unfolding alloc_tx_def by (rule run_in_tx [OF assms(1)])
  then show ?thesis
    by (auto simp: cwp_def)
qed

text \<open>The witness: the bitmap of the example has the blocks below 48 as allocated.\<close>

definition bitmap_disk :: memory where
  "bitmap_disk a = (if 46080 \<le> unat a \<and> unat a < 46086 then 255 else 0)"

lemma bitmap_disk_bit: "i < 1024 \<Longrightarrow> disk_block bitmap_disk 45 ! i = (if i < 6 then 255 else 0)"
  by (simp add: disk_block_def mem_read_def bitmap_disk_def FS_BLOCK_SIZE_def unat_word_ariths unat_of_nat)

lemma bitmap_disk_allocated:
  assumes "unat b < 8192"
  shows "allocated example_sb (disk_block bitmap_disk) b \<longleftrightarrow> unat b < 48"
proof -
  have "bmap_block example_sb b = 45"
    using assms by (simp add: bmap_block_def example_sb_def BITS_PER_BLOCK_def word_unat_eq_iff unat_word_ariths unat_div)
  moreover have "as_index 45 = 45"
    by (simp add: as_index_def)
  moreover have "(255 :: u8) = mask 8"
    by (simp add: mask_eq_exp_minus_1)
  then have "bit (255 :: u8) (unat b mod 8)"
    by (simp only: bit_mask_iff) simp
  ultimately show ?thesis
    using assms bitmap_disk_bit [of "unat b div 8"] by (auto simp: allocated_def bmap_bit_def)
qed

lemma example_log_blocks: "as_index b \<in> log_area example_sb 30 \<Longrightarrow> 2 \<le> unat b \<and> unat b < 32"
  using example_area [of b 30 undefined] by (auto simp: log_area_def log_body_block_def example_fs_def example_sb_def unat_word_ariths unat_of_nat)

lemma bitmap_disk_marked: "bitmap_marked example_sb (disk_block bitmap_disk)"
proof -
  have bm: "bmap_block example_sb b = 45" if "in_size example_sb b" for b
    using that by (simp add: in_size_def bmap_block_def example_sb_def BITS_PER_BLOCK_def word_unat_eq_iff unat_word_ariths unat_div)
  have "as_index 45 \<notin> log_area example_sb 30"
    using example_log_blocks [of 45] by auto
  moreover have "in_size example_sb 45" "in_size example_sb 0" "as_index b \<in> log_area example_sb 30 \<Longrightarrow> in_size example_sb b" for b
    using example_log_blocks [of b] by (auto simp: in_size_def example_sb_def)
  moreover have "unat b < 8192" if "as_index b \<in> log_area example_sb 30" for b
    using example_log_blocks [OF that] by simp
  ultimately show ?thesis
    using example_log_blocks by (fastforce simp: bitmap_marked_def bm bitmap_disk_allocated)
qed

lemma example_log_len: "2 < max_log_len example_sb"
  by (simp add: max_log_len_def example_sb_def)

theorem data_block_alloc_commits_witness:
  "\<exists>c b s'. block_io_init bitmap_disk = Ok c \<and> alloc_tx (example_fs c) = (Ok (Inr b), s') \<and> 48 \<le> unat b \<and> disk_view s' (as_index b) = replicate 1024 0"
proof -
  obtain c where c: "block_io_init bitmap_disk = Ok c"
    by (simp add: block_io_init_def bio_new_def lru_new_def NBUF_def MAX_OP_BLOCKS_def)
  have d: "bio_device (fs_cache (example_fs c)) = bitmap_disk"
    using c by (auto simp: example_fs_def block_io_init_def bio_new_def split: if_splits)
  have sb: "fs_sb (example_fs c) = example_sb"
    by (simp add: example_fs_def)
  have free: "in_size example_sb 48" "\<not> allocated example_sb (disk_block bitmap_disk) 48"
    by (simp_all add: in_size_def example_sb_def bitmap_disk_allocated [unfolded example_sb_def])
  have big: "48 \<le> unat b" if "in_size example_sb b" "\<not> allocated example_sb (disk_block bitmap_disk) b" for b
    using that bitmap_disk_allocated [of b] by (auto simp: in_size_def example_sb_def)
  from data_block_alloc_commits [OF example_idle [OF c], unfolded sb d, OF bitmap_disk_marked example_log_len]
  show ?thesis
  proof (elim exE conjE, goal_cases)
    case (1 r s')
    then show ?thesis
      using c free big by (cases r) auto
  qed
qed

end
