(* ===== verification/Fs_Content.thy ===== *)
theory Fs_Content
  imports Fs_Inode
begin

text \<open>
  The content of a file as a list of bytes, and the refinement of \<^verbatim>\<open>read\<close>, \<^verbatim>\<open>write\<close> and \<^verbatim>\<open>update\<close> of \<^verbatim>\<open>fs/inode/content.rs\<close> to
  operations on it. A file is read through its 13 addresses and its indirect block; what makes the addresses of an inode sound, and that
  the blocks an operation allocates keep it so, is proved on the view of the blocks, apart from the transaction that changes them.
\<close>

section \<open>The references of an inode\<close>

text \<open>The references by number: the direct blocks, the indirect block at 12, and the entries of the indirect block.\<close>

definition entry_at :: "u8 list \<Rightarrow> nat \<Rightarrow> block_no option" where
  "entry_at bs i = (if u32_at bs i = 0 then None else Some (u32_at bs i))"

definition ref_at :: "(usize \<Rightarrow> u8 list) \<Rightarrow> block_no option list \<Rightarrow> nat \<Rightarrow> block_no option" where
  "ref_at m a i = (if i < 13 then a ! i else case a ! 12 of None \<Rightarrow> None | Some b \<Rightarrow> entry_at (m (as_index b)) (i - 13))"

definition refs :: "(usize \<Rightarrow> u8 list) \<Rightarrow> block_no option list \<Rightarrow> block_no set" where
  "refs m a = {b. \<exists>i < 269. ref_at m a i = Some b}"

text \<open>The block of the content with a number, and the byte of the content at an offset.\<close>

definition ref_no :: "nat \<Rightarrow> nat" where
  "ref_no i = (if i < 12 then i else Suc i)"

definition block_at :: "(usize \<Rightarrow> u8 list) \<Rightarrow> block_no option list \<Rightarrow> nat \<Rightarrow> block_no option" where
  "block_at m a i = ref_at m a (ref_no i)"

definition file_byte :: "(usize \<Rightarrow> u8 list) \<Rightarrow> block_no option list \<Rightarrow> nat \<Rightarrow> u8" where
  "file_byte m a j = (case block_at m a (j div 1024) of None \<Rightarrow> 0 | Some b \<Rightarrow> m (as_index b) ! (j mod 1024))"

definition content :: "(usize \<Rightarrow> u8 list) \<Rightarrow> inode_data \<Rightarrow> u8 list" where
  "content m d = map (file_byte m (id_addrs d)) [0..<unat (id_size d)]"

text \<open>The blocks that no file may have as its own: block 0, the log, the bitmap and the block of the inode.\<close>

definition is_bitmap :: "super_block \<Rightarrow> block_no \<Rightarrow> bool" where
  "is_bitmap sb c \<longleftrightarrow> (\<exists>b. in_size sb b \<and> c = bmap_block sb b)"

definition sys_block :: "super_block \<Rightarrow> inode_no \<Rightarrow> block_no \<Rightarrow> bool" where
  "sys_block sb ino c \<longleftrightarrow> c = 0 \<or> is_bitmap sb c \<or> as_index c \<in> log_area sb 30 \<or> c = inode_block sb ino"

definition layout_ok :: "super_block \<Rightarrow> inode_no \<Rightarrow> (usize \<Rightarrow> u8 list) \<Rightarrow> bool" where
  "layout_ok sb ino m \<longleftrightarrow> bitmap_marked sb m \<and> in_size sb (inode_block sb ino) \<and> allocated sb m (inode_block sb ino) \<and>
     as_index (inode_block sb ino) \<notin> log_area sb 30 \<and> \<not> is_bitmap sb (inode_block sb ino)"

definition file_ok :: "super_block \<Rightarrow> inode_no \<Rightarrow> (usize \<Rightarrow> u8 list) \<Rightarrow> block_no option list \<Rightarrow> bool" where
  "file_ok sb ino m a \<longleftrightarrow> length a = 13 \<and> (\<forall>b \<in> refs m a. in_size sb b \<and> allocated sb m b \<and> \<not> sys_block sb ino b) \<and>
     (\<forall>i < 269. \<forall>j < 269. ref_at m a i = ref_at m a j \<longrightarrow> ref_at m a i \<noteq> None \<longrightarrow> i = j)"

text \<open>An inode whose content is sound: its references are, and there is a block for every byte below its size.\<close>

definition inode_ok :: "super_block \<Rightarrow> (usize \<Rightarrow> u8 list) \<Rightarrow> inode_no \<Rightarrow> inode_data \<Rightarrow> bool" where
  "inode_ok sb m ino d \<longleftrightarrow> layout_ok sb ino m \<and> file_ok sb ino m (id_addrs d) \<and> unat (id_major d) < 2 ^ 16 \<and>
     unat (id_size d) \<le> 268 * 1024 \<and> (\<forall>i. i * 1024 < unat (id_size d) \<longrightarrow> block_at m (id_addrs d) i \<noteq> None)"

lemma file_okD:
  assumes "file_ok sb ino m a"
  shows "length a = 13" "ref_at m a i = Some b \<Longrightarrow> i < 269 \<Longrightarrow> in_size sb b \<and> allocated sb m b \<and> \<not> sys_block sb ino b"
    "ref_at m a i = Some b \<Longrightarrow> ref_at m a j = Some b \<Longrightarrow> i < 269 \<Longrightarrow> j < 269 \<Longrightarrow> i = j"
  using assms unfolding file_ok_def refs_def by auto

lemma ref_no_less: "i < 268 \<Longrightarrow> ref_no i < 269"
  by (simp add: ref_no_def)

lemma ref_no_eq [simp]: "ref_no i = ref_no j \<longleftrightarrow> i = j" "ref_no i \<noteq> 12"
  by (auto simp: ref_no_def)

lemma sys_allocated:
  assumes "layout_ok sb ino m" "sys_block sb ino c"
  shows "in_size sb c" "allocated sb m c"
  using assms unfolding layout_ok_def sys_block_def is_bitmap_def bitmap_marked_def by auto

lemma fresh_not_sys: "layout_ok sb ino m \<Longrightarrow> \<not> allocated sb m c \<Longrightarrow> \<not> sys_block sb ino c"
  using sys_allocated(2) by blast

section \<open>Changes of the blocks\<close>

text \<open>The state of a file that has grown: it has kept its references, the new ones were free before, and the blocks of others are as they were.\<close>

definition file_step :: "super_block \<Rightarrow> inode_no \<Rightarrow> (usize \<Rightarrow> u8 list) \<Rightarrow> block_no option list \<Rightarrow> (usize \<Rightarrow> u8 list) \<Rightarrow> block_no option list \<Rightarrow> bool" where
  "file_step sb ino m a m' a' \<longleftrightarrow> layout_ok sb ino m' \<and> file_ok sb ino m' a' \<and>
     (\<forall>i < 269. ref_at m a i \<noteq> None \<longrightarrow> ref_at m' a' i = ref_at m a i) \<and>
     (\<forall>c. in_size sb c \<longrightarrow> (allocated sb m' c \<longleftrightarrow> allocated sb m c \<or> c \<in> refs m' a')) \<and>
     (\<forall>c \<in> refs m' a'. c \<in> refs m a \<or> \<not> allocated sb m c) \<and>
     (\<forall>c. in_size sb c \<longrightarrow> allocated sb m c \<longrightarrow> c \<notin> refs m a \<longrightarrow> \<not> is_bitmap sb c \<longrightarrow> m' (as_index c) = m (as_index c))"

lemma file_stepD:
  assumes "file_step sb ino m a m' a'"
  shows "layout_ok sb ino m'" "file_ok sb ino m' a'" "ref_at m a i = Some b \<Longrightarrow> i < 269 \<Longrightarrow> ref_at m' a' i = Some b"
    "in_size sb c \<Longrightarrow> allocated sb m' c \<longleftrightarrow> allocated sb m c \<or> c \<in> refs m' a'" "c \<in> refs m' a' \<Longrightarrow> c \<in> refs m a \<or> \<not> allocated sb m c"
    "in_size sb c \<Longrightarrow> allocated sb m c \<Longrightarrow> c \<notin> refs m a \<Longrightarrow> \<not> is_bitmap sb c \<Longrightarrow> m' (as_index c) = m (as_index c)"
  using assms unfolding file_step_def by auto

lemma refs_mono: "file_step sb ino m a m' a' \<Longrightarrow> refs m a \<subseteq> refs m' a'"
  using file_stepD(3) by (fastforce simp: refs_def)

lemma file_step_refl: "layout_ok sb ino m \<Longrightarrow> file_ok sb ino m a \<Longrightarrow> file_step sb ino m a m a"
  by (auto simp: file_step_def file_ok_def)

lemma file_step_trans:
  assumes 1: "file_step sb ino m a m1 a1" and 2: "file_step sb ino m1 a1 m2 a2"
  shows "file_step sb ino m a m2 a2"
  unfolding file_step_def
proof (intro conjI allI ballI impI)
  show "layout_ok sb ino m2" "file_ok sb ino m2 a2"
    using file_stepD(1,2) [OF 2] by simp_all
next
  fix i :: nat assume "i < 269" "ref_at m a i \<noteq> None"
  then show "ref_at m2 a2 i = ref_at m a i"
    using file_stepD(3) [OF 1] file_stepD(3) [OF 2] by fastforce
next
  fix c assume "in_size sb c"
  then show "allocated sb m2 c \<longleftrightarrow> allocated sb m c \<or> c \<in> refs m2 a2"
    using file_stepD(4) [OF 1] file_stepD(4) [OF 2] refs_mono [OF 2] by blast
next
  fix c assume c: "c \<in> refs m2 a2"
  then have "in_size sb c"
    using file_stepD(2) [OF 2] by (auto simp: file_ok_def)
  then show "c \<in> refs m a \<or> \<not> allocated sb m c"
    using c file_stepD(4,5) [OF 1] file_stepD(5) [OF 2] by blast
next
  fix c assume "in_size sb c" "allocated sb m c" "c \<notin> refs m a" "\<not> is_bitmap sb c"
  then show "m2 (as_index c) = m (as_index c)"
    using file_stepD(4,5,6) [OF 1] file_stepD(6) [OF 2] by metis
qed

text \<open>A step that keeps the content.\<close>

definition same_bytes :: "(usize \<Rightarrow> u8 list) \<Rightarrow> block_no option list \<Rightarrow> (usize \<Rightarrow> u8 list) \<Rightarrow> block_no option list \<Rightarrow> bool" where
  "same_bytes m a m' a' \<longleftrightarrow> (\<forall>j < 268 * 1024. file_byte m' a' j = file_byte m a j)"

lemma same_bytes_trans: "same_bytes m a m1 a1 \<Longrightarrow> same_bytes m1 a1 m2 a2 \<Longrightarrow> same_bytes m a m2 a2"
  by (simp add: same_bytes_def)

lemma add_ref:
  assumes ok: "file_ok sb ino m a" and lay: "layout_ok sb ino m" "layout_ok sb ino m'" and i: "i < 269" "ref_at m a i = None" and b: "in_size sb b" "\<not> allocated sb m b"
    and a': "length a' = 13" "\<And>j. j < 269 \<Longrightarrow> ref_at m' a' j = (if j = i then Some b else ref_at m a j)"
    and al: "\<And>c. in_size sb c \<Longrightarrow> allocated sb m' c \<longleftrightarrow> c = b \<or> allocated sb m c"
    and frame: "\<And>c. in_size sb c \<Longrightarrow> allocated sb m c \<Longrightarrow> c \<notin> refs m a \<Longrightarrow> \<not> is_bitmap sb c \<Longrightarrow> m' (as_index c) = m (as_index c)"
  shows "file_step sb ino m a m' a'"
proof -
  have r: "refs m' a' = insert b (refs m a)"
  proof (intro set_eqI iffI)
    fix c assume "c \<in> insert b (refs m a)"
    then show "c \<in> refs m' a'"
      using i a'(2) by (fastforce simp: refs_def)
  qed (use a'(2) in \<open>auto simp: refs_def split: if_splits\<close>)
  have new: "ref_at m a j \<noteq> Some b" if "j < 269" for j
    using file_okD(2) [OF ok _ that] b(2) by blast
  have "file_ok sb ino m' a'"
    unfolding file_ok_def r
  proof (intro conjI allI impI ballI)
    fix c assume "c \<in> insert b (refs m a)"
    then show "in_size sb c" "allocated sb m' c" "\<not> sys_block sb ino c"
      using ok b fresh_not_sys [OF lay(1) b(2)] al by (auto simp: file_ok_def)
  next
    fix j l :: nat assume "j < 269" "l < 269" "ref_at m' a' j = ref_at m' a' l" "ref_at m' a' j \<noteq> None"
    then show "j = l"
      using a'(2) new file_okD(3) [OF ok] by (auto split: if_splits)
  qed (rule a'(1))
  moreover have "ref_at m' a' j = ref_at m a j" if "j < 269" "ref_at m a j \<noteq> None" for j
    using that a'(2) i(2) by auto
  moreover have "allocated sb m c" if "c \<in> refs m a" for c
    using that ok by (auto simp: file_ok_def)
  ultimately show ?thesis
    using lay(2) al frame b(2) unfolding file_step_def r by blast
qed

lemma add_ref_bytes:
  assumes a': "\<And>j. j < 269 \<Longrightarrow> ref_at m' a' j = (if j = i then Some b else ref_at m a j)" and i: "ref_at m a i = None"
    and b: "m' (as_index b) = replicate 1024 0" and keep: "\<And>j c. j < 269 \<Longrightarrow> j \<noteq> 12 \<Longrightarrow> ref_at m a j = Some c \<Longrightarrow> m' (as_index c) = m (as_index c)"
  shows "same_bytes m a m' a'"
  unfolding same_bytes_def
proof (intro allI impI)
  fix j :: nat assume j: "j < 268 * 1024"
  have "ref_no (j div 1024) < 269"
    using j by (intro ref_no_less) simp
  then show "file_byte m' a' j = file_byte m a j"
    using a' [of "ref_no (j div 1024)"] i b keep [of "ref_no (j div 1024)"] by (auto simp: file_byte_def block_at_def split: option.split)
qed

text \<open>The blocks but the new one and its block of the bitmap stay as they are when a block is allocated.\<close>

lemma alloc_view_other: "c \<noteq> b \<Longrightarrow> c \<noteq> bmap_block sb b \<Longrightarrow> alloc_view sb b m (as_index c) = m (as_index c)"
  by (simp add: alloc_view_def Let_def)

lemma alloc_view_new: "alloc_view sb b m (as_index b) = replicate 1024 0"
  by (simp add: alloc_view_def Let_def)

lemma alloc_view_kept:
  assumes "in_size sb b" "\<not> allocated sb m b" "allocated sb m c" "\<not> is_bitmap sb c"
  shows "alloc_view sb b m (as_index c) = m (as_index c)"
  using assms by (intro alloc_view_other) (auto simp: is_bitmap_def)

lemma layout_alloc:
  assumes "\<And>j. length (m j) = 1024" "layout_ok sb ino m" "\<not> allocated sb m b"
  shows "layout_ok sb ino (alloc_view sb b m)"
proof -
  have "bitmap_marked sb m" and "in_size sb (inode_block sb ino)"
    using assms(2) by (simp_all add: layout_ok_def)
  then show ?thesis
    using assms(2) bitmap_marked_alloc [OF assms(1) _ assms(3)] alloc_view_allocated [OF assms(1) _ assms(3)]
    by (simp add: layout_ok_def)
qed

lemma allocated_upd: "in_size sb c \<Longrightarrow> \<not> is_bitmap sb b \<Longrightarrow> allocated sb (m(as_index b := bs)) c = allocated sb m c"
  by (auto simp: allocated_def is_bitmap_def)

lemma layout_upd: "layout_ok sb ino m \<Longrightarrow> \<not> is_bitmap sb b \<Longrightarrow> layout_ok sb ino (m(as_index b := bs))"
  by (auto simp: layout_ok_def bitmap_marked_def allocated_upd)

lemma ref_at_alloc:
  assumes "file_ok sb ino m a" "in_size sb b" "\<not> allocated sb m b" "i < 269"
  shows "ref_at (alloc_view sb b m) a i = ref_at m a i"
proof (cases "a ! 12")
  case (Some c)
  then have "ref_at m a 12 = Some c"
    by (simp add: ref_at_def)
  then have "alloc_view sb b m (as_index c) = m (as_index c)"
    using file_okD(2) [OF assms(1), of 12 c] assms by (intro alloc_view_kept) (auto simp: sys_block_def)
  then show ?thesis
    by (simp add: ref_at_def Some)
qed (simp add: ref_at_def)

lemma ref_kept:
  assumes "file_ok sb ino m a" "in_size sb b" "\<not> allocated sb m b" "i < 269" "ref_at m a i = Some c"
  shows "alloc_view sb b m (as_index c) = m (as_index c)"
  using file_okD(2) [OF assms(1) assms(5) assms(4)] assms(2,3) by (intro alloc_view_kept) (auto simp: sys_block_def)

text \<open>A new block as one of the addresses of the inode.\<close>

lemma le_word_zero: "le_word (replicate n 0) = 0"
  by (induction n) simp_all

lemma zero_entry [simp]: "i < 256 \<Longrightarrow> entry_at (replicate 1024 0) i = None"
  by (simp add: entry_at_def u32_at_def slot_get_def le_word_zero min_def)

lemma ref_at_set_addr:
  assumes ok: "file_ok sb ino m a" and i: "i < 13" "a ! i = None" and b: "in_size sb b" "\<not> allocated sb m b" and j: "j < 269"
  shows "ref_at (alloc_view sb b m) (a[i := Some b]) j = (if j = i then Some b else ref_at m a j)"
proof (cases "13 \<le> j \<and> i = 12")
  case True
  then show ?thesis
    using i j file_okD(1) [OF ok] by (simp add: ref_at_def alloc_view_new)
next
  case False
  then show ?thesis
    using ref_at_alloc [OF ok b j] i file_okD(1) [OF ok] by (auto simp: ref_at_def nth_list_update split: option.split)
qed

lemma step_set_addr:
  assumes len: "\<And>j. length (m j) = 1024" and ok: "file_ok sb ino m a" "layout_ok sb ino m" and i: "i < 13" "a ! i = None" and b: "in_size sb b" "\<not> allocated sb m b"
  shows "file_step sb ino m a (alloc_view sb b m) (a[i := Some b])" "same_bytes m a (alloc_view sb b m) (a[i := Some b])"
proof -
  have none: "ref_at m a i = None"
    using i by (simp add: ref_at_def)
  show "file_step sb ino m a (alloc_view sb b m) (a[i := Some b])"
  proof (rule add_ref [OF ok layout_alloc [OF len ok(2) b(2)] _ none b])
    show "allocated sb (alloc_view sb b m) c \<longleftrightarrow> c = b \<or> allocated sb m c" if "in_size sb c" for c
      using alloc_view_allocated [OF len _ b(2) that] ok(2) by (simp add: layout_ok_def)
  qed (use i file_okD(1) [OF ok(1)] b ref_at_set_addr [OF ok(1) i b] alloc_view_kept [OF b] in auto)
  show "same_bytes m a (alloc_view sb b m) (a[i := Some b])"
    by (rule add_ref_bytes [OF ref_at_set_addr [OF ok(1) i b] none alloc_view_new]) (use ref_kept [OF ok(1) b] in auto)
qed

text \<open>A new block as an entry of the indirect block.\<close>

lemma entry_put: "length bs = 1024 \<Longrightarrow> i < 256 \<Longrightarrow> entry_at (u32_put i b bs) j = (if j = i then if b = 0 then None else Some b else entry_at bs j)"
  by (simp add: entry_at_def u32_at_put)

definition entry_view :: "super_block \<Rightarrow> block_no \<Rightarrow> nat \<Rightarrow> block_no \<Rightarrow> (usize \<Rightarrow> u8 list) \<Rightarrow> usize \<Rightarrow> u8 list" where
  "entry_view sb ind i b m = (alloc_view sb b m)(as_index ind := u32_put i b (m (as_index ind)))"

lemma step_set_entry:
  assumes len: "\<And>j. length (m j) = 1024" and ok: "file_ok sb ino m a" "layout_ok sb ino m" and ind: "a ! 12 = Some ind"
    and i: "i < 256" "entry_at (m (as_index ind)) i = None" and b: "in_size sb b" "\<not> allocated sb m b"
  shows "file_step sb ino m a (entry_view sb ind i b m) a" "same_bytes m a (entry_view sb ind i b m) a"
    "ref_at (entry_view sb ind i b m) a (i + 13) = Some b"
proof -
  have r12: "ref_at m a 12 = Some ind"
    using ind by (simp add: ref_at_def)
  note indD = file_okD(2) [OF ok(1) r12, simplified]
  have nb: "\<not> is_bitmap sb ind" "b \<noteq> ind" "b \<noteq> 0"
    using indD b fresh_not_sys [OF ok(2) b(2)] by (auto simp: sys_block_def)
  have none: "ref_at m a (i + 13) = None"
    using ind i by (simp add: ref_at_def)
  have r: "ref_at (entry_view sb ind i b m) a j = (if j = i + 13 then Some b else ref_at m a j)" if "j < 269" for j
    using that ind i nb len by (auto simp: ref_at_def entry_view_def entry_put)
  then show "ref_at (entry_view sb ind i b m) a (i + 13) = Some b"
    using i by simp
  show "file_step sb ino m a (entry_view sb ind i b m) a"
  proof (rule add_ref [OF ok _ _ none b _ r])
    show "layout_ok sb ino (entry_view sb ind i b m)"
      unfolding entry_view_def by (rule layout_upd [OF layout_alloc [OF len ok(2) b(2)] nb(1)])
    show "allocated sb (entry_view sb ind i b m) c \<longleftrightarrow> c = b \<or> allocated sb m c" if "in_size sb c" for c
      using alloc_view_allocated [OF len _ b(2) that] ok(2) unfolding entry_view_def by (simp add: layout_ok_def allocated_upd [OF that nb(1)])
    show "entry_view sb ind i b m (as_index c) = m (as_index c)" if "allocated sb m c" "c \<notin> refs m a" "\<not> is_bitmap sb c" for c
    proof -
      have "c \<noteq> ind"
        using that(2) r12 by (auto simp: refs_def)
      then show ?thesis
        using alloc_view_kept [OF b that(1,3)] by (simp add: entry_view_def)
    qed
  qed (use i file_okD(1) [OF ok(1)] in auto)
  show "same_bytes m a (entry_view sb ind i b m) a"
  proof (rule add_ref_bytes [OF r none])
    show "entry_view sb ind i b m (as_index b) = replicate 1024 0"
      using nb by (simp add: entry_view_def alloc_view_new)
    show "entry_view sb ind i b m (as_index c) = m (as_index c)" if "j < 269" "j \<noteq> 12" "ref_at m a j = Some c" for j c
      using that file_okD(3) [OF ok(1) that(3), of 12] r12 ref_kept [OF ok(1) b that(1,3)] by (auto simp: entry_view_def)
  qed
qed

text \<open>A change of one block of the content.\<close>

lemma step_write:
  assumes ok: "file_ok sb ino m a" "layout_ok sb ino m" and i: "i < 268" "block_at m a i = Some b"
  shows "file_step sb ino m a (m(as_index b := bs)) a"
    "block_at (m(as_index b := bs)) a = block_at m a"
    "j < 268 * 1024 \<Longrightarrow> file_byte (m(as_index b := bs)) a j = (if j div 1024 = i then bs ! (j mod 1024) else file_byte m a j)"
proof -
  have bi: "ref_at m a (ref_no i) = Some b"
    using i(2) by (simp add: block_at_def)
  note bD = file_okD(2) [OF ok(1) bi ref_no_less [OF i(1)]]
  have nb: "\<not> is_bitmap sb b"
    using bD by (auto simp: sys_block_def)
  have "a ! 12 \<noteq> Some b"
    using file_okD(3) [OF ok(1) bi, of 12] ref_no_less [OF i(1)] ref_no_eq(2) [of i] by (auto simp: ref_at_def)
  then have r: "ref_at (m(as_index b := bs)) a = ref_at m a"
    by (auto simp: ref_at_def fun_eq_iff split: option.split)
  then show blk: "block_at (m(as_index b := bs)) a = block_at m a"
    by (simp add: block_at_def fun_eq_iff)
  have rs: "refs (m(as_index b := bs)) a = refs m a"
    by (simp add: refs_def r)
  have "b \<in> refs m a"
    using bi ref_no_less [OF i(1)] by (auto simp: refs_def)
  moreover have "file_ok sb ino (m(as_index b := bs)) a"
    using ok(1) nb by (simp add: file_ok_def r rs allocated_upd)
  ultimately show "file_step sb ino m a (m(as_index b := bs)) a"
    using layout_upd [OF ok(2) nb] ok(1) nb bD unfolding file_step_def rs r by (auto simp: allocated_upd file_ok_def)
  assume j: "j < 268 * 1024"
  have "b' \<noteq> b" if "block_at m a (j div 1024) = Some b'" "j div 1024 \<noteq> i" for b'
    using file_okD(3) [OF ok(1) bi, of "ref_no (j div 1024)"] that ref_no_less [OF i(1)] ref_no_less [of "j div 1024"] j
    by (auto simp: block_at_def)
  then show "file_byte (m(as_index b := bs)) a j = (if j div 1024 = i then bs ! (j mod 1024) else file_byte m a j)"
    using i(2) by (auto simp: file_byte_def blk split: option.split)
qed

section \<open>Reading the content\<close>

text \<open>
  What reading a file relies on, in a read-only transaction and in one that writes: a block read shows its bytes of the view \<open>m\<close> and keeps
  the state of the transaction.
\<close>

abbreviation addrs_of :: "locked_inode \<Rightarrow> block_no option list" where
  "addrs_of li \<equiv> id_addrs (li_data li)"

lemma indirect_get_eq: "i < 256 \<Longrightarrow> indirect_get bs i = Ok (entry_at bs i)"
  by (simp add: indirect_get_def entry_at_def NUM_INDIRECT_REFS_def)

lemma block_pos:
  fixes p i :: nat
  assumes "i < 1024 - p mod 1024"
  shows "(p + i) div 1024 = p div 1024" "(p + i) mod 1024 = p mod 1024 + i"
proof -
  have e: "p + i = (p mod 1024 + i) + p div 1024 * 1024"
    using div_mult_mod_eq [of p 1024] by simp
  have l: "p mod 1024 + i < 1024"
    using assms by simp
  show "(p + i) div 1024 = p div 1024" "(p + i) mod 1024 = p mod 1024 + i"
    unfolding e div_mult_self1 [OF numeral_neq_zero] mod_mult_self1 using l by simp_all
qed

locale inode_reader =
  fixes ro :: bool
    and I :: "(usize \<Rightarrow> u8 list) \<Rightarrow> 'z log_fs_scheme \<Rightarrow> bool"
  assumes read_bytes: "I m s \<Longrightarrow> (\<And>s'. I m s' \<Longrightarrow> Q (m (as_index bn)) s') \<Longrightarrow> cwp (with_block ro ROOT_DEV bn bg_bytes) Q s"
    and read_entry: "I m s \<Longrightarrow> i < 256 \<Longrightarrow> (\<And>s'. I m s' \<Longrightarrow> R (entry_at (m (as_index bn)) i) s') \<Longrightarrow>
      cwp (with_block ro ROOT_DEV bn (\<lambda>bg. cbind (bg_bytes bg) (\<lambda>bs. clift (indirect_get bs i)))) R s"
    and length_view: "I m s \<Longrightarrow> length (m k) = 1024"
begin

lemma present_wp:
  assumes s: "I m s" and li: "li_dev li = ROOT_DEV" and i: "i < 268" "block_at m (addrs_of li) i = Some b"
    and Q: "\<And>s'. I m s' \<Longrightarrow> Q (Inr (Some b), li) s'"
  shows "cwp (get_or_alloc ro i li) Q s"
proof (cases "i < 12")
  case True
  then show ?thesis
    using i(2) Q [OF s] by (simp add: get_or_alloc_def get_or_alloc_direct_def NUM_DIRECT_REFS_def block_at_def ref_no_def ref_at_def)
next
  case False
  then obtain ind where ind: "addrs_of li ! 12 = Some ind" "entry_at (m (as_index ind)) (i - 12) = Some b"
    using i by (auto simp: block_at_def ref_no_def ref_at_def split: option.splits)
  have i': "i - 12 < 256"
    using False i(1) by linarith
  then have "cwp (get_or_alloc ro i li) Q s = cwp (get_or_alloc_indirect ro (i - 12) li) Q s"
    using False by (simp add: get_or_alloc_def NUM_DIRECT_REFS_def NUM_INDIRECT_REFS_def)
  then show ?thesis
    unfolding get_or_alloc_indirect_def
    by (simp add: NUM_DIRECT_REFS_def ind(1) li cwp_bind del: cwp_simps, intro read_entry [OF s i']) (use ind Q in auto)
qed

lemma read_loop_wp:
  assumes "I m s" and "li_dev li = ROOT_DEV" and "off + len \<le> 268 * 1024" and "\<forall>j < off + len. block_at m (addrs_of li) (j div 1024) \<noteq> None"
    and "tot \<le> len" and "dst = map (file_byte m (addrs_of li)) [off..<off + tot]"
    and Q: "\<And>s'. I m s' \<Longrightarrow> Q (Inr (map (file_byte m (addrs_of li)) [off..<off + len]), li) s'"
  shows "cwp (content_read_loop ro off len tot dst li) Q s"
  using assms(1-6)
proof (induction "len - tot" arbitrary: tot dst s rule: less_induct)
  case less
  note p = less.prems
  show ?case
  proof (cases "tot < len")
    case False
    then show ?thesis
      using p Q by (simp add: content_read_loop.simps)
  next
    case True
    let ?pos = "off + tot" and ?m = "min (len - tot) (1024 - (off + tot) mod 1024)"
    obtain b where b: "block_at m (addrs_of li) (?pos div 1024) = Some b"
      using p(4) True by fastforce
    have bytes: "take ?m (drop (?pos mod 1024) (m (as_index b))) = map (file_byte m (addrs_of li)) [?pos..<?pos + ?m]"
    proof (rule nth_equalityI)
      fix i assume "i < length (take ?m (drop (?pos mod 1024) (m (as_index b))))"
      then have i: "i < 1024 - ?pos mod 1024" "i < ?m"
        by (auto simp: length_view [OF p(1)])
      then show "take ?m (drop (?pos mod 1024) (m (as_index b))) ! i = map (file_byte m (addrs_of li)) [?pos..<?pos + ?m] ! i"
        using i b by (simp add: file_byte_def length_view [OF p(1)] block_pos)
    qed (simp add: length_view [OF p(1)])
    have dst: "dst @ take ?m (drop (?pos mod 1024) (m (as_index b))) = map (file_byte m (addrs_of li)) [off..<off + (tot + ?m)]"
      unfolding bytes p(6) map_append [symmetric] using upt_add_eq_append [of off ?pos ?m] by (simp add: add.assoc)
    have "cwp (get_or_alloc ro (?pos div 1024) li) (\<lambda>(r, li). cwp (case r of
          Inl e \<Rightarrow> creturn (if 0 < tot then Inr dst else Inl e, li)
        | Inr None \<Rightarrow> creturn (Inr dst, li)
        | Inr (Some bn) \<Rightarrow>
            cbind (with_block ro (li_dev li) bn bg_bytes) (\<lambda>bs.
            content_read_loop ro off len (tot + ?m) (dst @ take ?m (drop (?pos mod 1024) bs)) li)) Q) s"
    proof (rule present_wp [OF p(1,2) _ b], goal_cases)
      case (2 s1)
      show ?case
        using p(2) by (simp, intro read_bytes [OF 2] less.hyps) (use True p dst in auto)
    qed (use p(3) True in auto)
    then show ?thesis
      using True by (subst content_read_loop.simps) (simp add: Let_def cwp_bind case_prod_unfold)
  qed
qed

lemma read_wp:
  assumes s: "I m s" and li: "li_dev li = ROOT_DEV" and ok: "inode_ok sb m ino (li_data li)"
    and Q: "\<And>s'. I m s' \<Longrightarrow> Q (Inr (if off + n < 2 ^ 64 then take n (drop off (content m (li_data li))) else []), li) s'"
  shows "cwp (inode_read ro n off li) Q s"
proof (cases "unat (id_size (li_data li)) < off \<or> 2 ^ 64 \<le> off + n")
  case True
  have drop_beyond: "drop off (content m (li_data li)) = []" if "unat (id_size (li_data li)) < off"
    using that by (simp add: content_def)
  show ?thesis
    using True Q [OF s] by (auto simp: inode_read_def drop_beyond cong: if_cong)
next
  case False
  let ?sz = "unat (id_size (li_data li))" and ?f = "file_byte m (addrs_of li)"
  have "map ?f [off..<off + min n (?sz - off)] = take n (drop off (content m (li_data li)))"
    using False by (intro nth_equalityI) (auto simp: content_def)
  moreover have "block_at m (addrs_of li) (j div 1024) \<noteq> None" if "j < ?sz" for j
    using ok that by (simp add: inode_ok_def)
  ultimately show ?thesis
    using False ok Q unfolding inode_read_def Let_def by (simp, intro read_loop_wp [OF s li]) (auto simp: inode_ok_def)
qed

end

interpretation tx_reader: inode_reader ro "in_tx s0 {#} n" for ro s0 n
proof (unfold_locales, goal_cases)
  case (1 m s Q bn)
  then show ?case
    by (intro with_block_read_wp [OF 1(1) refl _ reads_block_bytes]) auto
next
  case (2 m s i R bn)
  then show ?case
    by (intro with_block_read_wp [OF 2(1) refl _ reads_block_lift [OF indirect_get_eq]]) auto
qed (rule in_tx_length)

text \<open>A read-only transaction while no other one runs.\<close>

definition idle_at :: "'z log_fs_scheme \<Rightarrow> (usize \<Rightarrow> u8 list) \<Rightarrow> 'z log_fs_scheme \<Rightarrow> bool" where
  "idle_at s0 m s \<longleftrightarrow> log_idle s \<and> fs_sb s = fs_sb s0 \<and> bio_device (fs_cache s) = bio_device (fs_cache s0) \<and> cview (fs_cache s) = m"

lemma with_block_idle_wp:
  assumes s: "idle_at s0 m s" and k: "as_index bn = k" and body: "reads_block m k body x" and Q: "\<And>s'. idle_at s0 m s' \<Longrightarrow> Q x s'"
  shows "cwp (with_block True ROOT_DEV bn body) Q s"
proof -
  let ?h = "\<lparr>lh_dev = ROOT_DEV, lh_blocks = []\<rparr>"
  have i: "log_idle s" "cview (fs_cache s) = m"
    using s by (simp_all add: idle_at_def)
  then have p: "pinned {#} (lh_blocks ?h) (fs_cache s)" and h: "ld_header (fs_log s) = Some ?h"
    by (simp_all add: log_idle_def)
  show ?thesis
    unfolding with_block_def cwp_bind
  proof (rule tx_open_wp [OF p k], goal_cases)
    case 2
    show ?case
      by (rule tx_room [OF p]) simp
  next
    case (3 v c1)
    note l = 3
    let ?g = "\<lparr>bg_index = k, bg_block = v\<rparr>" and ?s = "s\<lparr>fs_cache := c1\<rparr>"
    have b: "body ?g ?s = (Ok x, ?s)"
      by (rule reads_blockD [OF body, where held = "{#v, v#}" and brs = "[]"]) (use l i in auto)
    show ?case
    proof (rule cwp_eqI [of "body ?g" ?s x ?s, OF b], rule tx_close_wp [where held = "{#}" and h = ?h], goal_cases)
      case (5 c2 h2)
      have "logged (lh_blocks h2) = {}"
        using 5(3) l(6) by auto
      then have "h2 = ?h"
        using pinned_length [OF 5(1)] 5(2) by (cases h2) simp
      then have "idle_at s0 m (s\<lparr>fs_cache := c2, fs_log := (fs_log s)\<lparr>ld_header := Some h2\<rparr>\<rparr>)"
        using s 5 l by (simp add: idle_at_def log_idle_def)
      then show ?case
        unfolding cwp_simps by (intro Q) simp
    qed (use l h in auto)
  qed simp
qed

interpretation idle_reader: inode_reader True "idle_at s0" for s0
proof (unfold_locales, goal_cases)
  case (1 m s Q bn)
  then show ?case
    by (intro with_block_idle_wp [OF 1(1) refl reads_block_bytes]) auto
next
  case (2 m s i R bn)
  then show ?case
    by (intro with_block_idle_wp [OF 2(1) refl reads_block_lift [OF indirect_get_eq]]) auto
next
  case (3 m s k)
  then show ?case
    using cview_length [of "{#}" "[]" "fs_cache s"] by (auto simp: idle_at_def log_idle_def)
qed

section \<open>Growing a file\<close>

definition put_addrs :: "block_no option list \<Rightarrow> locked_inode \<Rightarrow> locked_inode" where
  "put_addrs a li = li\<lparr>li_data := (li_data li)\<lparr>id_addrs := a\<rparr>\<rparr>"

lemma put_addrs_simps [simp]:
  "addrs_of (put_addrs a li) = a" "li_dev (put_addrs a li) = li_dev li" "li_ino (put_addrs a li) = li_ino li"
  "put_addrs a (put_addrs a' li) = put_addrs a li" "put_addrs (addrs_of li) li = li" "id_size (li_data (put_addrs a li)) = id_size (li_data li)"
  "id_major (li_data (put_addrs a li)) = id_major (li_data li)"
  by (simp_all add: put_addrs_def)

lemma set_addr_eq: "set_addr i x li = put_addrs ((addrs_of li)[i := x]) li"
  by (simp add: set_addr_def put_addrs_def)

abbreviation full :: "super_block \<Rightarrow> (usize \<Rightarrow> u8 list) \<Rightarrow> bool" where
  "full sb m \<equiv> \<forall>b. in_size sb b \<longrightarrow> allocated sb m b"

lemma layout_marked: "layout_ok sb ino m \<Longrightarrow> bitmap_marked sb m"
  by (simp add: layout_ok_def)

lemma alloc_entry_wp:
  assumes t: "in_tx s0 {#} (n + 3) m s" and sb: "sb = fs_sb s0" and li: "li_dev li = ROOT_DEV" and ok: "file_ok sb ino m (addrs_of li)" "layout_ok sb ino m"
    and ind: "addrs_of li ! 12 = Some ind" and i: "i < 256" "entry_at (m (as_index ind)) i = None"
    and none: "\<And>s'. in_tx s0 {#} n m s' \<Longrightarrow> full sb m \<Longrightarrow> Q (Inl StorageOutOfBlocks, li) s'"
    and some: "\<And>b s'. in_size sb b \<Longrightarrow> \<not> allocated sb m b \<Longrightarrow> in_tx s0 {#} n (entry_view sb ind i b m) s' \<Longrightarrow> Q (Inr (Some b), li) s'"
  shows "cwp (alloc_indirect_entry False i ind li) Q s"
proof -
  have t': "in_tx s0 {#} (Suc (Suc (Suc n))) m s"
    using t by (simp add: numeral_3_eq_3)
  have r12: "ref_at m (addrs_of li) 12 = Some ind"
    using ind by (simp add: ref_at_def)
  note indD = file_okD(2) [OF ok(1) r12, simplified]
  have "cwp (data_block_alloc ROOT_DEV) (\<lambda>r. cwp (case r of
          Inl e \<Rightarrow> creturn (Inl e, li)
        | Inr bn \<Rightarrow>
            cbind (with_block False ROOT_DEV ind (\<lambda>bg. bg_update bg (indirect_set i (Some bn)))) (\<lambda>_.
            creturn (Inr (Some bn), li))) Q) s"
  proof (rule data_block_alloc_wp [OF t' sb layout_marked [OF ok(2)]], goal_cases)
    case (1 s1)
    then show ?case
      using none in_tx_weaken [OF 1(1), of n] by simp
  next
    case (2 b s1)
    let ?m = "alloc_view sb b m"
    have k: "?m (as_index ind) = m (as_index ind)"
      by (rule ref_kept [OF ok(1) 2(1,2) _ r12]) simp
    have b0: "b \<noteq> 0"
      using fresh_not_sys [OF ok(2) 2(2)] by (auto simp: sys_block_def)
    have w: "writes_block ?m (as_index ind) (\<lambda>bg. bg_update bg (indirect_set i (Some b))) () (u32_put i b (m (as_index ind)))"
      by (rule writes_block_update) (use i(1) b0 k in_tx_length [OF t] in \<open>simp_all add: indirect_set_def NUM_INDIRECT_REFS_def\<close>)
    have "cwp (with_block False ROOT_DEV ind (\<lambda>bg. bg_update bg (indirect_set i (Some b)))) (\<lambda>_. Q (Inr (Some b), li)) s1"
      by (rule with_block_write_wp [OF 2(3) refl _ _ w]) (use indD sb some [OF 2(1,2)] in \<open>auto simp: sys_block_def entry_view_def\<close>)
    then show ?case
      by (simp add: cwp_bind cwp_return_fun)
  qed
  then show ?thesis
    by (simp add: alloc_indirect_entry_def li cwp_bind)
qed

text \<open>The states in which the search for a block of a file ends: all blocks are allocated, or the file has the block \<open>b\<close>.\<close>

definition grown :: "super_block \<Rightarrow> inode_no \<Rightarrow> (usize \<Rightarrow> u8 list) \<Rightarrow> block_no option list \<Rightarrow> (usize \<Rightarrow> u8 list) \<Rightarrow> block_no option list \<Rightarrow> bool" where
  "grown sb ino m a m' a' \<longleftrightarrow> file_step sb ino m a m' a' \<and> same_bytes m a m' a'"

definition got :: "'z log_fs_scheme \<Rightarrow> nat \<Rightarrow> inode_no \<Rightarrow> (usize \<Rightarrow> u8 list) \<Rightarrow> nat \<Rightarrow> locked_inode \<Rightarrow> block_no option inode_result \<Rightarrow> 'z log_fs_scheme \<Rightarrow> bool" where
  "got s0 n ino m i li r s' \<longleftrightarrow> (\<exists>m' a'. in_tx s0 {#} n m' s' \<and> grown (fs_sb s0) ino m (addrs_of li) m' a' \<and> snd r = put_addrs a' li \<and>
     (fst r = Inl StorageOutOfBlocks \<and> full (fs_sb s0) m' \<or> (\<exists>b. fst r = Inr (Some b) \<and> block_at m' a' i = Some b)))"

lemma grown_refl: "file_ok sb ino m a \<Longrightarrow> layout_ok sb ino m \<Longrightarrow> grown sb ino m a m a"
  by (simp add: grown_def file_step_refl same_bytes_def)

lemma grown_trans: "grown sb ino m a m1 a1 \<Longrightarrow> grown sb ino m1 a1 m2 a2 \<Longrightarrow> grown sb ino m a m2 a2"
  unfolding grown_def by (blast intro: file_step_trans same_bytes_trans)

lemma grown_okD: "grown sb ino m a m' a' \<Longrightarrow> file_ok sb ino m' a'" "grown sb ino m a m' a' \<Longrightarrow> layout_ok sb ino m'"
  by (auto simp: grown_def file_step_def)

lemma got_none:
  "in_tx s0 {#} n' m' s' \<Longrightarrow> n \<le> n' \<Longrightarrow> grown (fs_sb s0) ino m (addrs_of li) m' (addrs_of li') \<Longrightarrow> full (fs_sb s0) m' \<Longrightarrow>
   li' = put_addrs (addrs_of li') li \<Longrightarrow> got s0 n ino m i li (Inl StorageOutOfBlocks, li') s'"
  unfolding got_def by (intro exI [of _ m'] exI [of _ "addrs_of li'"]) (auto intro: in_tx_weaken)

lemma got_some:
  "in_tx s0 {#} n' m' s' \<Longrightarrow> n \<le> n' \<Longrightarrow> grown (fs_sb s0) ino m (addrs_of li) m' (addrs_of li') \<Longrightarrow> block_at m' (addrs_of li') i = Some b \<Longrightarrow>
   li' = put_addrs (addrs_of li') li \<Longrightarrow> got s0 n ino m i li (Inr (Some b), li') s'"
  unfolding got_def by (intro exI [of _ m'] exI [of _ "addrs_of li'"]) (auto intro: in_tx_weaken)

lemma grown_set_addr:
  "(\<And>j. length (m j) = 1024) \<Longrightarrow> file_ok sb ino m a \<Longrightarrow> layout_ok sb ino m \<Longrightarrow> i < 13 \<Longrightarrow> a ! i = None \<Longrightarrow> in_size sb b \<Longrightarrow> \<not> allocated sb m b \<Longrightarrow>
   grown sb ino m a (alloc_view sb b m) (a[i := Some b])"
  by (simp add: grown_def step_set_addr)

lemma grown_set_entry:
  "(\<And>j. length (m j) = 1024) \<Longrightarrow> file_ok sb ino m a \<Longrightarrow> layout_ok sb ino m \<Longrightarrow> a ! 12 = Some ind \<Longrightarrow> i < 256 \<Longrightarrow> entry_at (m (as_index ind)) i = None \<Longrightarrow>
   in_size sb b \<Longrightarrow> \<not> allocated sb m b \<Longrightarrow>
   grown sb ino m a (entry_view sb ind i b m) a \<and> block_at (entry_view sb ind i b m) a (i + 12) = Some b"
  using step_set_entry [of m sb ino a ind i b] by (simp add: grown_def block_at_def ref_no_def add.commute)

lemma direct_alloc_wp:
  assumes t: "in_tx s0 {#} (n + 2) m s" and li: "li_dev li = ROOT_DEV" and ok: "file_ok (fs_sb s0) ino m (addrs_of li)" "layout_ok (fs_sb s0) ino m"
    and i: "i < 12" "addrs_of li ! i = None"
  shows "cwp (get_or_alloc_direct False i li) (got s0 n ino m i li) s"
proof -
  have t2: "in_tx s0 {#} (Suc (Suc n)) m s"
    using t by (simp add: eval_nat_numeral)
  have "cwp (data_block_alloc ROOT_DEV) (\<lambda>r. got s0 n ino m i li (case r of Inl e \<Rightarrow> (Inl e, li) | Inr bn \<Rightarrow> (Inr (Some bn), set_addr i (Some bn) li))) s"
  proof (rule data_block_alloc_wp [OF t2 refl layout_marked [OF ok(2)]], goal_cases)
    case (1 s1)
    then show ?case
      by (simp add: got_none [OF 1(1) _ grown_refl [OF ok]])
  next
    case (2 b s1)
    then show ?case
      using i file_okD(1) [OF ok(1)] grown_set_addr [OF in_tx_length [OF t] ok _ i(2) 2(1,2)]
      by (simp, intro got_some [OF 2(3)]) (simp_all add: set_addr_eq block_at_def ref_no_def ref_at_def)
  qed
  then show ?thesis
    using i by (simp add: get_or_alloc_direct_def NUM_DIRECT_REFS_def li cwp_bind cwp_return_fun)
qed

lemma entry_alloc_wp:
  assumes t: "in_tx s0 {#} (n + 3) m s" and li: "li_dev li = ROOT_DEV" and ok: "file_ok (fs_sb s0) ino m (addrs_of li)" "layout_ok (fs_sb s0) ino m"
    and ind: "addrs_of li ! 12 = Some ind" and i: "i < 256" "entry_at (m (as_index ind)) i = None"
  shows "cwp (alloc_indirect_entry False i ind li) (got s0 n ino m (i + 12) li) s"
proof (rule alloc_entry_wp [OF t refl li ok ind i], goal_cases)
  case (1 s1)
  then show ?case
    by (simp add: got_none [OF 1(1) _ grown_refl [OF ok]])
next
  case (2 b s1)
  then show ?case
    using grown_set_entry [OF in_tx_length [OF t] ok ind i 2(1,2)] by (intro got_some [OF 2(3)]) auto
qed

lemma got_trans:
  assumes "grown (fs_sb s0) ino m (addrs_of li) m1 (addrs_of li1)" "li1 = put_addrs (addrs_of li1) li" "got s0 n ino m1 i li1 r s"
  shows "got s0 n ino m i li r s"
proof -
  have "put_addrs a li1 = put_addrs a li" for a
    by (subst assms(2)) simp
  then show ?thesis
    using assms(3) grown_trans [OF assms(1)] unfolding got_def by fastforce
qed

lemma indirect_alloc_wp:
  assumes t: "in_tx s0 {#} (n + 5) m s" and li: "li_dev li = ROOT_DEV" and ok: "file_ok (fs_sb s0) ino m (addrs_of li)" "layout_ok (fs_sb s0) ino m"
    and i: "i < 256" "addrs_of li ! 12 = None"
  shows "cwp (get_or_alloc_indirect False i li) (got s0 n ino m (i + 12) li) s"
proof -
  have t2: "in_tx s0 {#} (Suc (Suc (n + 3))) m s"
    using t by (simp add: eval_nat_numeral)
  have "cwp (data_block_alloc ROOT_DEV) (\<lambda>r. cwp (case r of
      Inl e \<Rightarrow> creturn (Inl e, li)
    | Inr b \<Rightarrow> alloc_indirect_entry False i b (set_addr 12 (Some b) li)) (got s0 n ino m (i + 12) li)) s"
  proof (rule data_block_alloc_wp [OF t2 refl layout_marked [OF ok(2)]], goal_cases)
    case (1 s1)
    then show ?case
      by (simp add: got_none [OF 1(1) _ grown_refl [OF ok]])
  next
    case (2 b s1)
    let ?li = "set_addr 12 (Some b) li"
    have g: "grown (fs_sb s0) ino m (addrs_of li) (alloc_view (fs_sb s0) b m) (addrs_of ?li)"
      using grown_set_addr [OF in_tx_length [OF t] ok _ i(2) 2(1,2)] by (simp add: set_addr_eq)
    have "cwp (alloc_indirect_entry False i b ?li) (got s0 n ino (alloc_view (fs_sb s0) b m) (i + 12) ?li) s1"
      by (rule entry_alloc_wp [OF 2(3) _ grown_okD [OF g]])
        (use i(1) li file_okD(1) [OF ok(1)] in \<open>simp_all add: set_addr_eq alloc_view_new\<close>)
    then show ?case
      by (simp, rule cwp_mono) (rule got_trans [OF g], simp_all add: set_addr_eq)
  qed
  then show ?thesis
    using i by (simp add: get_or_alloc_indirect_def NUM_DIRECT_REFS_def li cwp_bind)
qed

lemma get_or_alloc_wp:
  assumes t: "in_tx s0 {#} (n + 5) m s" and li: "li_dev li = ROOT_DEV" and ok: "file_ok (fs_sb s0) ino m (addrs_of li)" "layout_ok (fs_sb s0) ino m"
    and i: "i < 268"
  shows "cwp (get_or_alloc False i li) (got s0 n ino m i li) s"
proof (cases "block_at m (addrs_of li) i")
  case (Some b)
  show ?thesis
    by (rule tx_reader.present_wp [OF t li i Some]) (simp add: got_some [OF _ _ grown_refl [OF ok] Some])
next
  case None
  show ?thesis
  proof (cases "i < 12")
    case True
    then have "addrs_of li ! i = None"
      using None by (simp add: block_at_def ref_no_def ref_at_def)
    then show ?thesis
      using direct_alloc_wp [OF in_tx_weaken [OF t] li ok True] True by (simp add: get_or_alloc_def NUM_DIRECT_REFS_def)
  next
    case False
    then have i': "i - 12 < 256" "i - 12 + 12 = i"
      using i by linarith+
    have "cwp (get_or_alloc_indirect False (i - 12) li) (got s0 n ino m i li) s"
    proof (cases "addrs_of li ! 12")
      case None
      show ?thesis
        using indirect_alloc_wp [OF t li ok i'(1) None] i'(2) by simp
    next
      case (Some ind)
      have e: "entry_at (m (as_index ind)) (i - 12) = None"
        using \<open>block_at m (addrs_of li) i = None\<close> False Some by (simp add: block_at_def ref_no_def ref_at_def)
      show ?thesis
        using entry_alloc_wp [OF in_tx_weaken [where n = "n + 5"] li ok Some i'(1) e] i'(2)
        by (simp add: get_or_alloc_indirect_def NUM_DIRECT_REFS_def Some li cwp_bind) (rule tx_reader.read_entry [OF t i'(1)], simp add: e)
    qed
    then show ?thesis
      using False i'(1) by (simp add: get_or_alloc_def NUM_DIRECT_REFS_def NUM_INDIRECT_REFS_def)
  qed
qed

section \<open>Writing the content\<close>

definition write_inv :: "super_block \<Rightarrow> inode_no \<Rightarrow> nat \<Rightarrow> u8 list \<Rightarrow> (usize \<Rightarrow> u8 list) \<Rightarrow> block_no option list \<Rightarrow> nat \<Rightarrow> (usize \<Rightarrow> u8 list) \<Rightarrow>
    block_no option list \<Rightarrow> bool" where
  "write_inv sb ino off src m0 a0 tot m a \<longleftrightarrow> file_step sb ino m0 a0 m a \<and> tot \<le> length src \<and> (tot = 0 \<or> tot = length src \<or> (off + tot) mod 1024 = 0) \<and>
     (\<forall>j < 268 * 1024. file_byte m a j = (if off \<le> j \<and> j < off + tot then src ! (j - off) else file_byte m0 a0 j)) \<and>
     (\<forall>j. off \<le> j \<longrightarrow> j < off + tot \<longrightarrow> block_at m a (j div 1024) \<noteq> None)"

lemma block_at_step: "file_step sb ino m a m' a' \<Longrightarrow> i < 268 \<Longrightarrow> block_at m a i = Some b \<Longrightarrow> block_at m' a' i = Some b"
  using file_stepD(3) ref_no_less unfolding block_at_def by blast

lemma write_inv_grown:
  assumes w: "write_inv sb ino off src m0 a0 tot m a" and g: "grown sb ino m a m' a'" and sz: "off + length src \<le> 268 * 1024"
  shows "write_inv sb ino off src m0 a0 tot m' a'"
proof -
  have st: "file_step sb ino m a m' a'" "same_bytes m a m' a'"
    using g by (simp_all add: grown_def)
  have "block_at m' a' (j div 1024) \<noteq> None" if j: "off \<le> j" "j < off + tot" for j
  proof -
    have "tot \<le> length src"
      using w by (simp add: write_inv_def)
    then have "j div 1024 < 268"
      using j(2) sz by simp
    moreover obtain b where "block_at m a (j div 1024) = Some b"
      using j w unfolding write_inv_def by blast
    ultimately show ?thesis
      using block_at_step [OF st(1)] by simp
  qed
  then show ?thesis
    using w st(2) file_step_trans [OF _ st(1)] unfolding write_inv_def same_bytes_def by simp
qed

lemma splice_nth:
  assumes "p + length v \<le> length bs" "i < length bs"
  shows "(take p bs @ v @ drop (p + length v) bs) ! i = (if p \<le> i \<and> i < p + length v then v ! (i - p) else bs ! i)"
  using assms by (auto simp: nth_append)

lemma write_inv_block:
  assumes w: "write_inv sb ino off src m0 a0 tot m a" and b: "block_at m a ((off + tot) div 1024) = Some b" and len: "length (m (as_index b)) = 1024"
    and tot: "tot < length src" and sz: "off + length src \<le> 268 * 1024" and mm: "mm = min (length src - tot) (1024 - (off + tot) mod 1024)"
  shows "write_inv sb ino off src m0 a0 (tot + mm)
    (m(as_index b := take ((off + tot) mod 1024) (m (as_index b)) @ take mm (drop tot src) @ drop ((off + tot) mod 1024 + mm) (m (as_index b)))) a"
    (is "write_inv _ _ _ _ _ _ _ (m(_ := ?bs)) _")
proof -
  let ?p = "off + tot"
  have i: "?p div 1024 < 268"
    using tot sz by simp
  have ok: "file_ok sb ino m a" "layout_ok sb ino m"
    using w by (auto simp: write_inv_def file_step_def)
  note st = step_write [OF ok i b, where bs = ?bs]
  have mb: "tot + mm \<le> length src" "?p mod 1024 + mm \<le> 1024"
    using mm tot mod_less_divisor [of 1024 ?p] by linarith+
  then have lv: "length (take mm (drop tot src)) = mm"
    by simp
  have byte: "?bs ! (j mod 1024) = (if ?p \<le> j \<and> j < ?p + mm then src ! (j - off) else file_byte m a j)" if "j div 1024 = ?p div 1024" for j
  proof -
    have j: "j = ?p div 1024 * 1024 + j mod 1024" and pp: "?p = ?p div 1024 * 1024 + ?p mod 1024"
      using that div_mult_mod_eq [of j 1024] by simp_all
    have e: "?p mod 1024 \<le> j mod 1024 \<longleftrightarrow> ?p \<le> j" "j mod 1024 < ?p mod 1024 + mm \<longleftrightarrow> j < ?p + mm" "j mod 1024 - ?p mod 1024 = j - ?p"
      using j pp by linarith+
    have "?bs ! (j mod 1024) = (if ?p mod 1024 \<le> j mod 1024 \<and> j mod 1024 < ?p mod 1024 + mm then take mm (drop tot src) ! (j mod 1024 - ?p mod 1024) else m (as_index b) ! (j mod 1024))"
      using splice_nth [of "?p mod 1024" "take mm (drop tot src)" "m (as_index b)" "j mod 1024"] len mb unfolding lv by simp
    moreover have "take mm (drop tot src) ! (j - ?p) = src ! (j - off)" if "?p \<le> j" "j < ?p + mm"
      using that mb by simp
    moreover have "file_byte m a j = m (as_index b) ! (j mod 1024)"
      using b that by (simp add: file_byte_def)
    ultimately show ?thesis
      unfolding e by presburger
  qed
  have out: "\<not> (?p \<le> j \<and> j < ?p + mm)" if "j div 1024 \<noteq> ?p div 1024" for j
  proof
    assume j: "?p \<le> j \<and> j < ?p + mm"
    then have "j - ?p < 1024 - ?p mod 1024"
      using mb(2) by linarith
    then show False
      using block_pos(1) [of "j - ?p" ?p] that j by simp
  qed
  have "file_byte (m(as_index b := ?bs)) a j = (if off \<le> j \<and> j < off + (tot + mm) then src ! (j - off) else file_byte m0 a0 j)" if "j < 268 * 1024" for j
    using st(3) [OF that] byte out [of j] w that by (auto simp: write_inv_def)
  moreover have "block_at m a (j div 1024) \<noteq> None" if "off \<le> j" "j < off + (tot + mm)" for j
  proof (cases "j < ?p")
    case False
    then have "j div 1024 = ?p div 1024"
      using out [of j] that(2) by linarith
    then show ?thesis
      using b by simp
  qed (use w that(1) in \<open>simp add: write_inv_def\<close>)
  moreover have "tot + mm = length src \<or> (off + (tot + mm)) mod 1024 = 0"
  proof (cases "length src - tot \<le> 1024 - ?p mod 1024")
    case False
    then have "?p + mm = ?p div 1024 * 1024 + 1024"
      using mm div_mult_mod_eq [of ?p 1024] mod_less_divisor [of 1024 ?p] by linarith
    then show ?thesis
      by (simp add: add.assoc)
  qed (use mm tot in simp)
  ultimately show ?thesis
    using w mb(1) file_step_trans [OF _ st(1)] unfolding write_inv_def st(2) by blast
qed

text \<open>The number of blocks of a range of bytes bounds the rounds of the loop, and each round the blocks it writes to the log.\<close>

definition rounds :: "nat \<Rightarrow> nat \<Rightarrow> nat" where
  "rounds p len = (if len = 0 then 0 else (p mod 1024 + len + 1023) div 1024)"

lemma rounds_step:
  assumes "0 < len" "mm = min len (1024 - p mod 1024)"
  shows "Suc (rounds (p + mm) (len - mm)) \<le> rounds p len"
proof (cases "len \<le> 1024 - p mod 1024")
  case True
  then have "mm = len"
    using assms(2) by simp
  then show ?thesis
    using assms(1) by (simp add: rounds_def)
next
  case False
  have "p + (1024 - p mod 1024) = p div 1024 * 1024 + 1024"
    using div_mult_mod_eq [of p 1024] mod_less_divisor [of 1024 p] by linarith
  then have "(p + mm) mod 1024 = 0"
    using False assms(2) by simp
  moreover have e: "p mod 1024 + len + 1023 = (len - mm + 1023) + 1024"
    using False assms(2) mod_less_divisor [of 1024 p] by linarith
  have "(p mod 1024 + len + 1023) div 1024 = Suc ((len - mm + 1023) div 1024)"
    unfolding e by simp
  ultimately show ?thesis
    using assms(1) by (simp add: rounds_def)
qed

lemma write_round_wp:
  assumes t: "in_tx s0 {#} (Suc n + 5) m s" and li: "li_dev li = ROOT_DEV" and tot: "tot < length src" and sz: "off + length src \<le> 268 * 1024"
    and w: "write_inv (fs_sb s0) ino off src m0 a0 tot m (addrs_of li)" and mm: "mm = min (length src - tot) (1024 - (off + tot) mod 1024)"
    and none: "\<And>m' a' s'. in_tx s0 {#} n m' s' \<Longrightarrow> write_inv (fs_sb s0) ino off src m0 a0 tot m' a' \<Longrightarrow> full (fs_sb s0) m' \<Longrightarrow>
      Q (if 0 < tot then Inr tot else Inl StorageOutOfBlocks, put_addrs a' li) s'"
    and some: "\<And>m' a' s'. in_tx s0 {#} n m' s' \<Longrightarrow> write_inv (fs_sb s0) ino off src m0 a0 (tot + mm) m' a' \<Longrightarrow> cwp (rest (put_addrs a' li)) Q s'"
  shows "cwp (get_or_alloc False ((off + tot) div 1024) li) (\<lambda>x. cwp (case x of (r, li) \<Rightarrow> case r of
      Inl e \<Rightarrow> creturn (if 0 < tot then Inr tot else Inl e, li)
    | Inr None \<Rightarrow> clift Panic
    | Inr (Some bn) \<Rightarrow>
        cbind (with_block False (li_dev li) bn (\<lambda>bg.
          bg_update bg (\<lambda>bs. Ok (take ((off + tot) mod 1024) bs @ take mm (drop tot src) @ drop ((off + tot) mod 1024 + mm) bs)))) (\<lambda>_. rest li)) Q) s"
proof (rule cwp_mono [OF get_or_alloc_wp [where ino = ino, OF t li]], goal_cases)
  case (4 r s1)
  let ?p = "(off + tot) mod 1024"
  obtain m1 a1 where g: "in_tx s0 {#} (Suc n) m1 s1" "grown (fs_sb s0) ino m (addrs_of li) m1 a1" "snd r = put_addrs a1 li"
    and c: "fst r = Inl StorageOutOfBlocks \<and> full (fs_sb s0) m1 \<or> (\<exists>b. fst r = Inr (Some b) \<and> block_at m1 a1 ((off + tot) div 1024) = Some b)"
    using 4 unfolding got_def by blast
  note w1 = write_inv_grown [OF w g(2) sz]
  from c show ?case
  proof (elim disjE exE conjE)
    assume "fst r = Inl StorageOutOfBlocks" "full (fs_sb s0) m1"
    then show ?thesis
      using none [OF in_tx_weaken [OF g(1)] w1] g(3) by (cases r) auto
  next
    fix b assume b: "fst r = Inr (Some b)" "block_at m1 a1 ((off + tot) div 1024) = Some b"
    have i: "(off + tot) div 1024 < 268"
      using tot sz by simp
    have "\<not> sys_block (fs_sb s0) ino b"
      using b(2) file_okD(2) [OF grown_okD(1) [OF g(2)], of "ref_no ((off + tot) div 1024)" b] ref_no_less [OF i] by (simp add: block_at_def)
    then have area: "as_index b \<notin> log_area (fs_sb s0) 30"
      by (auto simp: sys_block_def)
    let ?f = "\<lambda>bs. take ?p bs @ take mm (drop tot src) @ drop (?p + mm) bs"
    have "?p + mm \<le> 1024" "tot + mm \<le> length src"
      using mm tot mod_less_divisor [of 1024 "off + tot"] by linarith+
    then have wr: "writes_block m1 (as_index b) (\<lambda>bg. bg_update bg (\<lambda>bs. Ok (?f bs))) () (?f (m1 (as_index b)))"
      by (intro writes_block_update) (simp_all add: in_tx_length [OF g(1)])
    have "cwp (with_block False ROOT_DEV b (\<lambda>bg. bg_update bg (\<lambda>bs. Ok (?f bs)))) (\<lambda>_. cwp (rest (put_addrs a1 li)) Q) s1"
      by (rule with_block_write_wp [OF g(1) refl _ area wr])
        (use some write_inv_block [OF w1 b(2) in_tx_length [OF g(1)] tot sz mm] in auto)
    then show ?thesis
      using b(1) g(3) li by (cases r) (simp add: cwp_bind)
  qed
qed (use w tot sz in \<open>auto simp: write_inv_def file_step_def\<close>)

lemma write_loop_wp:
  assumes "in_tx s0 {#} (6 * rounds (off + tot) (length src - tot) + n) m s" and "li_dev li = ROOT_DEV" and sz: "off + length src \<le> 268 * 1024"
    and "write_inv (fs_sb s0) ino off src m0 a0 tot m (addrs_of li)"
    and Q: "\<And>m' a' tot' s'. in_tx s0 {#} n m' s' \<Longrightarrow> write_inv (fs_sb s0) ino off src m0 a0 tot' m' a' \<Longrightarrow> (tot' < length src \<longrightarrow> full (fs_sb s0) m') \<Longrightarrow>
      Q (if tot' = 0 \<and> src \<noteq> [] then Inl StorageOutOfBlocks else Inr tot', put_addrs a' li) s'"
  shows "cwp (content_write_loop off tot src li) Q s"
  using assms(1,2,4) Q
proof (induction "length src - tot" arbitrary: tot m li s rule: less_induct)
  case less
  note p = less.prems(1-3) and Q = less.prems(4)
  show ?case
  proof (cases "tot < length src")
    case False
    then have "tot = length src"
      using p(3) by (simp add: write_inv_def)
    then show ?thesis
      using Q [OF in_tx_weaken [OF p(1)] p(3)] by (simp add: content_write_loop.simps)
  next
    case True
    define mm where "mm = min (length src - tot) (1024 - (off + tot) mod 1024)"
    have r: "Suc (rounds (off + (tot + mm)) (length src - (tot + mm))) \<le> rounds (off + tot) (length src - tot)"
      using rounds_step [of "length src - tot" mm "off + tot"] True by (simp add: mm_def add.assoc)
    let ?n = "6 * rounds (off + (tot + mm)) (length src - (tot + mm)) + n"
    have t: "in_tx s0 {#} (Suc ?n + 5) m s"
      by (rule in_tx_weaken [OF p(1)]) (use r in linarith)
    show ?thesis
      unfolding content_write_loop.simps [of off tot] Let_def cwp_bind mm_def [symmetric] if_P [OF True]
    proof (rule write_round_wp [OF t p(2) True sz p(3) mm_def], goal_cases)
      case (1 m' a' s')
      show ?case
        using Q [OF in_tx_weaken [OF 1(1)] 1(2)] 1(3) True by auto
    next
      case (2 m' a' s')
      show ?case
      proof (rule less.hyps [OF _ 2(1)], goal_cases)
        case (4 m2 a2 tot2 s2)
        then show ?case
          using Q [OF 4] by simp
      qed (use True p(2) 2(2) in \<open>auto simp: mm_def\<close>)
    qed
  qed
qed

section \<open>The inode on disk\<close>

lemma slots_concat: "4 * n \<le> length bs \<Longrightarrow> concat (map (\<lambda>i. slot_get 4 i bs) [0..<n]) = take (4 * n) bs"
proof (induction n)
  case (Suc n)
  then show ?case
    using take_add [of "4 * n" 4 bs] by (simp add: slot_get_def add.commute mult.commute)
qed simp

lemma concat_slot:
  "i < length xs \<Longrightarrow> slot_get 4 i (concat (map le_bytes xs)) = le_bytes (xs ! i)" for xs :: "u32 list"
proof (induction xs arbitrary: i)
  case (Cons x xs)
  then show ?case
    by (cases i) (auto simp: slot_get_def)
qed simp

lemma slot_shift: "slot_get 4 (i + 3) bs = slot_get 4 i (drop 12 bs)"
  by (simp add: slot_get_def add.commute algebra_simps)

lemma length_words: "length (concat (map le_bytes xs)) = 4 * length xs" for xs :: "u32 list"
  by (induction xs) simp_all

interpretation pod_inode: pod encode_inode decode_inode 64 "\<lambda>r. length (di_addrs r) = 13"
proof (unfold_locales, goal_cases)
  case (1 r)
  then show ?case
    by (simp add: encode_inode_def length_words)
next
  case (2 r)
  have "drop 12 (encode_inode r) = concat (map le_bytes (di_addrs r))"
    by (simp add: encode_inode_def)
  then have "u32_at (encode_inode r) (i + 3) = di_addrs r ! i" if "i < 13" for i
    using that 2 by (simp add: u32_at_def slot_shift concat_slot le_word_le_bytes)
  then have "map (\<lambda>i. u32_at (encode_inode r) (i + 3)) [0..<13] = di_addrs r"
    using 2 by (intro nth_equalityI) simp_all
  then show ?case
    by (cases r) (simp add: decode_inode_def, simp add: encode_inode_def slot_get_def u32_at_def le_word_le_bytes)
next
  case (3 bs)
  have "concat (map (\<lambda>i. le_bytes (u32_at bs (i + 3))) [0..<13]) = concat (map (\<lambda>i. slot_get 4 i (drop 12 bs)) [0..<13])"
    using 3 by (intro arg_cong [where f = concat] map_cong refl) (simp add: u32_at_def le_bytes_le_word slot_get_length slot_shift)
  then have a: "concat (map le_bytes (di_addrs (decode_inode bs))) = drop 12 bs"
    using slots_concat [of 13 "drop 12 bs"] 3 by (simp add: decode_inode_def comp_def)
  have "slot_get 2 0 bs @ slot_get 2 1 bs @ slot_get 2 2 bs @ slot_get 2 3 bs @ slot_get 4 2 bs @ drop 12 bs = bs"
    using take_add [of 2 2 bs] take_add [of 4 2 bs] take_add [of 6 2 bs] take_add [of 8 4 bs] append_take_drop_id [of 12 bs]
    by (simp add: slot_get_def)
  then show ?case
    unfolding encode_inode_def a using 3 by (simp add: decode_inode_def u32_at_def le_bytes_le_word slot_get_length)
qed (simp add: decode_inode_def)

definition disk_of :: "inode_data \<Rightarrow> disk_inode \<Rightarrow> disk_inode" where
  "disk_of d r = r\<lparr>di_ty := id_ty d, di_major := ucast (id_major d), di_nlink := id_nlink d, di_size := id_size d,
     di_addrs := map (\<lambda>a. case a of Some bn \<Rightarrow> bn | None \<Rightarrow> 0) (id_addrs d)\<rparr>"

lemma write_repr_eq: "unat (id_major d) < 2 ^ 16 \<Longrightarrow> Some 0 \<notin> set (id_addrs d) \<Longrightarrow> write_repr d r = Ok (disk_of d r)"
  by (simp add: write_repr_def write_addrs_def disk_of_def)

text \<open>The device number is kept in full only by its major part: the minor one of the inode in memory does not reach the disk.\<close>

lemma from_repr_disk_of:
  assumes "unat (id_major d) < 2 ^ 16" "Some 0 \<notin> set (id_addrs d)"
  shows "from_repr (disk_of d r) = d\<lparr>id_minor := di_minor r\<rparr>"
proof -
  have "unat (ucast (ucast (id_major d) :: u16) :: u32) = unat (id_major d)"
    using assms(1) by (simp add: unsigned_ucast_eq take_bit_eq_mod unat_mod)
  then have "ucast (ucast (id_major d) :: u16) = id_major d"
    by (simp add: word_unat_eq_iff)
  moreover have "map ((\<lambda>bn. if bn = 0 then None else Some bn) \<circ> (\<lambda>a. case a of Some bn \<Rightarrow> bn | None \<Rightarrow> 0)) (id_addrs d) = id_addrs d"
    using assms(2) by (intro map_idI) (auto split: option.split)
  ultimately show ?thesis
    by (simp add: from_repr_def disk_of_def read_addrs_def)
qed

lemma block_inode_put:
  assumes "length bs = 1024" "length (di_addrs r) = 13"
  shows "block_inode (block_put_inode ino r bs) ino = r" "length (block_put_inode ino r bs) = 1024"
    "ino' mod 16 \<noteq> ino mod 16 \<Longrightarrow> block_inode (block_put_inode ino r bs) ino' = block_inode bs ino'"
proof -
  have "unat (ino mod 16) < 16"
    by (simp add: unat_mod)
  then have i: "unat (ino mod 16) * 64 + 64 \<le> length bs"
    using assms(1) by simp
  note l = pod_inode.length_enc [OF assms(2)]
  show "block_inode (block_put_inode ino r bs) ino = r" "length (block_put_inode ino r bs) = 1024"
    using i assms l by (simp_all add: block_inode_def block_put_inode_def INODE_PER_BLOCK_def slot_get_put slot_length pod_inode.dec_enc)
  assume "ino' mod 16 \<noteq> ino mod 16"
  then have "unat (ino mod 16) \<noteq> unat (ino' mod 16)"
    by (simp add: word_unat_eq_iff)
  then show "block_inode (block_put_inode ino r bs) ino' = block_inode bs ino'"
    using i l by (simp add: block_inode_def block_put_inode_def INODE_PER_BLOCK_def slot_get_put_other)
qed

definition inode_view :: "super_block \<Rightarrow> locked_inode \<Rightarrow> (usize \<Rightarrow> u8 list) \<Rightarrow> usize \<Rightarrow> u8 list" where
  "inode_view sb li m = (let k = as_index (inode_block sb (li_ino li)) in
     m(k := block_put_inode (li_ino li) (disk_of (li_data li) (block_inode (m k) (li_ino li))) (m k)))"

lemma no_zero_addr:
  assumes "file_ok sb ino m a"
  shows "Some 0 \<notin> set a"
proof
  assume "Some 0 \<in> set a"
  then obtain i where "i < 13" "ref_at m a i = Some 0"
    using file_okD(1) [OF assms] by (auto simp: in_set_conv_nth ref_at_def)
  then show False
    using file_okD(2) [OF assms, of i 0] by (simp add: sys_block_def)
qed

lemma inode_update_wp:
  assumes t: "in_tx s0 {#} (Suc n) m s" and li: "li_dev li = ROOT_DEV" and ok: "layout_ok (fs_sb s0) (li_ino li) m" "file_ok (fs_sb s0) (li_ino li) m (addrs_of li)"
      "unat (id_major (li_data li)) < 2 ^ 16"
    and Q: "\<And>s'. in_tx s0 {#} n (inode_view (fs_sb s0) li m) s' \<Longrightarrow> Q () s'"
  shows "cwp (inode_update li) Q s"
proof -
  let ?b = "inode_block (fs_sb s0) (li_ino li)"
  have sb: "fs_sb s = fs_sb s0"
    using t by (auto elim: in_txD)
  note eq = write_repr_eq [OF ok(3) no_zero_addr [OF ok(2)]]
  let ?bs = "block_put_inode (li_ino li) (disk_of (li_data li) (block_inode (m (as_index ?b)) (li_ino li))) (m (as_index ?b))"
  have "length ?bs = 1024"
    using file_okD(1) [OF ok(2)] by (intro block_inode_put(2) in_tx_length [OF t]) (simp add: disk_of_def)
  then have w: "writes_block m (as_index ?b) (\<lambda>bg. bg_update bg (\<lambda>bs.
      obind (write_repr (li_data li) (block_inode bs (li_ino li))) (\<lambda>r. Ok (block_put_inode (li_ino li) r bs)))) () ?bs"
    by (intro writes_block_update) (simp_all add: eq)
  have "as_index ?b \<notin> log_area (fs_sb s0) 30"
    using ok(1) by (simp add: layout_ok_def)
  then show ?thesis
    unfolding inode_update_def cwp_bind cwp_simps sb li
    by (intro with_block_write_wp [OF t refl _ _ w] Q) (simp_all add: inode_view_def Let_def)
qed

section \<open>The write as a transaction\<close>

text \<open>A file depends on its own blocks and the bitmap only.\<close>

lemma file_cong:
  assumes ok: "layout_ok sb ino m" and eq: "\<And>c. in_size sb c \<Longrightarrow> as_index c \<notin> log_area sb 30 \<Longrightarrow> c \<noteq> inode_block sb ino \<Longrightarrow> m' (as_index c) = m (as_index c)"
  shows "in_size sb c \<Longrightarrow> allocated sb m' c = allocated sb m c" "layout_ok sb ino m'"
    "file_ok sb ino m a \<Longrightarrow> i < 269 \<Longrightarrow> ref_at m' a i = ref_at m a i" "file_ok sb ino m a \<Longrightarrow> refs m' a = refs m a"
    "file_ok sb ino m a \<Longrightarrow> file_ok sb ino m' a" "file_ok sb ino m a \<Longrightarrow> j < 268 * 1024 \<Longrightarrow> file_byte m' a j = file_byte m a j"
proof -
  have al: "allocated sb m' c = allocated sb m c" if "in_size sb c" for c
  proof -
    have "bmap_block sb c \<noteq> inode_block sb ino"
      using that ok by (auto simp: layout_ok_def is_bitmap_def)
    then show ?thesis
      using bitmap_markedD(3,5) [OF layout_marked [OF ok] that] by (intro allocated_cong eq)
  qed
  then show "in_size sb c \<Longrightarrow> allocated sb m' c = allocated sb m c" .
  show "layout_ok sb ino m'"
    using ok al unfolding layout_ok_def bitmap_marked_def by simp
  assume f: "file_ok sb ino m a"
  have own: "m' (as_index b) = m (as_index b)" if "ref_at m a i = Some b" "i < 269" for i b
    using file_okD(2) [OF f that] by (intro eq) (auto simp: sys_block_def)
  have r: "ref_at m' a i = ref_at m a i" for i
    using own [of 12] by (auto simp: ref_at_def split: option.split)
  show "ref_at m' a i = ref_at m a i" "refs m' a = refs m a"
    by (simp_all add: refs_def r)
  then show "file_ok sb ino m' a"
    using f al by (auto simp: file_ok_def r)
  assume "j < 268 * 1024"
  then have "ref_no (j div 1024) < 269"
    by (intro ref_no_less) simp
  then show "file_byte m' a j = file_byte m a j"
    using own [of "ref_no (j div 1024)"] by (auto simp: file_byte_def block_at_def r split: option.split)
qed

lemma inode_cong:
  assumes ok: "inode_ok sb m ino d" and eq: "\<And>c. in_size sb c \<Longrightarrow> as_index c \<notin> log_area sb 30 \<Longrightarrow> c \<noteq> inode_block sb ino \<Longrightarrow> m' (as_index c) = m (as_index c)"
  shows "inode_ok sb m' ino d" "content m' d = content m d"
proof -
  have o: "layout_ok sb ino m" "file_ok sb ino m (id_addrs d)" "unat (id_size d) \<le> 268 * 1024"
    using ok by (simp_all add: inode_ok_def)
  note c = file_cong [OF o(1) eq]
  show "content m' d = content m d"
    using c(6) [OF _ _ _ o(2)] o(3) by (auto simp: content_def)
  have "block_at m' (id_addrs d) i \<noteq> None" if i: "i * 1024 < unat (id_size d)" for i
  proof -
    have "i < 268"
      using i o(3) by linarith
    then show ?thesis
      using i ok c(3) [OF _ _ _ o(2) ref_no_less] by (simp add: inode_ok_def block_at_def)
  qed
  then show "inode_ok sb m' ino d"
    using ok c(2,5) unfolding inode_ok_def by blast
qed

definition put_size :: "nat \<Rightarrow> locked_inode \<Rightarrow> locked_inode" where
  "put_size n li = li\<lparr>li_data := (li_data li)\<lparr>id_size := of_nat n\<rparr>\<rparr>"

lemma write_inv_inode:
  assumes ok: "inode_ok sb m ino (li_data li)" and w: "write_inv sb ino off src m (addrs_of li) n m' a'"
    and off: "off \<le> unat (id_size (li_data li))" and sz: "off + length src \<le> 268 * 1024"
  defines "li' \<equiv> put_size (max (unat (id_size (li_data li))) (off + n)) (put_addrs a' li)" and "c \<equiv> content m (li_data li)"
  shows "inode_ok sb m' ino (li_data li')" "content m' (li_data li') = take off c @ take n src @ drop (off + n) c"
proof -
  let ?sz = "unat (id_size (li_data li))" and ?n = "max (unat (id_size (li_data li))) (off + n)"
  have n: "n \<le> length src" and st: "file_step sb ino m (addrs_of li) m' a'"
    using w by (simp_all add: write_inv_def)
  have b: "?sz \<le> 268 * 1024" "?n \<le> 268 * 1024"
    using ok n sz by (auto simp: inode_ok_def)
  then have u: "unat (of_nat ?n :: u32) = ?n"
    by (simp add: unat_of_nat)
  have d: "id_addrs (li_data li') = a'" "id_size (li_data li') = of_nat ?n" "id_major (li_data li') = id_major (li_data li)"
    by (simp_all add: li'_def put_size_def put_addrs_def)
  have "block_at m' a' i \<noteq> None" if i: "i * 1024 < ?n" for i
  proof (cases "i * 1024 < ?sz")
    case True
    then obtain b where "block_at m (addrs_of li) i = Some b" "i < 268"
      using ok b(1) by (force simp: inode_ok_def)
    then show ?thesis
      using block_at_step [OF st] by simp
  next
    case False
    then have "off \<le> i * 1024" "i * 1024 < off + n"
      using off i by auto
    then show ?thesis
      using w unfolding write_inv_def by fastforce
  qed
  then show "inode_ok sb m' ino (li_data li')"
    using st ok b unfolding inode_ok_def d u by (simp add: file_step_def)
  show "content m' (li_data li') = take off c @ take n src @ drop (off + n) c"
  proof (rule nth_equalityI)
    fix j assume "j < length (content m' (li_data li'))"
    then have j: "j < ?n"
      by (simp add: content_def d u)
    then have "content m' (li_data li') ! j = file_byte m' a' j"
      by (simp add: content_def d u)
    also have "\<dots> = (if off \<le> j \<and> j < off + n then src ! (j - off) else file_byte m (addrs_of li) j)"
      using w less_le_trans [OF j b(2)] unfolding write_inv_def by blast
    finally show "content m' (li_data li') ! j = (take off c @ take n src @ drop (off + n) c) ! j"
      using j off n by (auto simp: c_def content_def nth_append)
  qed (use off n in \<open>auto simp: c_def content_def d u\<close>)
qed

text \<open>The states in which a write ends, with the view \<open>m'\<close> of the blocks.\<close>

definition wrote :: "super_block \<Rightarrow> u8 list \<Rightarrow> nat \<Rightarrow> (usize \<Rightarrow> u8 list) \<Rightarrow> locked_inode \<Rightarrow> nat inode_result \<Rightarrow> (usize \<Rightarrow> u8 list) \<Rightarrow> bool" where
  "wrote sb src off m li r m' \<longleftrightarrow>
     (let ino = li_ino li; sz = unat (id_size (li_data li)) in
      r = (Inl FileTooLarge, li) \<and> m' = m \<and> 268 * 1024 < off + length src \<or>
      r = (Inl WriteOffsetTooLarge, li) \<and> m' = m \<and> off + length src \<le> 268 * 1024 \<and> sz < off \<or>
      off + length src \<le> 268 * 1024 \<and> off \<le> sz \<and> (\<exists>m1 a n. write_inv sb ino off src m (addrs_of li) n m1 a \<and> (n < length src \<longrightarrow> full sb m1) \<and>
        (if n = 0 \<and> src \<noteq> [] then r = (Inl StorageOutOfBlocks, put_addrs a li) \<and> m' = m1
         else r = (Inr n, put_size (max sz (off + n)) (put_addrs a li)) \<and> m' = inode_view sb (put_size (max sz (off + n)) (put_addrs a li)) m1)))"

lemma max_file: "MAX_FILE * 1024 = 268 * 1024"
  by (simp add: MAX_FILE_def NUM_DIRECT_REFS_def NUM_INDIRECT_REFS_def)

lemma put_size_same: "sz = unat (id_size (li_data li)) \<Longrightarrow> n \<le> sz \<Longrightarrow> put_size (max sz n) li = li"
  by (simp add: put_size_def)

lemma inode_write_wp:
  assumes t: "in_tx s0 {#} (6 * rounds off (length src) + 1) m s" and li: "li_dev li = ROOT_DEV" and ok: "inode_ok (fs_sb s0) m (li_ino li) (li_data li)"
    and Q: "\<And>r m' s'. in_tx s0 {#} 0 m' s' \<Longrightarrow> wrote (fs_sb s0) src off m li r m' \<Longrightarrow> Q r s'"
  shows "cwp (inode_write src off li) Q s"
proof -
  let ?sz = "unat (id_size (li_data li))"
  consider "268 * 1024 < off + length src" | "off + length src \<le> 268 * 1024" "?sz < off" | (loop) "off + length src \<le> 268 * 1024" "off \<le> ?sz"
    by linarith
  then show ?thesis
  proof cases
    case loop
    have w: "write_inv (fs_sb s0) (li_ino li) off src m (addrs_of li) 0 m (addrs_of li)"
      using ok by (auto simp: write_inv_def inode_ok_def file_step_refl)
    have "cwp (content_write_loop off 0 src li) (\<lambda>x. cwp (case x of (r, li) \<Rightarrow> case r of
          Inl e \<Rightarrow> creturn (Inl e, li)
        | Inr tot \<Rightarrow>
            let li = (if ?sz < off + tot then li\<lparr>li_data := (li_data li)\<lparr>id_size := of_nat (off + tot)\<rparr>\<rparr> else li) in
            cbind (clift (require (?sz < off + tot \<longrightarrow> off + tot < 2 ^ 32))) (\<lambda>_.
            cbind (inode_update li) (\<lambda>_. creturn (Inr tot, li)))) Q) s"
    proof (rule write_loop_wp [where n = 1, OF _ li loop(1) w], goal_cases)
      case (2 m1 a n s1)
      note inv = write_inv_inode [OF ok 2(2) loop(2,1)]
      let ?li = "put_size (max ?sz (off + n)) (put_addrs a li)"
      have e: "(if ?sz < off + n then (put_addrs a li)\<lparr>li_data := (li_data (put_addrs a li))\<lparr>id_size := of_nat (off + n)\<rparr>\<rparr> else put_addrs a li) = ?li"
        using put_size_same [of ?sz "put_addrs a li" "off + n"] by (simp add: put_size_def max_def)
      have b: "off + n < 2 ^ 32"
        using 2(2) loop(1) by (simp add: write_inv_def)
      have i: "li_dev ?li = ROOT_DEV" "li_ino ?li = li_ino li"
        by (simp_all add: put_size_def li)
      show ?case
      proof (cases "n = 0 \<and> src \<noteq> []")
        case True
        then show ?thesis
          using 2 loop by (auto intro!: Q [OF in_tx_weaken [OF 2(1)]] simp: wrote_def Let_def)
      next
        case False
        have "cwp (inode_update ?li) (\<lambda>_. Q (Inr n, ?li)) s1"
        proof (rule inode_update_wp [where ?s0.0 = s0 and n = 0 and m = m1, OF _ i(1)], goal_cases)
          case (5 s2)
          then show ?case
            using 2 False loop by (intro Q [OF 5]) (auto simp: wrote_def Let_def)
        qed (use 2(1) inv(1) in \<open>simp_all add: i(2) inode_ok_def\<close>)
        then show ?thesis
          unfolding if_not_P [OF False] prod.case sum.case Let_def e using b by (simp add: cwp_bind cwp_return_fun)
      qed
    qed (use t in simp)
    then show ?thesis
      unfolding inode_write_def Let_def max_file using loop by (simp add: cwp_bind)
  qed (use Q [OF in_tx_weaken [OF t]] in \<open>auto simp: inode_write_def Let_def max_file wrote_def\<close>)
qed

text \<open>
  What a write promises, on the content of the file as a list of bytes. The blocks that it allocates are blocks of the inode in memory. An error leaves
  the content and the inode on the disk as they were. Otherwise the first \<open>n\<close> bytes of the source replace those at the offset, less than all of them only when no block is free and then up to the end of a block, and the inode on
  the disk is the one in memory but for its minor device number.
\<close>

definition write_spec :: "super_block \<Rightarrow> u8 list \<Rightarrow> nat \<Rightarrow> (usize \<Rightarrow> u8 list) \<Rightarrow> locked_inode \<Rightarrow> kernel_error + nat \<Rightarrow> locked_inode \<Rightarrow> (usize \<Rightarrow> u8 list) \<Rightarrow> bool" where
  "write_spec sb src off m li r li' m' \<longleftrightarrow>
     (let c = content m (li_data li); c' = content m' (li_data li'); ib = as_index (inode_block sb (li_ino li)) in
      (\<forall>b. in_size sb b \<longrightarrow> allocated sb m' b \<longrightarrow> allocated sb m b \<or> b \<in> refs m' (addrs_of li')) \<and>
      (case r of
        Inl e \<Rightarrow> c' = c \<and> m' ib = m ib \<and>
          (e = FileTooLarge \<and> 268 * 1024 < off + length src \<or> e = WriteOffsetTooLarge \<and> length c < off \<or> e = StorageOutOfBlocks \<and> src \<noteq> [] \<and> full sb m')
      | Inr n \<Rightarrow> n \<le> length src \<and> off \<le> length c \<and> (n < length src \<longrightarrow> full sb m' \<and> (n = 0 \<or> (off + n) mod 1024 = 0)) \<and> c' = take off c @ take n src @ drop (off + n) c \<and>
          from_repr (block_inode (m' ib) (li_ino li)) = (li_data li')\<lparr>id_minor := di_minor (block_inode (m ib) (li_ino li))\<rparr>))"

text \<open>What a write keeps of the other files: their blocks stay allocated and keep their content, and so do the other inodes of the block of its inode.\<close>

definition others_kept :: "super_block \<Rightarrow> locked_inode \<Rightarrow> (usize \<Rightarrow> u8 list) \<Rightarrow> (usize \<Rightarrow> u8 list) \<Rightarrow> bool" where
  "others_kept sb li m m' \<longleftrightarrow>
     (\<forall>c. in_size sb c \<longrightarrow> allocated sb m c \<longrightarrow> allocated sb m' c \<and> (c \<notin> refs m (addrs_of li) \<longrightarrow> \<not> sys_block sb (li_ino li) c \<longrightarrow> m' (as_index c) = m (as_index c))) \<and>
     (\<forall>ino. ino mod 16 \<noteq> li_ino li mod 16 \<longrightarrow>
       block_inode (m' (as_index (inode_block sb (li_ino li)))) ino = block_inode (m (as_index (inode_block sb (li_ino li)))) ino)"

lemma inode_view_other: "c \<noteq> inode_block sb (li_ino li) \<Longrightarrow> inode_view sb li m (as_index c) = m (as_index c)"
  by (simp add: inode_view_def Let_def)

lemma full_cong: "layout_ok sb ino m \<Longrightarrow> (\<And>c. in_size sb c \<Longrightarrow> as_index c \<notin> log_area sb 30 \<Longrightarrow> c \<noteq> inode_block sb ino \<Longrightarrow> m' (as_index c) = m (as_index c)) \<Longrightarrow>
   full sb m \<Longrightarrow> full sb m'"
  using file_cong(1) by blast

lemma write_inv_inode_block:
  assumes ok: "inode_ok sb m ino (li_data li)" and w: "write_inv sb ino off src m (addrs_of li) n m' a'"
  shows "m' (as_index (inode_block sb ino)) = m (as_index (inode_block sb ino))"
proof -
  have o: "layout_ok sb ino m" "file_ok sb ino m (addrs_of li)" and st: "file_step sb ino m (addrs_of li) m' a'"
    using ok w by (simp_all add: inode_ok_def write_inv_def)
  have "inode_block sb ino \<notin> refs m (addrs_of li)"
    using o(2) by (auto simp: file_ok_def sys_block_def)
  then show ?thesis
    using o(1) by (intro file_stepD(6) [OF st]) (auto simp: layout_ok_def)
qed

lemma write_inv_new:
  "write_inv sb ino off src m a n m' a' \<Longrightarrow> in_size sb b \<Longrightarrow> allocated sb m' b \<Longrightarrow> allocated sb m b \<or> b \<in> refs m' a'"
  using file_stepD(4) unfolding write_inv_def by blast

lemma write_inv_others:
  assumes w: "write_inv sb (li_ino li) off src m (addrs_of li) n m' a'" and c: "in_size sb c" "allocated sb m c"
  shows "allocated sb m' c" "c \<notin> refs m (addrs_of li) \<Longrightarrow> \<not> sys_block sb (li_ino li) c \<Longrightarrow> m' (as_index c) = m (as_index c)"
proof -
  have st: "file_step sb (li_ino li) m (addrs_of li) m' a'"
    using w by (simp add: write_inv_def)
  show "allocated sb m' c"
    using file_stepD(4) [OF st c(1)] c(2) by simp
  show "c \<notin> refs m (addrs_of li) \<Longrightarrow> \<not> sys_block sb (li_ino li) c \<Longrightarrow> m' (as_index c) = m (as_index c)"
    using file_stepD(6) [OF st c] by (simp add: sys_block_def)
qed

lemma inode_view_file:
  assumes ok: "inode_ok sb m (li_ino li) (li_data li)" and len: "length (m (as_index (inode_block sb (li_ino li)))) = 1024"
  shows "inode_ok sb (inode_view sb li m) (li_ino li) (li_data li)" "content (inode_view sb li m) (li_data li) = content m (li_data li)"
    "full sb m \<Longrightarrow> full sb (inode_view sb li m)" "in_size sb c \<Longrightarrow> allocated sb (inode_view sb li m) c = allocated sb m c"
    "from_repr (block_inode (inode_view sb li m (as_index (inode_block sb (li_ino li)))) (li_ino li)) =
      (li_data li)\<lparr>id_minor := di_minor (block_inode (m (as_index (inode_block sb (li_ino li)))) (li_ino li))\<rparr>"
    "ino mod 16 \<noteq> li_ino li mod 16 \<Longrightarrow> block_inode (inode_view sb li m (as_index (inode_block sb (li_ino li)))) ino =
      block_inode (m (as_index (inode_block sb (li_ino li)))) ino"
    "refs (inode_view sb li m) (addrs_of li) = refs m (addrs_of li)"
proof -
  let ?b = "as_index (inode_block sb (li_ino li))"
  have o: "layout_ok sb (li_ino li) m" "file_ok sb (li_ino li) m (addrs_of li)" "unat (id_major (li_data li)) < 2 ^ 16"
    using ok by (simp_all add: inode_ok_def)
  show "inode_ok sb (inode_view sb li m) (li_ino li) (li_data li)" "content (inode_view sb li m) (li_data li) = content m (li_data li)"
    by (rule inode_cong [OF ok], rule inode_view_other, assumption)+
  have al: "allocated sb (inode_view sb li m) c = allocated sb m c" if "in_size sb c" for c
    by (rule file_cong(1) [OF o(1) _ that]) (rule inode_view_other)
  then show "in_size sb c \<Longrightarrow> allocated sb (inode_view sb li m) c = allocated sb m c" "full sb m \<Longrightarrow> full sb (inode_view sb li m)"
    by simp_all
  show "refs (inode_view sb li m) (addrs_of li) = refs m (addrs_of li)"
    by (rule file_cong(4) [OF o(1) _ o(2)]) (rule inode_view_other)
  have v: "inode_view sb li m ?b = block_put_inode (li_ino li) (disk_of (li_data li) (block_inode (m ?b) (li_ino li))) (m ?b)"
    by (simp add: inode_view_def Let_def)
  have a: "length (di_addrs (disk_of (li_data li) (block_inode (m ?b) (li_ino li)))) = 13"
    using file_okD(1) [OF o(2)] by (simp add: disk_of_def)
  show "from_repr (block_inode (inode_view sb li m ?b) (li_ino li)) = (li_data li)\<lparr>id_minor := di_minor (block_inode (m ?b) (li_ino li))\<rparr>"
    unfolding v block_inode_put(1) [OF len a] by (rule from_repr_disk_of [OF o(3) no_zero_addr [OF o(2)]])
  show "ino mod 16 \<noteq> li_ino li mod 16 \<Longrightarrow> block_inode (inode_view sb li m ?b) ino = block_inode (m ?b) ino"
    unfolding v by (rule block_inode_put(3) [OF len a])
qed

lemma wrote_spec:
  assumes ok: "inode_ok sb m (li_ino li) (li_data li)" and len: "\<And>j. length (m j) = 1024" and w: "wrote sb src off m li r m'"
  shows "li_ino (snd r) = li_ino li \<and> inode_ok sb m' (li_ino li) (li_data (snd r)) \<and> write_spec sb src off m li (fst r) (snd r) m' \<and> others_kept sb li m m'"
  using w unfolding wrote_def Let_def
proof (elim disjE conjE exE)
  fix m1 a n
  let ?sz = "unat (id_size (li_data li))"
  let ?li = "put_size (max ?sz (off + n)) (put_addrs a li)" and ?ib = "as_index (inode_block sb (li_ino li))"
  assume b: "off + length src \<le> 268 * 1024" "off \<le> ?sz" and i: "write_inv sb (li_ino li) off src m (addrs_of li) n m1 a" and f: "n < length src \<longrightarrow> full sb m1"
    and r: "if n = 0 \<and> src \<noteq> [] then r = (Inl StorageOutOfBlocks, put_addrs a li) \<and> m' = m1 else r = (Inr n, ?li) \<and> m' = inode_view sb ?li m1"
  note inv = write_inv_inode [OF ok i b(2,1)] and ib = write_inv_inode_block [OF ok i] and others = write_inv_others [OF i]
  show ?thesis
  proof (cases "n = 0 \<and> src \<noteq> []")
    case True
    then have "?li = put_addrs a li"
      using b(2) by (intro put_size_same) simp_all
    then show ?thesis
      using r True f inv ib others b write_inv_new [OF i] by (simp add: write_spec_def others_kept_def Let_def)
  next
    case False
    have l: "li_ino ?li = li_ino li" "addrs_of ?li = a"
      by (simp_all add: put_size_def put_addrs_def)
    have n: "n \<le> length src" "n = 0 \<or> n = length src \<or> (off + n) mod 1024 = 0" "length (content m (li_data li)) = ?sz"
      using i by (simp_all add: write_inv_def content_def)
    note v = inode_view_file [of sb m1 ?li, unfolded l, OF inv(1), unfolded ib, OF len]
    have "inode_view sb ?li m1 (as_index c) = m (as_index c)" if "in_size sb c" "allocated sb m c" "c \<notin> refs m (addrs_of li)" "\<not> sys_block sb (li_ino li) c" for c
      using inode_view_other [of c sb ?li m1] others(2) [OF that] that(4) by (simp add: l sys_block_def)
    then have "others_kept sb li m m'"
      using r others(1) v(4,6) unfolding others_kept_def if_not_P [OF False] by simp
    then show ?thesis
      using r v n b f inv(2) l write_inv_new [OF i] unfolding if_not_P [OF False] by (auto simp: write_spec_def Let_def)
  qed
qed (use ok in \<open>auto simp: write_spec_def others_kept_def content_def\<close>)

text \<open>The same of the blocks on the disk, which differ from the view of a transaction in the log only.\<close>

lemma view_cong:
  assumes "\<And>c. m1 (as_index c) = m (as_index c)"
  shows "allocated sb m1 c = allocated sb m c" "refs m1 a = refs m a" "content m1 d = content m d" "inode_ok sb m1 ino d = inode_ok sb m ino d"
proof -
  have al: "allocated sb m1 c = allocated sb m c" for c
    by (rule allocated_cong) (rule assms)
  have r: "ref_at m1 a i = ref_at m a i" for a i
    by (simp add: ref_at_def assms cong: option.case_cong)
  show "allocated sb m1 c = allocated sb m c" "refs m1 a = refs m a" "content m1 d = content m d"
    by (simp_all add: al refs_def r content_def file_byte_def block_at_def assms cong: option.case_cong)
  show "inode_ok sb m1 ino d = inode_ok sb m ino d"
    by (simp add: inode_ok_def layout_ok_def bitmap_marked_def file_ok_def refs_def block_at_def al r)
qed

lemma disk_spec:
  assumes m: "\<And>c. m1 (as_index c) = m (as_index c)" and m': "\<And>c. as_index c \<notin> log_area sb 30 \<Longrightarrow> m2 (as_index c) = m' (as_index c)"
    and ok: "inode_ok sb m' (li_ino li) (li_data li')" and w: "write_spec sb src off m li r li' m'" and o: "others_kept sb li m m'"
  shows "inode_ok sb m2 (li_ino li) (li_data li')" "write_spec sb src off m1 li r li' m2" "others_kept sb li m1 m2"
proof -
  note v = view_cong [of m1 m, OF m]
  have lay: "layout_ok sb (li_ino li) m'"
    using ok by (simp add: inode_ok_def)
  have ib: "m2 (as_index (inode_block sb (li_ino li))) = m' (as_index (inode_block sb (li_ino li)))"
    using lay by (intro m') (simp add: layout_ok_def)
  show "inode_ok sb m2 (li_ino li) (li_data li')"
    by (rule inode_cong(1) [OF ok]) (rule m')
  have c: "content m2 (li_data li') = content m' (li_data li')"
    by (rule inode_cong(2) [OF ok]) (rule m')
  have al: "allocated sb m2 c = allocated sb m' c" if "in_size sb c" for c
    by (rule file_cong(1) [OF lay _ that]) (rule m')
  have "refs m2 (addrs_of li') = refs m' (addrs_of li')"
    by (rule file_cong(4) [OF lay]) (use m' ok in \<open>simp_all add: inode_ok_def\<close>)
  then show "write_spec sb src off m1 li r li' m2"
    using w al unfolding write_spec_def Let_def v c ib m by (cases r) simp_all
  show "others_kept sb li m1 m2"
    using o m' unfolding others_kept_def v ib m by (auto simp: al sys_block_def)
qed

definition write_tx :: "u8 list \<Rightarrow> nat \<Rightarrow> locked_inode \<Rightarrow> ('z, nat inode_result) log_call" where
  "write_tx src off li = cbind (begin_op False) (\<lambda>_. cbind (inode_write src off li) (\<lambda>r. cbind (tx_drop False) (\<lambda>_. creturn r)))"

lemma rounds_max: "length src \<le> 3072 \<Longrightarrow> rounds off (length src) \<le> 4"
  using mod_less_divisor [of 1024 off] by (simp add: rounds_def) linarith

lemma write_tx_wp:
  assumes idle: "log_idle s" and log: "25 < max_log_len (fs_sb s)" and li: "li_dev li = ROOT_DEV" and ok: "inode_ok (fs_sb s) (disk_view s) (li_ino li) (li_data li)"
    and src: "length src \<le> 3072"
  shows "cwp (write_tx src off li) (\<lambda>r s'. log_idle s' \<and> fs_sb s' = fs_sb s \<and> inode_ok (fs_sb s) (disk_view s') (li_ino li) (li_data (snd r)) \<and>
    write_spec (fs_sb s) src off (disk_view s) li (fst r) (snd r) (disk_view s') \<and> others_kept (fs_sb s) li (disk_view s) (disk_view s')) s"
  unfolding write_tx_def
proof (rule run_in_tx [OF idle])
  let ?s0 = "s\<lparr>fs_log := (fs_log s)\<lparr>ld_outstanding := 1\<rparr>\<rparr>" and ?m = "cview (fs_cache s)"
  have view: "?m (as_index c) = disk_view s (as_index c)" for c
    by (rule cview_idle [OF idle as_index_range])
  have ok': "inode_ok (fs_sb ?s0) ?m (li_ino li) (li_data li)"
    using ok view_cong(4) [of ?m "disk_view s", OF view] by simp
  have t: "in_tx ?s0 {#} (6 * rounds off (length src) + 1) ?m ?s0"
    using in_tx_begin [OF idle, of "6 * rounds off (length src) + 1"] rounds_max [OF src, of off] log by simp
  show "cwp (inode_write src off li) (\<lambda>r. cwp (tx_drop False) (\<lambda>_ s'. log_idle s' \<and> fs_sb s' = fs_sb s \<and> inode_ok (fs_sb s) (disk_view s') (li_ino li) (li_data (snd r)) \<and>
    write_spec (fs_sb s) src off (disk_view s) li (fst r) (snd r) (disk_view s') \<and> others_kept (fs_sb s) li (disk_view s) (disk_view s'))) ?s0"
  proof (rule inode_write_wp [OF t li ok'], goal_cases)
    case (1 r m' s1)
    note w = wrote_spec [OF ok' in_tx_length [OF t] 1(2)]
    show ?case
    proof (rule tx_commit_wp [OF 1(1)], simp, goal_cases)
      case (1 s')
      then have "disk_view s' (as_index c) = m' (as_index c)" if "as_index c \<notin> log_area (fs_sb s) 30" for c
        using that as_index_range [of c] by simp
      then show ?case
        using disk_spec [of "disk_view s" ?m "fs_sb s" "disk_view s'" m' li "snd r" src off "fst r"] w view 1 by simp
    qed
  qed
qed

text \<open>A read-only transaction that loads the inode from the disk and reads a range of its content.\<close>

definition read_tx :: "inode_no \<Rightarrow> nat \<Rightarrow> nat \<Rightarrow> ('z, kernel_error + u8 list) log_call" where
  "read_tx ino n off =
     cbind (read_inode True ROOT_DEV ino) (\<lambda>li. cbind (inode_read True n off li) (\<lambda>r. cbind (tx_drop True) (\<lambda>_. creturn (fst r))))"

abbreviation disk_inode_at :: "super_block \<Rightarrow> (usize \<Rightarrow> u8 list) \<Rightarrow> inode_no \<Rightarrow> inode_data" where
  "disk_inode_at sb m ino \<equiv> from_repr (block_inode (m (as_index (inode_block sb ino))) ino)"

lemma read_tx_wp:
  assumes idle: "log_idle s" and ok: "inode_ok (fs_sb s) (disk_view s) ino (disk_inode_at (fs_sb s) (disk_view s) ino)" and n: "off + n < 2 ^ 64"
  shows "cwp (read_tx ino n off) (\<lambda>r s'. r = Inr (take n (drop off (content (disk_view s) (disk_inode_at (fs_sb s) (disk_view s) ino)))) \<and>
    log_idle s' \<and> disk_view s' = disk_view s) s"
proof -
  let ?m = "cview (fs_cache s)" and ?k = "as_index (inode_block (fs_sb s) ino)"
  let ?li = "\<lparr>li_dev = ROOT_DEV, li_ino = ino, li_data = from_repr (block_inode (?m ?k) ino)\<rparr>"
  have view: "?m (as_index c) = disk_view s (as_index c)" for c
    by (rule cview_idle [OF idle as_index_range])
  note v = view_cong(3,4) [of ?m "disk_view s", OF view]
  have i: "idle_at s ?m s"
    using idle by (simp add: idle_at_def)
  show ?thesis
    unfolding read_tx_def read_inode_def cwp_bind cwp_simps
  proof (rule with_block_idle_wp [OF i refl reads_block_return], rule idle_reader.read_wp [where sb = "fs_sb s" and ino = ino], assumption, goal_cases)
    case (2 s')
    show ?case
      using ok by (simp add: v view)
  next
    case (3 s1 s2)
    then show ?case
      using n by (simp add: idle_at_def tx_drop_def v view)
  qed simp
qed

lemma minor_irrelevant: "inode_ok sb m ino (d\<lparr>id_minor := x\<rparr>) = inode_ok sb m ino d" "content m (d\<lparr>id_minor := x\<rparr>) = content m d"
  by (simp_all add: inode_ok_def content_def)

text \<open>
  C1. A write to a file, committed as a transaction, implements the replacement of a range of a list of bytes: from a sound inode on an idle file
  system, up to 3072 bytes at any offset, it never panics and reaches an idle state in which the inode is sound again and the content on the disk is
  the old one with the first \<open>n\<close> bytes of the source at the offset, where \<open>n\<close> is their number but when no block is free; the inode on the disk is then
  the one in memory except for the minor number. An error is one of the three the code names, and keeps the content and the inode on the disk. The
  allocated blocks of other files, their content and the neighbouring inodes are kept in every case.
\<close>

theorem inode_write_commits:
  assumes "log_idle s" and "25 < max_log_len (fs_sb s)" and "li_dev li = ROOT_DEV" and "inode_ok (fs_sb s) (disk_view s) (li_ino li) (li_data li)"
    and "length src \<le> 3072"
  shows "\<exists>r li' s'. write_tx src off li s = (Ok (r, li'), s') \<and> log_idle s' \<and> fs_sb s' = fs_sb s \<and>
    inode_ok (fs_sb s) (disk_view s') (li_ino li) (li_data li') \<and> write_spec (fs_sb s) src off (disk_view s) li r li' (disk_view s') \<and>
    others_kept (fs_sb s) li (disk_view s) (disk_view s')"
  using write_tx_wp [OF assms] by (auto simp: cwp_def)

text \<open>
  C13. What was written is read back from the disk: when a write returns \<open>n\<close>, a later read-only transaction that loads the inode anew
  reads, at any range, the bytes of the content with the first \<open>n\<close> bytes of the source at the offset, and changes nothing on the disk.
\<close>

theorem inode_write_read_back:
  assumes "log_idle s" and "25 < max_log_len (fs_sb s)" and "li_dev li = ROOT_DEV" and "inode_ok (fs_sb s) (disk_view s) (li_ino li) (li_data li)"
    and "length src \<le> 3072" and w: "write_tx src off li s = (Ok (Inr n, li'), s1)" and pos: "pos + len < 2 ^ 64"
  shows "\<exists>s2. read_tx (li_ino li) len pos s1 =
      (Ok (Inr (take len (drop pos (take off (content (disk_view s) (li_data li)) @ take n src @ drop (off + n) (content (disk_view s) (li_data li)))))), s2) \<and>
    log_idle s2 \<and> disk_view s2 = disk_view s1"
proof -
  have p: "log_idle s1" "fs_sb s1 = fs_sb s" "inode_ok (fs_sb s) (disk_view s1) (li_ino li) (li_data li')" "write_spec (fs_sb s) src off (disk_view s) li (Inr n) li' (disk_view s1)"
    using write_tx_wp [OF assms(1-5), of off] w by (auto simp: cwp_def)
  then have d: "disk_inode_at (fs_sb s) (disk_view s1) (li_ino li) =
      (li_data li')\<lparr>id_minor := di_minor (block_inode (disk_view s (as_index (inode_block (fs_sb s) (li_ino li)))) (li_ino li))\<rparr>"
    and c: "content (disk_view s1) (li_data li') = take off (content (disk_view s) (li_data li)) @ take n src @ drop (off + n) (content (disk_view s) (li_data li))"
    unfolding write_spec_def Let_def by simp_all
  have "inode_ok (fs_sb s1) (disk_view s1) (li_ino li) (disk_inode_at (fs_sb s1) (disk_view s1) (li_ino li))"
    using p(2,3) by (simp add: d minor_irrelevant)
  from read_tx_wp [OF p(1) this pos] show ?thesis
    by (auto simp: cwp_def p(2) d minor_irrelevant c)
qed

section \<open>Witnesses\<close>

text \<open>An empty file with the inode 1 on the disk of the example of the bitmap.\<close>

definition example_file :: locked_inode where
  "example_file = \<lparr>li_dev = ROOT_DEV, li_ino = 1,
     li_data = \<lparr>id_ty = T_FILE, id_major = 0, id_minor = 0, id_nlink = 1, id_size = 0, id_addrs = replicate 13 None\<rparr>\<rparr>"

lemma example_file_ok: "inode_ok example_sb (disk_block bitmap_disk) (li_ino example_file) (li_data example_file)"
proof -
  have ib: "inode_block example_sb 1 = 32"
    by (simp add: inode_block_def example_sb_def INODE_PER_BLOCK_def)
  have "\<not> is_bitmap example_sb 32"
  proof
    assume "is_bitmap example_sb 32"
    then obtain b where "unat b < 2000" "32 = bmap_block example_sb b"
      by (auto simp: is_bitmap_def in_size_def example_sb_def)
    then show False
      by (auto simp: bmap_block_def example_sb_def BITS_PER_BLOCK_def word_unat_eq_iff unat_word_ariths unat_div)
  qed
  moreover have "as_index 32 \<notin> log_area example_sb 30"
    using example_log_blocks [of 32] by auto
  moreover have "ref_at m (replicate 13 None) i = None" for m i
    by (simp add: ref_at_def nth_replicate)
  ultimately show ?thesis
    using bitmap_disk_marked bitmap_disk_allocated [of 32]
    by (simp add: inode_ok_def layout_ok_def file_ok_def refs_def example_file_def ib in_size_def) (simp add: example_sb_def)
qed

text \<open>A file refers to at most 269 blocks, fewer than are free.\<close>

lemma card_refs: "finite (refs m a)" "card (refs m a) \<le> 269"
proof -
  have s: "refs m a \<subseteq> (the \<circ> ref_at m a) ` {..<269}"
    by (force simp: refs_def)
  then show "finite (refs m a)"
    by (rule finite_subset) simp
  have "card ((the \<circ> ref_at m a) ` {..<269::nat}) \<le> 269"
    using card_image_le [of "{..<269::nat}" "the \<circ> ref_at m a"] by simp
  then show "card (refs m a) \<le> 269"
    using card_mono [OF _ s] by simp
qed

lemma example_not_full:
  assumes "\<And>b. in_size example_sb b \<Longrightarrow> allocated example_sb m' b \<Longrightarrow> allocated example_sb (disk_block bitmap_disk) b \<or> b \<in> refs m' a"
  shows "\<not> full example_sb m'"
proof
  assume f: "full example_sb m'"
  define J :: "nat set" where "J = {48..<2000}"
  have u: "unat (of_nat i :: u32) = i" "48 \<le> i" "i < 2000" if "i \<in> J" for i
    using that by (simp_all add: J_def unat_of_nat)
  have "(of_nat ` J :: u32 set) \<subseteq> refs m' a"
  proof (rule image_subsetI)
    fix i assume i: "i \<in> J"
    have s: "in_size example_sb (of_nat i)"
      using u [OF i] by (simp add: in_size_def example_sb_def)
    moreover have "\<not> allocated example_sb (disk_block bitmap_disk) (of_nat i)"
      using u [OF i] bitmap_disk_allocated [of "of_nat i"] by simp
    ultimately show "of_nat i \<in> refs m' a"
      using assms [OF s f [rule_format, OF s]] by simp
  qed
  then have "card (of_nat ` J :: u32 set) \<le> 269"
    by (rule order.trans [OF card_mono [OF card_refs(1)] card_refs(2)])
  moreover have "inj_on (of_nat :: nat \<Rightarrow> u32) J"
    by (rule inj_on_inverseI [of _ unat]) (rule u(1))
  then have "card (of_nat ` J :: u32 set) = card J"
    by (rule card_image)
  ultimately show False
    by (simp add: J_def)
qed

lemma example_setup:
  obtains c where "block_io_init bitmap_disk = Ok c" "log_idle (example_fs c)" "disk_view (example_fs c) = disk_block bitmap_disk" "fs_sb (example_fs c) = example_sb"
proof -
  obtain c where c: "block_io_init bitmap_disk = Ok c"
    by (simp add: block_io_init_def bio_new_def lru_new_def NBUF_def MAX_OP_BLOCKS_def)
  have "bio_device (fs_cache (example_fs c)) = bitmap_disk"
    using c by (auto simp: example_fs_def block_io_init_def bio_new_def split: if_splits)
  then show thesis
    using that [OF c example_idle [OF c]] by (simp add: example_fs_def)
qed

lemma example_log_25: "25 < max_log_len example_sb"
  by (simp add: max_log_len_def example_sb_def)

lemma example_written:
  assumes "write_spec example_sb [104, 105] 0 (disk_block bitmap_disk) example_file r li' m'"
  shows "r = Inr 2" "content m' (li_data li') = [104, 105]"
proof -
  have c: "content (disk_block bitmap_disk) (li_data example_file) = []"
    by (simp add: content_def example_file_def)
  have "\<not> full example_sb m'"
    by (rule example_not_full [where a = "addrs_of li'"]) (use assms in \<open>simp add: write_spec_def Let_def\<close>)
  then show "r = Inr 2" "content m' (li_data li') = [104, 105]"
    using assms unfolding write_spec_def Let_def c by (auto split: sum.splits simp: le_less_Suc_eq numeral_2_eq_2)
qed

lemma example_file_dev: "li_dev example_file = ROOT_DEV" "li_ino example_file = 1"
  by (simp_all add: example_file_def)

theorem inode_write_commits_witness:
  "\<exists>c li' s'. block_io_init bitmap_disk = Ok c \<and> write_tx [104, 105] 0 example_file (example_fs c) = (Ok (Inr 2, li'), s') \<and>
    content (disk_view s') (li_data li') = [104, 105]"
proof (rule example_setup)
  fix c assume c: "block_io_init bitmap_disk = Ok c" "log_idle (example_fs c)" "disk_view (example_fs c) = disk_block bitmap_disk" "fs_sb (example_fs c) = example_sb"
  have "length [104, 105 :: u8] \<le> 3072"
    by simp
  from inode_write_commits [OF c(2), unfolded c(3,4), OF example_log_25 example_file_dev(1) example_file_ok this, of 0] show ?thesis
    using c(1) example_written by blast
qed

theorem inode_write_read_back_witness:
  "\<exists>c li' s1 s2. block_io_init bitmap_disk = Ok c \<and> write_tx [104, 105] 0 example_file (example_fs c) = (Ok (Inr 2, li'), s1) \<and>
    read_tx 1 10 1 s1 = (Ok (Inr [105]), s2)"
proof (rule example_setup)
  fix c assume c: "block_io_init bitmap_disk = Ok c" "log_idle (example_fs c)" "disk_view (example_fs c) = disk_block bitmap_disk" "fs_sb (example_fs c) = example_sb"
  have l: "length [104, 105 :: u8] \<le> 3072" and n: "1 + 10 < (2 :: nat) ^ 64"
    by simp_all
  obtain r li' s1 where w: "write_tx [104, 105] 0 example_file (example_fs c) = (Ok (r, li'), s1)"
      and spec: "write_spec example_sb [104, 105] 0 (disk_block bitmap_disk) example_file r li' (disk_view s1)"
    using write_tx_wp [OF c(2), unfolded c(3,4), OF example_log_25 example_file_dev(1) example_file_ok l, of 0] by (auto simp: cwp_def)
  have w2: "write_tx [104, 105] 0 example_file (example_fs c) = (Ok (Inr 2, li'), s1)"
    using w example_written(1) [OF spec] by simp
  have e: "content (disk_block bitmap_disk) (li_data example_file) = []"
    by (simp add: content_def example_file_def)
  from inode_write_read_back [OF c(2), unfolded c(3,4), OF example_log_25 example_file_dev(1) example_file_ok l w2 n] show ?thesis
    using c(1) w2 by (auto simp: e example_file_dev)
qed

end
