(* ===== verification/Pipe.thy ===== *)
theory Pipe
  imports Kernel_Error
begin

text \<open>
  Pipes: \<^verbatim>\<open>ov6_kernel/src/file/pipe.rs\<close> with the condition variables of \<^verbatim>\<open>sync/spin_lock.rs\<close>. A call holds the lock of the
  pipe from its start or its return from a wait to its next wait or its end; such a section is one step, and the return of a woken process from its sleep is another. The system
  of a pipe and any number of processes that call it is a step relation, which also keeps the bytes that were written and
  read.
\<close>

section \<open>The pipe\<close>

definition PIPE_SIZE :: usize where "PIPE_SIZE = 512"

record pipe =
  pi_data :: "u8 list"
  pi_nread :: usize
  pi_nwrite :: usize
  pi_read_open :: bool
  pi_write_open :: bool

definition pipe_new :: pipe where
  "pipe_new = \<lparr>pi_data = replicate (unat PIPE_SIZE) 0, pi_nread = 0, pi_nwrite = 0, pi_read_open = True, pi_write_open = True\<rparr>"

definition pipe_close :: "bool \<Rightarrow> pipe \<Rightarrow> pipe" where
  "pipe_close writable pi = (if writable then pi\<lparr>pi_write_open := False\<rparr> else pi\<lparr>pi_read_open := False\<rparr>)"

text \<open>How a section of a call ends: by a return, or in a wait.\<close>

datatype 'a section_end = Return "kernel_error + 'a" | Wait

text \<open>The loop of \<^verbatim>\<open>write\<close> on the bytes of the user slice, with the number that is written.\<close>

function write_loop :: "u8 list \<Rightarrow> nat \<Rightarrow> pipe \<Rightarrow> nat section_end \<times> nat \<times> pipe" where
  "write_loop src nwritten pi =
     (if nwritten < length src
      then
        if \<not> pi_read_open pi
        then (if 0 < nwritten then (Return (Inr nwritten), nwritten, pi) else (Return (Inl BrokenPipe), nwritten, pi))
        else if pi_nwrite pi = pi_nread pi + PIPE_SIZE then (Wait, nwritten, pi)
        else
          let idx = pi_nwrite pi mod PIPE_SIZE in
          write_loop src (nwritten + 1)
            (pi\<lparr>pi_data := (pi_data pi)[unat idx := src ! nwritten], pi_nwrite := pi_nwrite pi + 1\<rparr>)
      else (Return (Inr nwritten), nwritten, pi))"
  by pat_completeness auto
termination
  by (relation "measure (\<lambda>(src, nwritten, pi). length src - nwritten)") auto

declare write_loop.simps [simp del]

text \<open>Whether the section notifies \<^verbatim>\<open>reader_cond\<close>: it does unless it returns the error.\<close>

fun write_notifies :: "nat section_end \<Rightarrow> bool" where
  "write_notifies (Return (Inl e)) = False"
| "write_notifies _ = True"

text \<open>The second loop of \<^verbatim>\<open>read\<close>, and \<^verbatim>\<open>read\<close>; a read gives the bytes that it copies out.\<close>

fun read_loop :: "nat \<Rightarrow> pipe \<Rightarrow> u8 list \<times> pipe" where
  "read_loop 0 pi = ([], pi)"
| "read_loop (Suc len) pi =
     (if pi_nread pi = pi_nwrite pi then ([], pi)
      else
        let ch = pi_data pi ! unat (pi_nread pi mod PIPE_SIZE);
            (bs, pi) = read_loop len (pi\<lparr>pi_nread := pi_nread pi + 1\<rparr>)
        in (ch # bs, pi))"

definition read_section :: "nat \<Rightarrow> pipe \<Rightarrow> u8 list section_end \<times> pipe" where
  "read_section len pi =
     (if pi_nread pi = pi_nwrite pi \<and> pi_write_open pi then (Wait, pi)
      else let (bs, pi) = read_loop len pi in (Return (Inr bs), pi))"

section \<open>Processes\<close>

datatype pipe_call =
    NoCall
  | Writing "u8 list" nat
  | WriteWait "u8 list" nat
  | WriteWoken "u8 list" nat
  | Wrote "kernel_error + nat"
  | Reading nat
  | ReadWait nat
  | ReadWoken nat
  | HasRead "kernel_error + u8 list"

record pipe_system =
  ps_pipe :: pipe
  ps_calls :: "nat \<Rightarrow> pipe_call"
  ps_killed :: "nat set"
  ps_written :: "u8 list"
  ps_read :: "u8 list"

text \<open>
  \<^verbatim>\<open>notify\<close> makes all processes that sleep on the condition variable runnable. Such a process reads its kill flag
  before it takes the lock of the pipe again.
\<close>

fun wake_reader :: "pipe_call \<Rightarrow> pipe_call" where
  "wake_reader (ReadWait len) = ReadWoken len"
| "wake_reader c = c"

fun wake_writer :: "pipe_call \<Rightarrow> pipe_call" where
  "wake_writer (WriteWait src n) = WriteWoken src n"
| "wake_writer c = c"

text \<open>A wait of a process that is killed returns an error at once.\<close>

definition after_write :: "bool \<Rightarrow> u8 list \<Rightarrow> nat section_end \<Rightarrow> nat \<Rightarrow> pipe_call" where
  "after_write killed src e n =
     (case e of
        Return r \<Rightarrow> Wrote r
      | Wait \<Rightarrow> if killed then Wrote (Inl CallerProcessAlreadyKilled) else WriteWait src n)"

definition after_read :: "bool \<Rightarrow> nat \<Rightarrow> u8 list section_end \<Rightarrow> pipe_call" where
  "after_read killed len e =
     (case e of
        Return r \<Rightarrow> HasRead r
      | Wait \<Rightarrow> if killed then HasRead (Inl CallerProcessAlreadyKilled) else ReadWait len)"

definition idle :: "pipe_call \<Rightarrow> bool" where
  "idle c \<longleftrightarrow> c \<in> {NoCall} \<union> range Wrote \<union> range HasRead"

text \<open>A step of the given process. The ends are closed and processes are killed by any process.\<close>

inductive pipe_step :: "nat \<Rightarrow> pipe_system \<Rightarrow> pipe_system \<Rightarrow> bool" where
  call_write: "idle (ps_calls s p) \<Longrightarrow> pipe_step p s (s\<lparr>ps_calls := (ps_calls s)(p := Writing src 0)\<rparr>)"
| call_read: "idle (ps_calls s p) \<Longrightarrow> pipe_step p s (s\<lparr>ps_calls := (ps_calls s)(p := Reading len)\<rparr>)"
| run_write: "ps_calls s p = Writing src n \<Longrightarrow> write_loop src n (ps_pipe s) = (e, n', pi') \<Longrightarrow>
    calls = (if write_notifies e then wake_reader \<circ> ps_calls s else ps_calls s) \<Longrightarrow>
    pipe_step p s (s\<lparr>ps_pipe := pi', ps_calls := calls(p := after_write (p \<in> ps_killed s) src e n'),
      ps_written := ps_written s @ take (n' - n) (drop n src)\<rparr>)"
| run_read: "ps_calls s p = Reading len \<Longrightarrow> read_section len (ps_pipe s) = (e, pi') \<Longrightarrow>
    calls = (if e = Wait then ps_calls s else wake_writer \<circ> ps_calls s) \<Longrightarrow>
    pipe_step p s (s\<lparr>ps_pipe := pi', ps_calls := calls(p := after_read (p \<in> ps_killed s) len e),
      ps_read := ps_read s @ (case e of Return (Inr bs) \<Rightarrow> bs | _ \<Rightarrow> [])\<rparr>)"
| resume_write: "ps_calls s p = WriteWoken src n \<Longrightarrow>
    pipe_step p s (s\<lparr>ps_calls := (ps_calls s)
      (p := if p \<in> ps_killed s then Wrote (Inl CallerProcessAlreadyKilled) else Writing src n)\<rparr>)"
| resume_read: "ps_calls s p = ReadWoken len \<Longrightarrow>
    pipe_step p s (s\<lparr>ps_calls := (ps_calls s)
      (p := if p \<in> ps_killed s then HasRead (Inl CallerProcessAlreadyKilled) else Reading len)\<rparr>)"
| killed_write: "p \<in> ps_killed s \<Longrightarrow> ps_calls s p = WriteWait src n \<Longrightarrow>
    pipe_step p s (s\<lparr>ps_calls := (ps_calls s)(p := Wrote (Inl CallerProcessAlreadyKilled))\<rparr>)"
| killed_read: "p \<in> ps_killed s \<Longrightarrow> ps_calls s p = ReadWait len \<Longrightarrow>
    pipe_step p s (s\<lparr>ps_calls := (ps_calls s)(p := HasRead (Inl CallerProcessAlreadyKilled))\<rparr>)"
| close_write: "pipe_step p s (s\<lparr>ps_pipe := pipe_close True (ps_pipe s), ps_calls := wake_reader \<circ> ps_calls s\<rparr>)"
| close_read: "pipe_step p s (s\<lparr>ps_pipe := pipe_close False (ps_pipe s), ps_calls := wake_writer \<circ> ps_calls s\<rparr>)"
| kill_proc: "pipe_step p s (s\<lparr>ps_killed := insert q (ps_killed s)\<rparr>)"

definition steps_of :: "nat set \<Rightarrow> pipe_system \<Rightarrow> pipe_system \<Rightarrow> bool" where
  "steps_of P = (\<lambda>s s'. \<exists>p \<in> P. pipe_step p s s')\<^sup>*\<^sup>*"

definition pipe_start :: pipe_system where
  "pipe_start = \<lparr>ps_pipe = pipe_new, ps_calls = (\<lambda>_. NoCall), ps_killed = {}, ps_written = [], ps_read = []\<rparr>"

inductive pipe_reach :: "pipe_system \<Rightarrow> bool" where
  reach_start: "pipe_reach pipe_start"
| reach_step: "pipe_reach s \<Longrightarrow> pipe_step p s s' \<Longrightarrow> pipe_reach s'"

section \<open>The bytes in the pipe\<close>

text \<open>
  The buffer of a pipe holds the given bytes, from the position of the next read on. The positions are words that wrap; the size of the
  buffer divides their range.
\<close>

definition holds :: "pipe \<Rightarrow> u8 list \<Rightarrow> bool" where
  "holds pi bs \<longleftrightarrow> length (pi_data pi) = 512 \<and> length bs \<le> 512 \<and> pi_nwrite pi = pi_nread pi + of_nat (length bs) \<and>
     (\<forall>i < length bs. pi_data pi ! (unat (pi_nread pi + of_nat i) mod 512) = bs ! i)"

lemma holdsD:
  assumes "holds pi bs"
  shows "length (pi_data pi) = 512" and "length bs \<le> 512" and "pi_nwrite pi = pi_nread pi + of_nat (length bs)"
    and "i < length bs \<Longrightarrow> pi_data pi ! (unat (pi_nread pi + of_nat i) mod 512) = bs ! i"
  using assms by (auto simp: holds_def)

lemma of_nat_pos_eq: "n \<le> 512 \<Longrightarrow> m \<le> 512 \<Longrightarrow> (of_nat n :: usize) = of_nat m \<longleftrightarrow> n = m"
  by (auto dest!: arg_cong [where f = unat] simp: unat_of_nat_small)

lemma pos_mod: "unat ((w :: usize) + of_nat i) mod 512 = (unat w + i) mod 512" if "i \<le> 512"
proof -
  have "unat (w + of_nat i) = (unat w + i) mod 2 ^ 64" using that by (simp add: unat_word_ariths unat_of_nat_small)
  then show ?thesis by (simp add: mod_mod_cancel)
qed

lemma holds_empty: "holds pi bs \<Longrightarrow> pi_nread pi = pi_nwrite pi \<longleftrightarrow> bs = []"
  using of_nat_pos_eq [of 0 "length bs"] by (auto simp: holds_def)

lemma holds_full: "holds pi bs \<Longrightarrow> pi_nwrite pi = pi_nread pi + PIPE_SIZE \<longleftrightarrow> length bs = 512"
  using of_nat_pos_eq [of "length bs" 512] by (auto simp: holds_def PIPE_SIZE_def)

lemma unat_mod_PIPE: "unat (w mod PIPE_SIZE) = unat w mod 512"
  by (simp add: PIPE_SIZE_def unat_mod)

lemma holds_put:
  assumes "holds pi bs" and "length bs < 512"
  shows "holds (pi\<lparr>pi_data := (pi_data pi)[unat (pi_nwrite pi mod PIPE_SIZE) := b], pi_nwrite := pi_nwrite pi + 1\<rparr>) (bs @ [b])"
proof -
  note h = holdsD [OF assms(1)]
  have ix: "unat (pi_nwrite pi mod PIPE_SIZE) = (unat (pi_nread pi) + length bs) mod 512"
    using pos_mod [of "length bs" "pi_nread pi"] assms(2) h(3) by (simp add: unat_mod_PIPE)
  have "(unat (pi_nread pi) + length bs) mod 512 \<noteq> (unat (pi_nread pi) + i) mod 512" if "i < length bs" for i
  proof
    assume "(unat (pi_nread pi) + length bs) mod 512 = (unat (pi_nread pi) + i) mod 512"
    then have "512 dvd (unat (pi_nread pi) + length bs) - (unat (pi_nread pi) + i)"
      using that by (metis mod_eq_dvd_iff_nat nat_add_left_cancel_le less_imp_le_nat)
    then show False using that assms(2) by (auto dest: dvd_imp_le)
  qed
  then show ?thesis
    unfolding holds_def pipe.simps ix using h assms(2) by (auto simp: pos_mod nth_append less_Suc_eq)
qed

lemma holds_take:
  assumes "holds pi (b # bs)"
  shows "pi_data pi ! unat (pi_nread pi mod PIPE_SIZE) = b" and "holds (pi\<lparr>pi_nread := pi_nread pi + 1\<rparr>) bs"
proof -
  note h = holdsD [OF assms]
  show "pi_data pi ! unat (pi_nread pi mod PIPE_SIZE) = b" using h(4) [of 0] by (simp add: unat_mod_PIPE)
  show "holds (pi\<lparr>pi_nread := pi_nread pi + 1\<rparr>) bs"
    using h(1-3) h(4) [of "Suc i" for i] by (auto simp: holds_def add.assoc)
qed


text \<open>What the loops do to the bytes in the pipe.\<close>

lemma write_loop_notifies: "0 < n \<Longrightarrow> write_notifies (fst (write_loop src n pi))"
proof (induction src n pi rule: write_loop.induct)
  case (1 src n pi)
  then show ?case by (subst write_loop.simps) (simp add: Let_def)
qed

lemma write_loop_ok:
  assumes "holds pi bs" and "n \<le> length src" and "write_loop src n pi = (e, n', pi')"
  shows "n \<le> n' \<and> n' \<le> length src \<and> holds pi' (bs @ take (n' - n) (drop n src)) \<and>
    pi_read_open pi' = pi_read_open pi \<and> pi_write_open pi' = pi_write_open pi \<and>
    (e = Wait \<longrightarrow> n' < length src \<and> pi_read_open pi' \<and> length (bs @ take (n' - n) (drop n src)) = 512) \<and>
    (\<not> write_notifies e \<longrightarrow> n' = n \<and> pi' = pi \<and> \<not> pi_read_open pi) \<and> (\<forall>m. e = Return (Inr m) \<longrightarrow> m = n' \<and> (m = length src \<or> \<not> pi_read_open pi))"
  using assms
proof (induction src n pi arbitrary: bs rule: write_loop.induct)
  case (1 src n pi)
  show ?case
  proof (cases "n < length src \<and> pi_read_open pi \<and> pi_nwrite pi \<noteq> pi_nread pi + PIPE_SIZE")
    case True
    let ?pi = "pi\<lparr>pi_data := (pi_data pi)[unat (pi_nwrite pi mod PIPE_SIZE) := src ! n], pi_nwrite := pi_nwrite pi + 1\<rparr>"
    have "length bs < 512" using True holds_full [OF "1.prems"(1)] holdsD(2) [OF "1.prems"(1)] by auto
    then have h: "holds ?pi (bs @ [src ! n])" by (rule holds_put [OF "1.prems"(1)])
    have w: "write_loop src (n + 1) ?pi = (e, n', pi')" using "1.prems"(3) True by (simp add: write_loop.simps [of src n pi] Let_def)
    have ih: "n + 1 \<le> n' \<and> n' \<le> length src \<and> holds pi' ((bs @ [src ! n]) @ take (n' - (n + 1)) (drop (n + 1) src)) \<and>
        pi_read_open pi' = pi_read_open ?pi \<and> pi_write_open pi' = pi_write_open ?pi \<and>
        (e = Wait \<longrightarrow> n' < length src \<and> pi_read_open pi' \<and> length ((bs @ [src ! n]) @ take (n' - (n + 1)) (drop (n + 1) src)) = 512) \<and>
        (\<not> write_notifies e \<longrightarrow> n' = n + 1 \<and> pi' = ?pi \<and> \<not> pi_read_open ?pi) \<and> (\<forall>m. e = Return (Inr m) \<longrightarrow> m = n' \<and> (m = length src \<or> \<not> pi_read_open ?pi))"
      by (rule "1.IH" [OF _ _ _ refl h _ w]) (use True in auto)
    have "take (n' - n) (drop n src) = src ! n # take (n' - (n + 1)) (drop (n + 1) src)"
      using ih True by (simp add: Cons_nth_drop_Suc [symmetric] take_Cons' Suc_diff_Suc)
    moreover have "write_notifies e" using write_loop_notifies [of "n + 1" src ?pi] w by simp
    ultimately show ?thesis using ih True by simp
  next
    case False
    then show ?thesis
      using "1.prems" holds_full [OF "1.prems"(1)] by (auto simp: write_loop.simps [of src n pi] split: if_splits)
  qed
qed


lemma read_loop_ok:
  assumes "holds pi bs" and "read_loop len pi = (rs, pi')"
  shows "rs = take len bs \<and> holds pi' (drop len bs) \<and> pi_read_open pi' = pi_read_open pi \<and> pi_write_open pi' = pi_write_open pi"
  using assms
proof (induction len arbitrary: pi bs rs)
  case (Suc len)
  show ?case
  proof (cases bs)
    case Nil
    then show ?thesis using Suc.prems holds_empty [OF Suc.prems(1)] by auto
  next
    case (Cons b bs')
    note t = holds_take [OF Suc.prems(1) [unfolded Cons]]
    obtain rs' where r: "read_loop len (pi\<lparr>pi_nread := pi_nread pi + 1\<rparr>) = (rs', pi')" "rs = b # rs'"
      using Suc.prems holds_empty [OF Suc.prems(1)] t(1) Cons by (auto split: prod.splits)
    show ?thesis using Suc.IH [OF t(2) r(1)] r(2) Cons by simp
  qed
qed simp

section \<open>The invariant\<close>

text \<open>
  What was written is what was read and what the pipe holds. A reader only waits at an empty pipe whose write end is open, and a
  writer at a full one whose read end is open.
\<close>

definition pipe_inv :: "pipe_system \<Rightarrow> bool" where
  "pipe_inv s \<longleftrightarrow> (\<exists>bs. ps_written s = ps_read s @ bs \<and> holds (ps_pipe s) bs \<and>
     (\<forall>p len. ps_calls s p = ReadWait len \<longrightarrow> bs = [] \<and> pi_write_open (ps_pipe s)) \<and>
     (\<forall>p src n. ps_calls s p = WriteWait src n \<longrightarrow> length bs = 512 \<and> pi_read_open (ps_pipe s) \<and> n \<le> length src) \<and>
     (\<forall>p src n. ps_calls s p = WriteWoken src n \<longrightarrow> n \<le> length src) \<and>
     (\<forall>p src n. ps_calls s p = Writing src n \<longrightarrow> n \<le> length src))"

lemma wake_simps [simp]:
  "wake_reader c \<noteq> ReadWait len" "wake_writer c \<noteq> WriteWait src n"
  "wake_reader c = WriteWait src n \<longleftrightarrow> c = WriteWait src n" "wake_reader c = Writing src n \<longleftrightarrow> c = Writing src n"
  "wake_reader c = WriteWoken src n \<longleftrightarrow> c = WriteWoken src n" "wake_writer c = ReadWait len \<longleftrightarrow> c = ReadWait len"
  "wake_writer c = Writing src n \<longleftrightarrow> c = Writing src n"
  "wake_writer c = WriteWoken src n \<longleftrightarrow> c = WriteWoken src n \<or> c = WriteWait src n"
  "idle (wake_reader c) = idle c" "idle (wake_writer c) = idle c"
  by (cases c; auto simp: idle_def)+

lemma pipe_invI:
  assumes "ps_written s = ps_read s @ bs" "holds (ps_pipe s) bs"
    "\<And>p len. ps_calls s p = ReadWait len \<Longrightarrow> bs = [] \<and> pi_write_open (ps_pipe s)"
    "\<And>p src n. ps_calls s p = WriteWait src n \<Longrightarrow> length bs = 512 \<and> pi_read_open (ps_pipe s) \<and> n \<le> length src"
    "\<And>p src n. ps_calls s p = WriteWoken src n \<Longrightarrow> n \<le> length src"
    "\<And>p src n. ps_calls s p = Writing src n \<Longrightarrow> n \<le> length src"
  shows "pipe_inv s"
  unfolding pipe_inv_def using assms by (intro exI [of _ bs]) simp

lemma run_write_inv:
  assumes "pipe_inv s" and c: "ps_calls s p = Writing src n" and l: "write_loop src n (ps_pipe s) = (e, n', pi')"
    and calls: "calls = (if write_notifies e then wake_reader \<circ> ps_calls s else ps_calls s)"
  shows "pipe_inv (s\<lparr>ps_pipe := pi', ps_calls := calls(p := after_write (p \<in> ps_killed s) src e n'),
      ps_written := ps_written s @ take (n' - n) (drop n src)\<rparr>)" (is "pipe_inv ?s")
proof -
  obtain bs where bs: "ps_written s = ps_read s @ bs" "holds (ps_pipe s) bs"
    "\<forall>p len. ps_calls s p = ReadWait len \<longrightarrow> bs = [] \<and> pi_write_open (ps_pipe s)"
    "\<forall>p src n. ps_calls s p = WriteWait src n \<longrightarrow> length bs = 512 \<and> pi_read_open (ps_pipe s) \<and> n \<le> length src"
    "\<forall>p src n. ps_calls s p = WriteWoken src n \<longrightarrow> n \<le> length src"
    "\<forall>p src n. ps_calls s p = Writing src n \<longrightarrow> n \<le> length src"
    using assms(1) unfolding pipe_inv_def by blast
  let ?bs = "bs @ take (n' - n) (drop n src)"
  have "n \<le> length src" using bs(6) c by blast
  note w = write_loop_ok [OF bs(2) this l]
  have len: "length ?bs \<le> 512" using w holdsD(2) by blast
  show ?thesis
  proof (rule pipe_invI [where bs = ?bs])
    show "ps_written ?s = ps_read ?s @ ?bs" using bs(1) by simp
    show "holds (ps_pipe ?s) ?bs" using w by simp
    show "?bs = [] \<and> pi_write_open (ps_pipe ?s)" if "ps_calls ?s q = ReadWait len" for q len
      using that w bs(3) calls by (auto simp: after_write_def split: if_splits section_end.splits)
    show "m \<le> length src'" if "ps_calls ?s q = WriteWoken src' m" for q src' m
      using that bs(5) calls by (auto simp: after_write_def split: if_splits section_end.splits)
    show "m \<le> length src'" if "ps_calls ?s q = Writing src' m" for q src' m
      using that bs(6) calls by (auto simp: after_write_def split: if_splits section_end.splits)
    show "length ?bs = 512 \<and> pi_read_open (ps_pipe ?s) \<and> m \<le> length src'" if q: "ps_calls ?s q = WriteWait src' m" for q src' m
    proof (cases "q = p")
      case True
      then show ?thesis using q w by (auto simp: after_write_def split: if_splits section_end.splits)
    next
      case False
      then have "ps_calls s q = WriteWait src' m" using q calls by (auto split: if_splits)
      then show ?thesis using bs(4) len w by auto
    qed
  qed
qed

lemma run_read_inv:
  assumes "pipe_inv s" and c: "ps_calls s p = Reading len" and r: "read_section len (ps_pipe s) = (e, pi')"
    and calls: "calls = (if e = Wait then ps_calls s else wake_writer \<circ> ps_calls s)"
  shows "pipe_inv (s\<lparr>ps_pipe := pi', ps_calls := calls(p := after_read (p \<in> ps_killed s) len e),
      ps_read := ps_read s @ (case e of Return (Inr bs) \<Rightarrow> bs | _ \<Rightarrow> [])\<rparr>)" (is "pipe_inv ?s")
proof -
  obtain bs where bs: "ps_written s = ps_read s @ bs" "holds (ps_pipe s) bs"
    "\<forall>p len. ps_calls s p = ReadWait len \<longrightarrow> bs = [] \<and> pi_write_open (ps_pipe s)"
    "\<forall>p src n. ps_calls s p = WriteWait src n \<longrightarrow> length bs = 512 \<and> pi_read_open (ps_pipe s) \<and> n \<le> length src"
    "\<forall>p src n. ps_calls s p = WriteWoken src n \<longrightarrow> n \<le> length src"
    "\<forall>p src n. ps_calls s p = Writing src n \<longrightarrow> n \<le> length src"
    using assms(1) unfolding pipe_inv_def by blast
  show ?thesis
  proof (cases e)
    case Wait
    then have "pi' = ps_pipe s" "bs = []" "pi_write_open (ps_pipe s)"
      using r holds_empty [OF bs(2)] by (auto simp: read_section_def split: if_splits prod.splits)
    then show ?thesis
      by (intro pipe_invI [where bs = bs]) (use Wait bs calls in \<open>auto simp: after_read_def split: if_splits\<close>)
  next
    case (Return x)
    then obtain rs where rs: "read_loop len (ps_pipe s) = (rs, pi')" "x = Inr rs"
      using r by (auto simp: read_section_def split: if_splits prod.splits)
    note l = read_loop_ok [OF bs(2) rs(1)]
    show ?thesis
      by (intro pipe_invI [where bs = "drop len bs"])
        (use Return rs l bs calls in \<open>auto simp: after_read_def split: if_splits intro: less_imp_le\<close>)
  qed
qed

lemma pipe_inv_step:
  assumes "pipe_step p s s'" and inv: "pipe_inv s"
  shows "pipe_inv s'"
  using assms(1)
proof cases
  case (run_write src n e n' pi' calls)
  then show ?thesis using run_write_inv [OF inv] by simp
next
  case (run_read len e pi' calls)
  then show ?thesis using run_read_inv [OF inv] by simp
qed (use inv in \<open>unfold pipe_inv_def, auto simp: pipe_close_def holds_def dest: less_imp_le split: if_splits\<close>)

lemma pipe_inv_reach: "pipe_reach s \<Longrightarrow> pipe_inv s"
proof (induction rule: pipe_reach.induct)
  case reach_start
  show ?case by (rule pipe_invI [where bs = "[]"]) (simp_all add: pipe_start_def holds_def pipe_new_def PIPE_SIZE_def)
qed (rule pipe_inv_step)


section \<open>A write completes\<close>

lemma finite_calls: "pipe_reach s \<Longrightarrow> finite {p. ps_calls s p \<noteq> NoCall}"
proof (induction rule: pipe_reach.induct)
  case (reach_step s p s')
  have w: "wake_reader c \<noteq> NoCall \<longleftrightarrow> c \<noteq> NoCall" "wake_writer c \<noteq> NoCall \<longleftrightarrow> c \<noteq> NoCall" for c by (cases c; simp)+
  have "\<exists>p. {q. ps_calls s' q \<noteq> NoCall} \<subseteq> insert p {q. ps_calls s q \<noteq> NoCall}"
    using reach_step.hyps(2) by cases (auto simp: w split: if_splits)
  then show ?case using reach_step.IH finite_subset by blast
qed (simp add: pipe_start_def)

lemma free_process:
  assumes "pipe_reach s"
  obtains r where "ps_calls s r = NoCall"
proof -
  have "\<exists>r. r \<notin> {p. ps_calls s p \<noteq> NoCall}" using finite_calls [OF assms] by (rule ex_new_if_finite [OF infinite_UNIV_nat])
  then show thesis using that by blast
qed

lemma steps_refl: "steps_of P s s"
  by (simp add: steps_of_def)

lemma steps_into: "pipe_step p s s' \<Longrightarrow> p \<in> P \<Longrightarrow> steps_of P s' s'' \<Longrightarrow> steps_of P s s''"
  unfolding steps_of_def by (rule converse_rtranclp_into_rtranclp) blast+

lemma steps_trans: "steps_of P s s' \<Longrightarrow> steps_of P s' s'' \<Longrightarrow> steps_of P s s''"
  unfolding steps_of_def by (rule rtranclp_trans)

lemma reach_steps: "steps_of P s s' \<Longrightarrow> pipe_reach s \<Longrightarrow> pipe_reach s'"
  unfolding steps_of_def by (induction rule: rtranclp_induct) (auto intro: reach_step)

text \<open>
  Between the steps of the writer \<open>p\<close> and the reader \<open>r\<close> that complete a write, the reader has no call, nobody is killed and the
  ends are as they were.
\<close>

definition serving :: "nat set \<Rightarrow> nat \<Rightarrow> nat \<Rightarrow> bool \<Rightarrow> pipe_system \<Rightarrow> bool" where
  "serving K p r w s \<longleftrightarrow> pipe_reach s \<and> p \<noteq> r \<and> idle (ps_calls s r) \<and> ps_killed s = K \<and> p \<notin> K \<and>
     pi_read_open (ps_pipe s) \<and> pi_write_open (ps_pipe s) = w"

text \<open>A section of a write with the read end open finishes the write or leaves the pipe full.\<close>

lemma run_write_step:
  assumes sv: "serving K p r w s" and c: "ps_calls s p = Writing src n"
  obtains s' n' where "pipe_step p s s'" "serving K p r w s'" "n \<le> n'" "n' \<le> length src"
    "ps_calls s' p = (if n' = length src then Wrote (Inr (length src)) else WriteWait src n')"
    "n' < length src \<and> pi_nread (ps_pipe s) = pi_nwrite (ps_pipe s) \<longrightarrow> n' = n + 512"
proof -
  have re: "pipe_reach s" and o: "pi_read_open (ps_pipe s)" using sv by (simp_all add: serving_def)
  obtain bs where bs: "holds (ps_pipe s) bs" "n \<le> length src"
    using pipe_inv_reach [OF re] c unfolding pipe_inv_def by blast
  obtain e n' pi' where l: "write_loop src n (ps_pipe s) = (e, n', pi')" by (metis prod_cases3)
  note w = write_loop_ok [OF bs l]
  let ?s = "s\<lparr>ps_pipe := pi', ps_calls := (if write_notifies e then wake_reader \<circ> ps_calls s else ps_calls s)(p := after_write (p \<in> ps_killed s) src e n'),
      ps_written := ps_written s @ take (n' - n) (drop n src)\<rparr>"
  have w1: "n \<le> n'" "n' \<le> length src" "pi_read_open pi' = pi_read_open (ps_pipe s)" "pi_write_open pi' = pi_write_open (ps_pipe s)"
    using w by simp_all
  have w2: "n' < length src" "length (bs @ take (n' - n) (drop n src)) = 512" if "e = Wait" using w that by simp_all
  have w3: "write_notifies e" using w o by blast
  have w4: "m = length src" "m = n'" if "e = Return (Inr m)" for m using w o that by blast+
  have e: "e = Wait \<and> n' < length src \<or> e = Return (Inr (length src)) \<and> n' = length src"
  proof (cases e)
    case (Return r)
    then show ?thesis using w3 w4 by (cases r) simp_all
  qed (use w2(1) in simp)
  have full: "n' = n + 512" if "n' < length src" "pi_nread (ps_pipe s) = pi_nwrite (ps_pipe s)"
  proof -
    have "bs = []" "e = Wait" using that e holds_empty [OF bs(1)] by auto
    then show ?thesis using w2(2) w1 by simp
  qed
  have st: "pipe_step p s ?s" by (rule run_write [OF c l refl])
  moreover have "serving K p r w ?s" using sv reach_step [OF re st] w1 w3 by (simp add: serving_def)
  moreover have "ps_calls ?s p = (if n' = length src then Wrote (Inr (length src)) else WriteWait src n')"
    using e sv by (auto simp: after_write_def serving_def)
  ultimately show thesis using that [of ?s n'] w1 full by simp
qed

text \<open>A writer that is awake again goes on.\<close>

lemma resume_write_step:
  assumes sv: "serving K p r w s" and c: "ps_calls s p = WriteWoken src n"
  obtains s' where "pipe_step p s s'" "serving K p r w s'" "ps_calls s' p = Writing src n" "ps_pipe s' = ps_pipe s"
proof -
  let ?s = "s\<lparr>ps_calls := (ps_calls s)(p := if p \<in> ps_killed s then Wrote (Inl CallerProcessAlreadyKilled) else Writing src n)\<rparr>"
  have st: "pipe_step p s ?s" by (rule resume_write [OF c])
  then have "pipe_reach ?s" using sv reach_step by (auto simp: serving_def)
  then show thesis using that [OF st] sv by (simp add: serving_def)
qed

text \<open>The reader empties a full pipe and wakes the writer.\<close>

lemma reader_empties:
  assumes sv: "serving K p r w s" and c: "ps_calls s p = WriteWait src n"
  obtains s' where "steps_of {p, r} s s'" "serving K p r w s'" "ps_calls s' p = Writing src n" "pi_nread (ps_pipe s') = pi_nwrite (ps_pipe s')"
proof -
  have re: "pipe_reach s" and pr: "p \<noteq> r" and id: "idle (ps_calls s r)" using sv by (simp_all add: serving_def)
  obtain bs where bs: "holds (ps_pipe s) bs" "length bs = 512"
    using pipe_inv_reach [OF re] c unfolding pipe_inv_def by blast
  let ?s1 = "s\<lparr>ps_calls := (ps_calls s)(r := Reading 512)\<rparr>"
  have s1: "pipe_step r s ?s1" by (rule call_read [OF id])
  obtain rs pi' where l: "read_loop 512 (ps_pipe s) = (rs, pi')" by (rule prod.exhaust)
  note rl = read_loop_ok [OF bs(1) l]
  have pi': "pi_nread pi' = pi_nwrite pi'" using rl bs(2) holds_empty [of pi' "[]"] by simp
  have "pi_nread (ps_pipe s) \<noteq> pi_nwrite (ps_pipe s)" using holds_empty [OF bs(1)] bs(2) by auto
  then have sec: "read_section 512 (ps_pipe ?s1) = (Return (Inr rs), pi')" unfolding read_section_def by (simp add: l)
  have c1: "ps_calls ?s1 r = Reading 512" by simp
  obtain s2 where s2: "pipe_step r ?s1 s2" "ps_pipe s2 = pi'" "ps_killed s2 = ps_killed s" "idle (ps_calls s2 r)" "ps_calls s2 p = WriteWoken src n"
    by (rule that [OF run_read [OF c1 sec refl]]) (use pr c in \<open>simp_all add: after_read_def idle_def\<close>)
  have "serving K p r w s2"
    using sv s2 rl reach_step [OF reach_step [OF re s1] s2(1)] by (simp add: serving_def)
  then obtain s' where s': "pipe_step p s2 s'" "serving K p r w s'" "ps_calls s' p = Writing src n" "ps_pipe s' = ps_pipe s2"
    using s2(5) by (rule resume_write_step)
  have "steps_of {p, r} s s'"
    by (rule steps_into [OF s1 _ steps_into [OF s2(1) _ steps_into [OF s'(1) _ steps_refl]]]) simp_all
  then show thesis using that s' s2(2) pi' by simp
qed

lemma write_completes_empty:
  assumes "serving K p r w s" and "ps_calls s p = Writing src n" and "pi_nread (ps_pipe s) = pi_nwrite (ps_pipe s)"
  shows "\<exists>s'. steps_of {p, r} s s' \<and> serving K p r w s' \<and> ps_calls s' p = Wrote (Inr (length src))"
  using assms
proof (induction "length src - n" arbitrary: s n rule: less_induct)
  case less
  obtain s1 n1 where s1: "pipe_step p s s1" "serving K p r w s1" "n \<le> n1" "n1 \<le> length src"
    "ps_calls s1 p = (if n1 = length src then Wrote (Inr (length src)) else WriteWait src n1)"
    "n1 < length src \<and> pi_nread (ps_pipe s) = pi_nwrite (ps_pipe s) \<longrightarrow> n1 = n + 512"
    using run_write_step [OF less.prems(1,2)] .
  have st1: "steps_of {p, r} s s1" by (rule steps_into [OF s1(1) _ steps_refl]) simp
  show ?case
  proof (cases "n1 = length src")
    case True
    then show ?thesis using st1 s1(2,5) by (intro exI [of _ s1]) simp
  next
    case False
    have c1: "ps_calls s1 p = WriteWait src n1" using s1(5) False by simp
    obtain s2 where s2: "steps_of {p, r} s1 s2" "serving K p r w s2" "ps_calls s2 p = Writing src n1"
      "pi_nread (ps_pipe s2) = pi_nwrite (ps_pipe s2)" using reader_empties [OF s1(2) c1] .
    have "length src - n1 < length src - n" using s1(3,4,6) less.prems(3) False by auto
    then show ?thesis using less.hyps [OF _ s2(2-4)] steps_trans [OF st1 s2(1)] steps_trans by blast
  qed
qed

lemma write_completes_wait:
  assumes "serving K p r w s" and "ps_calls s p = WriteWait src n"
  shows "\<exists>s'. steps_of {p, r} s s' \<and> serving K p r w s' \<and> ps_calls s' p = Wrote (Inr (length src))"
proof -
  obtain s1 where "steps_of {p, r} s s1" "serving K p r w s1" "ps_calls s1 p = Writing src n" "pi_nread (ps_pipe s1) = pi_nwrite (ps_pipe s1)"
    using reader_empties [OF assms] .
  then show ?thesis using write_completes_empty steps_trans by blast
qed

lemma write_completes_running:
  assumes "serving K p r w s" and "ps_calls s p = Writing src n"
  shows "\<exists>s'. steps_of {p, r} s s' \<and> serving K p r w s' \<and> ps_calls s' p = Wrote (Inr (length src))"
proof -
  obtain s1 n1 where s1: "pipe_step p s s1" "serving K p r w s1" "n \<le> n1" "n1 \<le> length src"
    "ps_calls s1 p = (if n1 = length src then Wrote (Inr (length src)) else WriteWait src n1)"
    "n1 < length src \<and> pi_nread (ps_pipe s) = pi_nwrite (ps_pipe s) \<longrightarrow> n1 = n + 512"
    using run_write_step [OF assms] .
  have "\<exists>s'. steps_of {p, r} s1 s' \<and> serving K p r w s' \<and> ps_calls s' p = Wrote (Inr (length src))"
    using s1(2,5) write_completes_wait [OF s1(2), of src n1] steps_refl by (cases "n1 = length src") auto
  then show ?thesis using steps_into [OF s1(1)] by blast
qed

lemma write_completes_woken:
  assumes "serving K p r w s" and "ps_calls s p = WriteWoken src n"
  shows "\<exists>s'. steps_of {p, r} s s' \<and> serving K p r w s' \<and> ps_calls s' p = Wrote (Inr (length src))"
proof -
  obtain s1 where s1: "pipe_step p s s1" "serving K p r w s1" "ps_calls s1 p = Writing src n"
    using resume_write_step [OF assms] .
  then show ?thesis using write_completes_running [OF s1(2,3)] steps_into [OF s1(1)] by blast
qed

section \<open>Properties\<close>

text \<open>
  C9. Whatever the processes at a pipe do and in whatever order, the bytes read are those written in their order, at most 512 are
  in the pipe, also when the position counters wrap, and a reader is only ever asleep at an empty pipe with an open write end and a writer only
  at a full pipe with an open read end: no wakeup is lost.
\<close>

theorem pipe_fifo:
  assumes "pipe_reach s"
  shows "\<exists>bs. ps_written s = ps_read s @ bs \<and> length bs \<le> 512 \<and> pi_nwrite (ps_pipe s) = pi_nread (ps_pipe s) + of_nat (length bs) \<and>
    (\<forall>p len. ps_calls s p \<noteq> ReadWait len \<or> bs = [] \<and> pi_write_open (ps_pipe s)) \<and>
    (\<forall>p src n. ps_calls s p \<noteq> WriteWait src n \<or> length bs = 512 \<and> pi_read_open (ps_pipe s))"
proof -
  obtain bs where "ps_written s = ps_read s @ bs" "holds (ps_pipe s) bs"
    "\<forall>p len. ps_calls s p = ReadWait len \<longrightarrow> bs = [] \<and> pi_write_open (ps_pipe s)"
    "\<forall>p src n. ps_calls s p = WriteWait src n \<longrightarrow> length bs = 512 \<and> pi_read_open (ps_pipe s) \<and> n \<le> length src"
    using pipe_inv_reach [OF assms] unfolding pipe_inv_def by blast
  then show ?thesis using holdsD(2,3) by (intro exI [of _ bs]) auto
qed

theorem pipe_fifo_witness:
  "\<exists>s. pipe_reach s \<and> ps_written s = [1, 2, 3] \<and> ps_read s = [] \<and> ps_calls s 0 = Wrote (Inr 3) \<and>
    pi_nwrite (ps_pipe s) = pi_nread (ps_pipe s) + 3"
proof -
  let ?s = "pipe_start\<lparr>ps_calls := (ps_calls pipe_start)(0 := Writing [1, 2, 3] 0)\<rparr>"
  have "pipe_step 0 pipe_start ?s" by (rule call_write) (simp add: pipe_start_def idle_def)
  then have r: "pipe_reach ?s" by (rule reach_step [OF reach_start])
  obtain pi' where l: "write_loop [1, 2, 3] 0 (ps_pipe ?s) = (Return (Inr 3), 3, pi')"
    by (simp add: write_loop.simps Let_def pipe_start_def pipe_new_def PIPE_SIZE_def)
  have c: "ps_calls ?s 0 = Writing [1, 2, 3] 0" by simp
  obtain s where s: "pipe_reach s" "ps_written s = [1, 2, 3]" "ps_read s = []" "ps_calls s 0 = Wrote (Inr 3)"
    by (rule that [OF reach_step [OF r run_write [OF c l refl]]]) (simp_all add: pipe_start_def after_write_def)
  then show ?thesis using pipe_fifo [OF s(1)] by (intro exI [of _ s]) auto
qed

text \<open>
  C17. A write to a pipe can always be completed as long as its read end stays open and the writer is not killed. From every state that
  the processes can reach in which a process that is not killed is in a write, running, asleep or awake again, and the read end is open, there is another process
  such that steps of these two processes alone lead to a state where the write has returned the number of all its bytes. These steps
  kill nobody and close no end.
\<close>

theorem pipe_write_completes:
  assumes "pipe_reach s" and "ps_calls s p \<in> {Writing src n, WriteWait src n, WriteWoken src n}"
    and "pi_read_open (ps_pipe s)" and "p \<notin> ps_killed s"
  shows "\<exists>r s'. r \<noteq> p \<and> steps_of {p, r} s s' \<and> ps_calls s' p = Wrote (Inr (length src)) \<and> ps_killed s' = ps_killed s \<and>
    pi_read_open (ps_pipe s') \<and> pi_write_open (ps_pipe s') = pi_write_open (ps_pipe s)"
proof -
  obtain r where r: "ps_calls s r = NoCall" using free_process [OF assms(1)] .
  have "serving (ps_killed s) p r (pi_write_open (ps_pipe s)) s" using assms r by (auto simp: serving_def idle_def)
  note c = this write_completes_running [OF this] write_completes_wait [OF this] write_completes_woken [OF this]
  have "\<exists>s'. steps_of {p, r} s s' \<and> serving (ps_killed s) p r (pi_write_open (ps_pipe s)) s' \<and> ps_calls s' p = Wrote (Inr (length src))"
    using assms(2) c(2-4) by blast
  then show ?thesis by (auto simp: serving_def)
qed

theorem pipe_write_completes_witness:
  "\<exists>s r s'. pipe_reach s \<and> ps_calls s 0 = Writing (replicate 600 7) 0 \<and> r \<noteq> 0 \<and> steps_of {0, r} s s' \<and> ps_calls s' 0 = Wrote (Inr 600)"
proof -
  let ?s = "pipe_start\<lparr>ps_calls := (ps_calls pipe_start)(0 := Writing (replicate 600 7) 0)\<rparr>"
  have "pipe_step 0 pipe_start ?s" by (rule call_write) (simp add: pipe_start_def idle_def)
  then have r: "pipe_reach ?s" by (rule reach_step [OF reach_start])
  have c: "ps_calls ?s 0 = Writing (replicate 600 7) 0" by simp
  have "\<exists>r s'. r \<noteq> 0 \<and> steps_of {0, r} ?s s' \<and> ps_calls s' 0 = Wrote (Inr (length (replicate 600 (7 :: u8)))) \<and> ps_killed s' = ps_killed ?s \<and>
      pi_read_open (ps_pipe s') \<and> pi_write_open (ps_pipe s') = pi_write_open (ps_pipe ?s)"
    by (rule pipe_write_completes [OF r]) (simp_all add: pipe_start_def pipe_new_def)
  then show ?thesis using r c by (intro exI [of _ ?s]) auto
qed

end
