(* ===== verification/Shell.thy ===== *)
theory Shell
  imports Os_Path "HOL-Library.Sublist"
begin

text \<open>
  The command line of the shell: \<^verbatim>\<open>ov6_utilities/src/bin/sh\<close> (\<^verbatim>\<open>tokenizer.rs\<close>, \<^verbatim>\<open>parser.rs\<close>, \<^verbatim>\<open>command.rs\<close>). The input is a byte
  string; a tokenizer or a parser is its unread rest. The tokens are read as the parser asks for them, so that an error of the
  tokenizer is only found where the parser gets to.
\<close>

section \<open>Tokens\<close>

datatype punct = Pipe_P | AndAnd | OrOr | LParen | RParen | Semicolon | And_P | Lt | Gt | GtGt

datatype token = Str os_str | Punct punct

datatype tokenize_error = IncompleteEscape | UnterminatedDoubleQuote | UnterminatedSingleQuote

definition BACKSLASH :: u8 where "BACKSLASH = 0x5c"
definition DQUOTE :: u8 where "DQUOTE = 0x22"
definition SQUOTE :: u8 where "SQUOTE = 0x27"

text \<open>\<^verbatim>\<open>b"<|>&;()"\<close>\<close>

definition SYMBOLS :: "u8 list" where
  "SYMBOLS = [0x3c, 0x7c, 0x3e, 0x26, 0x3b, 0x28, 0x29]"

definition is_ascii_whitespace :: "u8 \<Rightarrow> bool" where
  "is_ascii_whitespace c \<longleftrightarrow> c \<in> {0x20, 0x09, 0x0a, 0x0c, 0x0d}"

fun punct_str :: "punct \<Rightarrow> u8 list" where
  "punct_str Pipe_P = [0x7c]"
| "punct_str LParen = [0x28]"
| "punct_str RParen = [0x29]"
| "punct_str Semicolon = [0x3b]"
| "punct_str And_P = [0x26]"
| "punct_str AndAnd = [0x26, 0x26]"
| "punct_str OrOr = [0x7c, 0x7c]"
| "punct_str Lt = [0x3c]"
| "punct_str Gt = [0x3e]"
| "punct_str GtGt = [0x3e, 0x3e]"

text \<open>The state of the counting loop: inside double quotes, inside single quotes, after a backslash, whether the text changes.\<close>

record scan_state =
  in_double_quotes :: bool
  in_single_quotes :: bool
  escaped :: bool
  needs_allocation :: bool

definition scan_start :: scan_state where
  "scan_start = \<lparr>in_double_quotes = False, in_single_quotes = False, escaped = False, needs_allocation = False\<rparr>"

fun count_loop :: "scan_state \<Rightarrow> u8 list \<Rightarrow> scan_state \<times> u8 list" where
  "count_loop st [] = (st, [])"
| "count_loop st (c # cs) =
     (if escaped st then count_loop (st\<lparr>escaped := False, needs_allocation := True\<rparr>) cs
      else if \<not> in_single_quotes st \<and> c = BACKSLASH then count_loop (st\<lparr>escaped := True, needs_allocation := True\<rparr>) cs
      else if \<not> in_single_quotes st \<and> c = DQUOTE
      then count_loop (st\<lparr>in_double_quotes := \<not> in_double_quotes st, needs_allocation := True\<rparr>) cs
      else if \<not> in_double_quotes st \<and> c = SQUOTE
      then count_loop (st\<lparr>in_single_quotes := \<not> in_single_quotes st, needs_allocation := True\<rparr>) cs
      else if in_double_quotes st \<or> in_single_quotes st \<or> \<not> is_ascii_whitespace c \<and> c \<notin> set SYMBOLS then count_loop st cs
      else (st, c # cs))"

text \<open>The loop that constructs the string, on the text that the first loop counted.\<close>

fun build_loop :: "bool \<Rightarrow> bool \<Rightarrow> bool \<Rightarrow> u8 list \<Rightarrow> u8 list" where
  "build_loop dq sq esc [] = []"
| "build_loop dq sq esc (ch # cs) =
     (if esc then ch # build_loop dq sq False cs
      else if ch = BACKSLASH \<and> \<not> sq then build_loop dq sq True cs
      else if ch = DQUOTE \<and> \<not> sq then build_loop (\<not> dq) sq esc cs
      else if ch = SQUOTE \<and> \<not> dq then build_loop dq (\<not> sq) esc cs
      else ch # build_loop dq sq esc cs)"

definition next_str :: "u8 list \<Rightarrow> (os_str option \<times> u8 list, tokenize_error) outcome" where
  "next_str start =
     (if start = [] then Ok (None, start)
      else
        let (st, rest) = count_loop scan_start start in
        if escaped st then Err IncompleteEscape
        else if in_double_quotes st then Err UnterminatedDoubleQuote
        else if in_single_quotes st then Err UnterminatedSingleQuote
        else
          let input = take (length start - length rest) start in
          if \<not> needs_allocation st then Ok (Some input, rest)
          else Ok (Some (build_loop (in_double_quotes st) (in_single_quotes st) False input), rest))"

fun next_if_eq :: "u8 \<Rightarrow> u8 list \<Rightarrow> u8 list option" where
  "next_if_eq c [] = None"
| "next_if_eq c (x # xs) = (if c = x then Some xs else None)"

definition next_token :: "u8 list \<Rightarrow> (token option \<times> u8 list, tokenize_error) outcome" where
  "next_token chars =
     (let cs = dropWhile is_ascii_whitespace chars in
      case next_if_eq 0x7c cs of
        Some cs \<Rightarrow> (case next_if_eq 0x7c cs of Some cs \<Rightarrow> Ok (Some (Punct OrOr), cs) | None \<Rightarrow> Ok (Some (Punct Pipe_P), cs))
      | None \<Rightarrow>
     (case next_if_eq 0x28 cs of Some cs \<Rightarrow> Ok (Some (Punct LParen), cs)
      | None \<Rightarrow>
     (case next_if_eq 0x29 cs of Some cs \<Rightarrow> Ok (Some (Punct RParen), cs)
      | None \<Rightarrow>
     (case next_if_eq 0x3b cs of Some cs \<Rightarrow> Ok (Some (Punct Semicolon), cs)
      | None \<Rightarrow>
     (case next_if_eq 0x26 cs of
        Some cs \<Rightarrow> (case next_if_eq 0x26 cs of Some cs \<Rightarrow> Ok (Some (Punct AndAnd), cs) | None \<Rightarrow> Ok (Some (Punct And_P), cs))
      | None \<Rightarrow>
     (case next_if_eq 0x3c cs of Some cs \<Rightarrow> Ok (Some (Punct Lt), cs)
      | None \<Rightarrow>
     (case next_if_eq 0x3e cs of
        Some cs \<Rightarrow> (case next_if_eq 0x3e cs of Some cs \<Rightarrow> Ok (Some (Punct GtGt), cs) | None \<Rightarrow> Ok (Some (Punct Gt), cs))
      | None \<Rightarrow> obind (next_str cs) (\<lambda>(s, cs). Ok (map_option Str s, cs)))))))))"

section \<open>Commands\<close>

datatype output_mode = Truncate | Append

record redirect =
  rd_stdin :: "os_str option"
  rd_stdout :: "(os_str \<times> output_mode) option"

definition redirect_new :: redirect where
  "redirect_new = \<lparr>rd_stdin = None, rd_stdout = None\<rparr>"

datatype command = Command (kind: command_kind) (background: bool)
and command_kind =
    Subshell "command list" redirect
  | Exec "os_str list" redirect
  | Pipe_C command command
  | LogicalAnd command command
  | LogicalOr command command

definition command_new :: "command_kind \<Rightarrow> command" where
  "command_new k = Command k False"

section \<open>The parser\<close>

datatype parse_error =
    Tokenize tokenize_error
  | Leftovers token
  | MissingFile
  | MissingPunct punct
  | UnexpectedPunct punct

type_synonym 'a parsed = "('a \<times> u8 list, parse_error) outcome"

fun tokens_next :: "u8 list \<Rightarrow> token option parsed" where
  "tokens_next cs = (case next_token cs of Ok r \<Rightarrow> Ok r | Err e \<Rightarrow> Err (Tokenize e) | Panic \<Rightarrow> Panic)"

text \<open>A token that the condition does not take stays to be read again.\<close>

definition tokens_next_if :: "(token \<Rightarrow> bool) \<Rightarrow> u8 list \<Rightarrow> token option parsed" where
  "tokens_next_if f cs =
     obind (tokens_next cs) (\<lambda>(t, cs').
     case t of
       None \<Rightarrow> Ok (None, cs')
     | Some t \<Rightarrow> if f t then Ok (Some t, cs') else Ok (None, cs))"

definition next_if_punct :: "punct \<Rightarrow> u8 list \<Rightarrow> bool parsed" where
  "next_if_punct p cs = obind (tokens_next_if (\<lambda>t. t = Punct p) cs) (\<lambda>(t, cs'). Ok (t \<noteq> None, cs'))"

section \<open>Every token consumes input\<close>

lemma count_loop_length: "count_loop st cs = (st', rest) \<Longrightarrow> length rest \<le> length cs"
  by (induction st cs rule: count_loop.induct) (auto split: if_splits)

lemma count_loop_less:
  assumes "count_loop scan_start (c # cs) = (st, rest)" "\<not> is_ascii_whitespace c" "c \<notin> set SYMBOLS"
  shows "length rest < length (c # cs)"
  using assms count_loop_length [of _ cs st rest]
  by (auto simp: scan_start_def less_Suc_eq_le split: if_splits)

lemma next_str_None: "next_str cs = Ok (None, rest) \<longleftrightarrow> cs = [] \<and> rest = []"
  by (auto simp: next_str_def Let_def split: prod.splits if_splits)

lemma next_str_less:
  assumes "next_str (c # cs) = Ok (s, rest)" "\<not> is_ascii_whitespace c" "c \<notin> set SYMBOLS"
  shows "length rest < length (c # cs)"
  using assms count_loop_less [of c cs] by (auto simp: next_str_def Let_def split: prod.splits if_splits)

lemma next_if_eq_Some: "next_if_eq c cs = Some cs' \<longleftrightarrow> cs = c # cs'"
  by (cases cs) auto

lemma next_if_eq_None: "next_if_eq c cs = None \<longleftrightarrow> (\<forall>cs'. cs \<noteq> c # cs')"
  by (cases cs) auto

lemma next_token_Nil [simp]: "next_token [] = Ok (None, [])"
  by (simp add: next_token_def next_str_def)

lemma next_token_skip: "is_ascii_whitespace c \<Longrightarrow> next_token (c # cs) = next_token cs"
  by (simp add: next_token_def)

lemma not_whitespace [simp]:
  "\<not> is_ascii_whitespace 0x7c" "\<not> is_ascii_whitespace 0x28" "\<not> is_ascii_whitespace 0x29" "\<not> is_ascii_whitespace 0x3b"
  "\<not> is_ascii_whitespace 0x26" "\<not> is_ascii_whitespace 0x3c" "\<not> is_ascii_whitespace 0x3e"
  by (simp_all add: is_ascii_whitespace_def)

lemma next_token_symbol:
  "next_token (0x7c # cs) = (case next_if_eq 0x7c cs of Some cs \<Rightarrow> Ok (Some (Punct OrOr), cs) | None \<Rightarrow> Ok (Some (Punct Pipe_P), cs))"
  "next_token (0x28 # cs) = Ok (Some (Punct LParen), cs)"
  "next_token (0x29 # cs) = Ok (Some (Punct RParen), cs)"
  "next_token (0x3b # cs) = Ok (Some (Punct Semicolon), cs)"
  "next_token (0x26 # cs) = (case next_if_eq 0x26 cs of Some cs \<Rightarrow> Ok (Some (Punct AndAnd), cs) | None \<Rightarrow> Ok (Some (Punct And_P), cs))"
  "next_token (0x3c # cs) = Ok (Some (Punct Lt), cs)"
  "next_token (0x3e # cs) = (case next_if_eq 0x3e cs of Some cs \<Rightarrow> Ok (Some (Punct GtGt), cs) | None \<Rightarrow> Ok (Some (Punct Gt), cs))"
  by (simp_all add: next_token_def)

lemma next_token_word:
  "\<not> is_ascii_whitespace c \<Longrightarrow> c \<notin> set SYMBOLS \<Longrightarrow>
   next_token (c # cs) = obind (next_str (c # cs)) (\<lambda>(s, cs). Ok (map_option Str s, cs))"
  by (simp add: next_token_def SYMBOLS_def)

lemma symbol_cases:
  assumes "c \<in> set SYMBOLS"
  obtains "c = 0x3c" | "c = 0x7c" | "c = 0x3e" | "c = 0x26" | "c = 0x3b" | "c = 0x28" | "c = 0x29"
  using assms unfolding SYMBOLS_def by auto

lemma next_token_symbol_less:
  "c \<in> set SYMBOLS \<Longrightarrow> \<exists>p rest. next_token (c # cs) = Ok (Some (Punct p), rest) \<and> suffix rest cs"
  by (erule symbol_cases) (simp_all add: next_token_symbol next_if_eq_Some suffix_ConsI split: option.split)

lemma next_token_cases:
  "next_token cs = Ok (t, rest) \<Longrightarrow> (t = None \<longrightarrow> rest = []) \<and> (t \<noteq> None \<longrightarrow> length rest < length cs)"
proof (induction cs)
  case (Cons c cs)
  consider (ws) "is_ascii_whitespace c" | (sym) "c \<in> set SYMBOLS" | (word) "\<not> is_ascii_whitespace c" "c \<notin> set SYMBOLS"
    by blast
  then show ?case
  proof cases
    case ws
    then show ?thesis
      using Cons by (auto simp: next_token_skip)
  next
    case sym
    then show ?thesis
      using Cons.prems next_token_symbol_less [of c cs] by (auto simp: less_Suc_eq_le suffix_length_le)
  next
    case word
    then obtain s where "next_str (c # cs) = Ok (s, rest)" "t = map_option Str s"
      using Cons.prems by (auto simp: next_token_word)
    then show ?thesis
      using next_str_less [OF _ word, of cs s rest] next_str_None [of "c # cs" rest] by (cases s) auto
  qed
qed simp

lemma tokens_next_Ok [simp]: "tokens_next cs = Ok r \<longleftrightarrow> next_token cs = Ok r"
  by (simp split: outcome.split)

declare tokens_next.simps [simp del]

lemma tokens_next_le: "tokens_next cs = Ok (t, rest) \<Longrightarrow> length rest + of_bool (t \<noteq> None) \<le> length cs"
  using next_token_cases [of cs t rest] by (cases t) auto

lemma tokens_next_if_le: "tokens_next_if f cs = Ok (t, rest) \<Longrightarrow> length rest + of_bool (t \<noteq> None) \<le> length cs"
  using tokens_next_le by (fastforce simp: tokens_next_if_def split: option.splits if_splits)

lemma next_if_punct_le: "next_if_punct p cs = Ok (b, rest) \<Longrightarrow> length rest + of_bool b \<le> length cs"
  using tokens_next_if_le by (fastforce simp: next_if_punct_def)

section \<open>The loops of the parser\<close>

datatype redir = Redir_Stdin | Redir_Stdout output_mode

definition EXEC_TERMINATOR :: "punct list" where
  "EXEC_TERMINATOR = [Pipe_P, AndAnd, OrOr, RParen, And_P, Semicolon]"

definition redir_mode :: "u8 list \<Rightarrow> redir option parsed" where
  "redir_mode cs =
     obind (next_if_punct Lt cs) (\<lambda>(b, cs).
     if b then Ok (Some Redir_Stdin, cs)
     else obind (next_if_punct Gt cs) (\<lambda>(b, cs).
     if b then Ok (Some (Redir_Stdout Truncate), cs)
     else obind (next_if_punct GtGt cs) (\<lambda>(b, cs).
     if b then Ok (Some (Redir_Stdout Append), cs)
     else Ok (None, cs))))"

fun set_redirect :: "redir \<Rightarrow> os_str \<Rightarrow> redirect \<Rightarrow> redirect" where
  "set_redirect Redir_Stdin file r = r\<lparr>rd_stdin := Some file\<rparr>"
| "set_redirect (Redir_Stdout mode) file r = r\<lparr>rd_stdout := Some (file, mode)\<rparr>"

lemma redir_mode_le: "redir_mode cs = Ok (m, rest) \<Longrightarrow> length rest + of_bool (m \<noteq> None) \<le> length cs"
  by (auto simp: redir_mode_def split: if_splits dest!: next_if_punct_le)

function parse_redirs :: "redirect \<Rightarrow> u8 list \<Rightarrow> redirect parsed" where
  "parse_redirs redirect cs =
     obind (redir_mode cs) (\<lambda>(mode, cs).
     case mode of
       None \<Rightarrow> Ok (redirect, cs)
     | Some mode \<Rightarrow>
         obind (tokens_next cs) (\<lambda>(t, cs).
         case t of
           None \<Rightarrow> Err MissingFile
         | Some (Punct p) \<Rightarrow> Err MissingFile
         | Some (Str file) \<Rightarrow> parse_redirs (set_redirect mode file redirect) cs))"
  by pat_completeness auto
termination
  by (relation "measure (length \<circ> snd)") (auto dest!: redir_mode_le next_token_cases)

declare parse_redirs.simps [simp del]

lemma parse_redirs_le: "parse_redirs r cs = Ok (r', rest) \<Longrightarrow> length rest \<le> length cs"
proof (induction r cs rule: parse_redirs.induct)
  case (1 r cs)
  from "1.prems" obtain mode cs1 where m: "redir_mode cs = Ok (mode, cs1)"
    by (subst (asm) parse_redirs.simps) auto
  show ?case
  proof (cases mode)
    case None
    then show ?thesis
      using "1.prems" m redir_mode_le [OF m] by (subst (asm) parse_redirs.simps) simp
  next
    case (Some mode')
    with "1.prems" m obtain t cs2 where t: "tokens_next cs1 = Ok (t, cs2)"
      by (subst (asm) parse_redirs.simps) auto
    with "1.prems" m Some obtain f where "t = Some (Str f)" "parse_redirs (set_redirect mode' f r) cs2 = Ok (r', rest)"
      by (subst (asm) parse_redirs.simps) (auto split: option.split_asm token.split_asm)
    then show ?thesis
      using "1.IH" [OF m refl Some t refl, of "Str f" f] redir_mode_le [OF m] tokens_next_le [OF t] by simp
  qed
qed

definition takes_arg :: "token \<Rightarrow> bool" where
  "takes_arg t = (case t of Punct p \<Rightarrow> p \<notin> set EXEC_TERMINATOR | Str s \<Rightarrow> True)"

function exec_args :: "os_str list \<Rightarrow> redirect \<Rightarrow> u8 list \<Rightarrow> (os_str list \<times> redirect) parsed" where
  "exec_args argv redirect cs =
     obind (tokens_next_if takes_arg cs) (\<lambda>(tok, cs).
     case tok of
       None \<Rightarrow> Ok ((argv, redirect), cs)
     | Some (Str arg) \<Rightarrow> obind (parse_redirs redirect cs) (\<lambda>(redirect, cs). exec_args (argv @ [arg]) redirect cs)
     | Some (Punct p) \<Rightarrow> Err (UnexpectedPunct p))"
  by pat_completeness auto
termination
  by (relation "measure (length \<circ> snd \<circ> snd)") (auto dest!: tokens_next_if_le parse_redirs_le)

declare exec_args.simps [simp del]

lemma exec_args_le: "exec_args argv r cs = Ok (a, rest) \<Longrightarrow> length rest \<le> length cs"
proof (induction argv r cs rule: exec_args.induct)
  case (1 argv r cs)
  from "1.prems" obtain t cs1 where t: "tokens_next_if takes_arg cs = Ok (t, cs1)"
    by (subst (asm) exec_args.simps) auto
  show ?case
  proof (cases t)
    case None
    then show ?thesis
      using "1.prems" t tokens_next_if_le [OF t] by (subst (asm) exec_args.simps) simp
  next
    case (Some t')
    with "1.prems" t obtain arg r' cs2 where "t' = Str arg" "parse_redirs r cs1 = Ok (r', cs2)"
      "exec_args (argv @ [arg]) r' cs2 = Ok (a, rest)"
      by (subst (asm) exec_args.simps) (auto split: token.split_asm)
    then show ?thesis
      using "1.IH" [OF t refl Some, of arg "(r', cs2)" r' cs2] tokens_next_if_le [OF t] parse_redirs_le [of r cs1 r' cs2]
      by simp
  qed
qed

section \<open>The recursive descent\<close>

text \<open>The macro \<^verbatim>\<open>try_opt!\<close>: no command, like an error, ends the caller with the same result.\<close>

definition try_opt :: "'a option parsed \<Rightarrow> ('a \<Rightarrow> u8 list \<Rightarrow> 'b option parsed) \<Rightarrow> 'b option parsed" where
  "try_opt m f = obind m (\<lambda>(cmd, cs). case cmd of None \<Rightarrow> Ok (None, cs) | Some cmd \<Rightarrow> f cmd cs)"

text \<open>One \<^verbatim>\<open>if\<close> of \<^verbatim>\<open>parse_pipe\<close>: after the operator \<open>p\<close> the right side is read by \<open>rec\<close>.\<close>

definition operator_opt ::
    "punct \<Rightarrow> (command \<Rightarrow> command \<Rightarrow> command_kind) \<Rightarrow> (u8 list \<Rightarrow> command option parsed) \<Rightarrow> command \<Rightarrow> u8 list \<Rightarrow> command option parsed"
  where
  "operator_opt p mk rec cmd cs =
     obind (next_if_punct p cs) (\<lambda>(b, cs).
     if b then try_opt (rec cs) (\<lambda>right cs. Ok (Some (command_new (mk cmd right)), cs)) else Ok (Some cmd, cs))"

lemma try_opt_cong [fundef_cong]:
  "m = m' \<Longrightarrow> (\<And>cmd cs. m' = Ok (Some cmd, cs) \<Longrightarrow> f cmd cs = f' cmd cs) \<Longrightarrow> try_opt m f = try_opt m' f'"
  unfolding try_opt_def by (auto intro!: obind_cong split: option.split)

lemma operator_opt_cong [fundef_cong]:
  "p = p' \<Longrightarrow> mk = mk' \<Longrightarrow> cmd = cmd' \<Longrightarrow> cs = cs' \<Longrightarrow>
   (\<And>cs1. next_if_punct p' cs' = Ok (True, cs1) \<Longrightarrow> rec cs1 = rec' cs1) \<Longrightarrow>
   operator_opt p mk rec cmd cs = operator_opt p' mk' rec' cmd' cs'"
  unfolding operator_opt_def by (auto intro!: obind_cong)

lemma try_opt_eq_Ok:
  "try_opt m f = Ok (r, rest) \<longleftrightarrow> (m = Ok (None, rest) \<and> r = None) \<or> (\<exists>cmd cs. m = Ok (Some cmd, cs) \<and> f cmd cs = Ok (r, rest))"
  by (force simp: try_opt_def split: option.split_asm)

lemma try_opt_le:
  assumes "try_opt m f = Ok (r, rest)" and "\<And>cmd cs. m = Ok (cmd, cs) \<Longrightarrow> length cs \<le> n"
    and "\<And>cmd cs. m = Ok (Some cmd, cs) \<Longrightarrow> f cmd cs = Ok (r, rest) \<Longrightarrow> length rest \<le> length cs"
  shows "length rest \<le> n"
  using assms(1) unfolding try_opt_eq_Ok by (metis assms(2,3) le_trans)

lemma operator_opt_le:
  assumes "operator_opt p mk rec cmd cs = Ok (r, rest)"
    and "\<And>cs1 r. next_if_punct p cs = Ok (True, cs1) \<Longrightarrow> rec cs1 = Ok (r, rest) \<Longrightarrow> length rest \<le> length cs1"
  shows "length rest \<le> length cs"
proof -
  obtain b cs1 where n: "next_if_punct p cs = Ok (b, cs1)"
    using assms(1) by (auto simp: operator_opt_def)
  then show ?thesis
    using assms next_if_punct_le [OF n] by (cases b) (fastforce simp: operator_opt_def try_opt_eq_Ok)+
qed

function parse_line :: "u8 list \<Rightarrow> command list parsed"
  and parse_pipe :: "u8 list \<Rightarrow> command option parsed"
  and parse_subshell :: "u8 list \<Rightarrow> command option parsed"
  and parse_exec :: "u8 list \<Rightarrow> command option parsed" where
  "parse_line cs =
     obind (parse_pipe cs) (\<lambda>(cmd, cs).
     case cmd of
       None \<Rightarrow> Ok ([], cs)
     | Some cmd \<Rightarrow>
         obind (next_if_punct And_P cs) (\<lambda>(b, cs).
         let cmd = (if b then Command (kind cmd) True else cmd) in
         obind (next_if_punct Semicolon cs) (\<lambda>(b, cs).
         if b then obind (parse_line cs) (\<lambda>(list, cs). Ok (cmd # list, cs)) else Ok ([cmd], cs))))"
| "parse_pipe cs =
     try_opt (parse_exec cs) (\<lambda>cmd cs.
     try_opt (operator_opt Pipe_P Pipe_C parse_pipe cmd cs) (\<lambda>cmd cs.
     try_opt (operator_opt AndAnd LogicalAnd parse_pipe cmd cs) (\<lambda>cmd cs.
     operator_opt OrOr LogicalOr parse_pipe cmd cs)))"
| "parse_subshell cs =
     obind (parse_line cs) (\<lambda>(cmd, cs).
     obind (next_if_punct RParen cs) (\<lambda>(b, cs).
     if \<not> b then Err (MissingPunct RParen)
     else obind (parse_redirs redirect_new cs) (\<lambda>(redirect, cs).
       Ok (Some (command_new (Subshell cmd redirect)), cs))))"
| "parse_exec cs =
     obind (next_if_punct LParen cs) (\<lambda>(b, cs).
     if b then parse_subshell cs
     else
       obind (parse_redirs redirect_new cs) (\<lambda>(redirect, cs).
       obind (exec_args [] redirect cs) (\<lambda>((argv, redirect), cs).
       if argv = [] then Ok (None, cs) else Ok (Some (command_new (Exec argv redirect)), cs))))"
  by pat_completeness auto

lemma parser_le:
  "parse_line_parse_pipe_parse_subshell_parse_exec_dom (Inl (Inl cs)) \<Longrightarrow>
     parse_line cs = Ok (list, rest) \<Longrightarrow> length rest \<le> length cs"
  "parse_line_parse_pipe_parse_subshell_parse_exec_dom (Inl (Inr cs)) \<Longrightarrow>
     parse_pipe cs = Ok (cmd, rest) \<Longrightarrow> length rest \<le> length cs"
  "parse_line_parse_pipe_parse_subshell_parse_exec_dom (Inr (Inl cs)) \<Longrightarrow>
     parse_subshell cs = Ok (cmd, rest) \<Longrightarrow> length rest \<le> length cs"
  "parse_line_parse_pipe_parse_subshell_parse_exec_dom (Inr (Inr cs)) \<Longrightarrow>
     parse_exec cs = Ok (cmd, rest) \<Longrightarrow> length rest \<le> length cs"
proof (induction arbitrary: list rest and cmd rest and cmd rest and cmd rest
    rule: parse_line_parse_pipe_parse_subshell_parse_exec.pinduct)
  case (1 cs)
  obtain cmd cs1 where p: "parse_pipe cs = Ok (cmd, cs1)"
    using 1(1,4) by (auto simp: parse_line.psimps)
  note le = 1(2) [OF p]
  show ?case
  proof (cases cmd)
    case None
    then show ?thesis
      using 1(1,4) p le by (simp add: parse_line.psimps)
  next
    case (Some cmd')
    with 1(1,4) p obtain b1 cs2 b2 cs3 where n: "next_if_punct And_P cs1 = Ok (b1, cs2)" "next_if_punct Semicolon cs2 = Ok (b2, cs3)"
      and r: "b2 \<longrightarrow> (\<exists>list. parse_line cs3 = Ok (list, rest))" "\<not> b2 \<longrightarrow> rest = cs3"
      by (auto simp: parse_line.psimps Let_def split: if_splits)
    show ?thesis
      using 1(3) [OF p refl Some n(1) refl refl n(2) refl] r le next_if_punct_le [OF n(1)] next_if_punct_le [OF n(2)]
      by (cases b2) auto
  qed
next
  case (2 cs)
  show ?case
  proof (rule try_opt_le [OF 2(6) [unfolded parse_pipe.psimps [OF 2(1)]]], goal_cases)
    case (2 cmd cs1)
    note e = 2(1)
    from 2(2) show ?case
    proof (rule try_opt_le, goal_cases)
      case 1
      then show ?case
        by (rule operator_opt_le) (rule "2.IH"(2) [OF e])
    next
      case (2 cmd cs2)
      note p = 2(1)
      from 2(2) show ?case
      proof (rule try_opt_le, goal_cases)
        case 1
        then show ?case
          by (rule operator_opt_le) (rule "2.IH"(3) [OF e p])
      next
        case (2 cmd cs3)
        from 2(2) show ?case
          by (rule operator_opt_le) (rule "2.IH"(4) [OF e p 2(1)])
      qed
    qed
  qed (rule "2.IH"(1))
next
  case (3 cs)
  then obtain cmd' cs1 cs2 where "parse_line cs = Ok (cmd', cs1)" "next_if_punct RParen cs1 = Ok (True, cs2)"
    "\<exists>redirect. parse_redirs redirect_new cs2 = Ok (redirect, rest)"
    by (auto simp: parse_subshell.psimps split: if_splits)
  then show ?case
    using 3(2) [of cmd' cs1] next_if_punct_le [of RParen cs1 True cs2] parse_redirs_le [of redirect_new cs2 _ rest] by fastforce
next
  case (4 cs)
  then obtain b cs1 where n: "next_if_punct LParen cs = Ok (b, cs1)"
    by (auto simp: parse_exec.psimps)
  show ?case
  proof (cases b)
    case True
    then show ?thesis
      using 4(1,3) 4(2) [OF n refl True] n next_if_punct_le [OF n] by (auto simp: parse_exec.psimps)
  next
    case False
    with n 4(1,3) obtain r cs2 a where "parse_redirs redirect_new cs1 = Ok (r, cs2)" "exec_args [] r cs2 = Ok (a, rest)"
      by (auto simp: parse_exec.psimps split: if_splits)
    then show ?thesis
      using next_if_punct_le [OF n] parse_redirs_le [of redirect_new cs1 r cs2] exec_args_le [of "[]" r cs2 a rest] by simp
  qed
qed

lemma operator_parse_pipe_le:
  "operator_opt p mk parse_pipe cmd cs = Ok (r, rest) \<Longrightarrow>
   (\<And>cs1. next_if_punct p cs = Ok (True, cs1) \<Longrightarrow> parse_line_parse_pipe_parse_subshell_parse_exec_dom (Inl (Inr cs1))) \<Longrightarrow>
   length rest \<le> length cs"
  by (erule operator_opt_le) (rule parser_le(2))

termination parse_line
proof (relation "measure (case_sum (case_sum (\<lambda>cs. 4 * length cs + 2) (\<lambda>cs. 4 * length cs + 1))
    (case_sum (\<lambda>cs. 4 * length cs + 3) (\<lambda>cs. 4 * length cs)))", goal_cases)
  case (6 cs cmd cs1 cmd1 cs2 cs3)
  then show ?case
    using operator_parse_pipe_le [OF 6(2,4)] parser_le(4) [OF 6(5,1)] next_if_punct_le [OF 6(3)] by simp
next
  case (7 cs cmd cs1 cmd1 cs2 cmd2 cs3 cs4)
  then show ?case
    using operator_parse_pipe_le [OF 7(2,6)] operator_parse_pipe_le [OF 7(3,5)] parser_le(4) [OF 7(7,1)] next_if_punct_le [OF 7(4)]
    by simp
qed (auto dest!: parser_le next_if_punct_le split: if_splits)

declare parse_line.simps [simp del] parse_pipe.simps [simp del] parse_subshell.simps [simp del] parse_exec.simps [simp del]

definition parse :: "u8 list \<Rightarrow> (command list, parse_error) outcome" where
  "parse input =
     obind (parse_line input) (\<lambda>(list, cs).
     obind (tokens_next cs) (\<lambda>(t, cs).
     case t of Some token \<Rightarrow> Err (Leftovers token) | None \<Rightarrow> Ok list))"

text \<open>All that the iterator returns, up to its first error.\<close>

function tokens :: "u8 list \<Rightarrow> (token list, tokenize_error) outcome" where
  "tokens cs =
     obind (next_token cs) (\<lambda>(t, cs).
     case t of None \<Rightarrow> Ok [] | Some t \<Rightarrow> obind (tokens cs) (\<lambda>ts. Ok (t # ts)))"
  by pat_completeness auto
termination
  by (relation "measure length") (auto dest!: next_token_cases)

declare tokens.simps [simp del]

section \<open>The words\<close>

text \<open>
  What a word stands for: a byte with no meaning of its own and an escaped byte stand for themselves, a backslash is an escape in
  double quotes and a plain byte in single quotes, and adjacent parts join.
\<close>

inductive quoted :: "u8 list \<Rightarrow> u8 list \<Rightarrow> bool" where
  quoted_Nil: "quoted [] []"
| quoted_plain: "c \<noteq> DQUOTE \<Longrightarrow> c \<noteq> BACKSLASH \<Longrightarrow> quoted t s \<Longrightarrow> quoted (c # t) (c # s)"
| quoted_escape: "quoted t s \<Longrightarrow> quoted (BACKSLASH # c # t) (c # s)"

definition plain :: "u8 \<Rightarrow> bool" where
  "plain c \<longleftrightarrow> \<not> is_ascii_whitespace c \<and> c \<notin> set SYMBOLS \<and> c \<notin> {BACKSLASH, DQUOTE, SQUOTE}"

inductive word_text :: "u8 list \<Rightarrow> u8 list \<Rightarrow> bool" where
  word_Nil: "word_text [] []"
| word_plain: "plain c \<Longrightarrow> word_text t s \<Longrightarrow> word_text (c # t) (c # s)"
| word_escape: "word_text t s \<Longrightarrow> word_text (BACKSLASH # c # t) (c # s)"
| word_double: "quoted q v \<Longrightarrow> word_text t s \<Longrightarrow> word_text (DQUOTE # q @ DQUOTE # t) (v @ s)"
| word_single: "SQUOTE \<notin> set q \<Longrightarrow> word_text t s \<Longrightarrow> word_text (SQUOTE # q @ SQUOTE # t) (q @ s)"

definition delimited :: "u8 list \<Rightarrow> bool" where
  "delimited rest = (case rest of [] \<Rightarrow> True | c # _ \<Rightarrow> is_ascii_whitespace c \<or> c \<in> set SYMBOLS)"

lemma special_bytes [simp]:
  "BACKSLASH \<noteq> DQUOTE" "DQUOTE \<noteq> BACKSLASH" "BACKSLASH \<noteq> SQUOTE" "SQUOTE \<noteq> BACKSLASH" "DQUOTE \<noteq> SQUOTE" "SQUOTE \<noteq> DQUOTE"
  "\<not> is_ascii_whitespace BACKSLASH" "\<not> is_ascii_whitespace DQUOTE" "\<not> is_ascii_whitespace SQUOTE"
  "BACKSLASH \<notin> set SYMBOLS" "DQUOTE \<notin> set SYMBOLS" "SQUOTE \<notin> set SYMBOLS"
  by (simp_all add: BACKSLASH_def DQUOTE_def SQUOTE_def is_ascii_whitespace_def SYMBOLS_def)

text \<open>The counting loop, between two bytes that are not escaped, with its flags written out.\<close>

abbreviation flags :: "bool \<Rightarrow> bool \<Rightarrow> bool \<Rightarrow> scan_state" where
  "flags dq sq n \<equiv> \<lparr>in_double_quotes = dq, in_single_quotes = sq, escaped = False, needs_allocation = n\<rparr>"

lemma count_loop_stop: "delimited rest \<Longrightarrow> count_loop (flags False False n) rest = (flags False False n, rest)"
  by (cases rest) (auto simp: delimited_def)

lemma count_loop_quoted:
  "quoted q v \<Longrightarrow> count_loop (flags True False True) (q @ cs) = count_loop (flags True False True) cs"
  by (induction rule: quoted.induct) auto

lemma count_loop_single:
  "SQUOTE \<notin> set q \<Longrightarrow> count_loop (flags False True True) (q @ cs) = count_loop (flags False True True) cs"
  by (induction q) auto

lemma count_loop_word:
  "word_text t s \<Longrightarrow> delimited rest \<Longrightarrow> \<exists>n'. count_loop (flags False False n) (t @ rest) = (flags False False n', rest) \<and> (n \<longrightarrow> n')
     \<and> (\<not> n' \<longrightarrow> s = t)"
proof (induction arbitrary: n rule: word_text.induct)
  case (word_double q v t s)
  then show ?case
    using word_double.IH [of True] by (auto simp: count_loop_quoted)
next
  case (word_single q t s)
  then show ?case
    using word_single.IH [of True] by (auto simp: count_loop_single)
next
  case (word_escape t s c)
  then show ?case
    using word_escape.IH [of True] by auto
next
  case (word_plain c t s)
  then show ?case
    using word_plain.IH [of n] by (auto simp: plain_def)
qed (auto simp: count_loop_stop)

lemma build_loop_quoted: "quoted q v \<Longrightarrow> build_loop True False False (q @ cs) = v @ build_loop True False False cs"
  by (induction rule: quoted.induct) auto

lemma build_loop_single: "SQUOTE \<notin> set q \<Longrightarrow> build_loop False True False (q @ cs) = q @ build_loop False True False cs"
  by (induction q) auto

lemma build_loop_word: "word_text t s \<Longrightarrow> build_loop False False False t = s"
  by (induction rule: word_text.induct) (simp_all add: plain_def build_loop_quoted build_loop_single)

lemma next_str_word:
  assumes "word_text t s" "delimited rest" "t @ rest \<noteq> []"
  shows "next_str (t @ rest) = Ok (Some s, rest)"
proof -
  obtain n where "count_loop scan_start (t @ rest) = (flags False False n, rest)" "\<not> n \<longrightarrow> s = t"
    using count_loop_word [OF assms(1,2), of False] unfolding scan_start_def by blast
  then show ?thesis
    using assms build_loop_word [OF assms(1)] by (auto simp: next_str_def)
qed

text \<open>The converse: from each state of the flags, what the counting loop passes over is the rest of a word.\<close>

definition rest_of_quoted :: "u8 list \<Rightarrow> bool" where
  "rest_of_quoted t \<longleftrightarrow> (\<exists>q v u. t = q @ DQUOTE # u \<and> quoted q v \<and> Ex (word_text u))"

definition rest_of_single :: "u8 list \<Rightarrow> bool" where
  "rest_of_single t \<longleftrightarrow> (\<exists>q u. t = q @ SQUOTE # u \<and> SQUOTE \<notin> set q \<and> Ex (word_text u))"

definition rest_of_word :: "scan_state \<Rightarrow> u8 list \<Rightarrow> bool" where
  "rest_of_word st t =
     (let P = (if in_double_quotes st then rest_of_quoted else if in_single_quotes st then rest_of_single else (\<lambda>t. Ex (word_text t)))
      in if escaped st then \<exists>c t'. t = c # t' \<and> P t' else P t)"

lemma rest_of_quoted_intros:
  "Ex (word_text t) \<Longrightarrow> rest_of_quoted (DQUOTE # t)"
  "rest_of_quoted t \<Longrightarrow> rest_of_quoted (BACKSLASH # c # t)"
  "rest_of_quoted t \<Longrightarrow> c \<noteq> DQUOTE \<Longrightarrow> c \<noteq> BACKSLASH \<Longrightarrow> rest_of_quoted (c # t)"
  unfolding rest_of_quoted_def by (metis append_Nil quoted_Nil, metis append_Cons quoted_escape, metis append_Cons quoted_plain)

lemma rest_of_single_intros:
  "Ex (word_text t) \<Longrightarrow> rest_of_single (SQUOTE # t)"
  "rest_of_single t \<Longrightarrow> c \<noteq> SQUOTE \<Longrightarrow> rest_of_single (c # t)"
  unfolding rest_of_single_def by (metis append_Nil empty_iff empty_set, metis append_Cons set_ConsD)

lemma rest_of_word_Nil: "Ex (word_text [])"
  using word_Nil by blast

lemma rest_of_word_intros:
  "Ex (word_text t) \<Longrightarrow> plain c \<Longrightarrow> Ex (word_text (c # t))"
  "Ex (word_text t) \<Longrightarrow> Ex (word_text (BACKSLASH # c # t))"
  "rest_of_quoted t \<Longrightarrow> Ex (word_text (DQUOTE # t))"
  "rest_of_single t \<Longrightarrow> Ex (word_text (SQUOTE # t))"
  unfolding rest_of_quoted_def rest_of_single_def by (blast intro: word_text.intros)+

lemma count_loop_is_word:
  "count_loop st cs = (st', rest) \<Longrightarrow> \<not> (in_double_quotes st \<and> in_single_quotes st) \<Longrightarrow> \<not> (escaped st \<and> in_single_quotes st) \<Longrightarrow>
   \<not> escaped st' \<Longrightarrow> \<not> in_double_quotes st' \<Longrightarrow> \<not> in_single_quotes st' \<Longrightarrow>
   delimited rest \<and> (\<exists>t. cs = t @ rest \<and> rest_of_word st t)"
proof (induction st cs rule: count_loop.induct)
  case (1 st)
  then show ?case
    by (auto simp: delimited_def rest_of_word_def intro: word_Nil)
next
  case (2 st c cs)
  have step: "\<And>st1. delimited rest \<and> (\<exists>t. cs = t @ rest \<and> rest_of_word st1 t) \<Longrightarrow> (\<And>t. rest_of_word st1 t \<Longrightarrow> rest_of_word st (c # t)) \<Longrightarrow>
    delimited rest \<and> (\<exists>t. c # cs = t @ rest \<and> rest_of_word st t)"
    by (metis append_Cons)
  note intros = rest_of_quoted_intros rest_of_single_intros rest_of_word_intros
  consider (esc) "escaped st" | (bs) "\<not> escaped st" "\<not> in_single_quotes st" "c = BACKSLASH"
    | (dq) "\<not> escaped st" "\<not> in_single_quotes st" "c = DQUOTE" | (sq) "\<not> escaped st" "\<not> in_double_quotes st" "c = SQUOTE"
    | (other) "\<not> escaped st" "\<not> (\<not> in_single_quotes st \<and> c = BACKSLASH)" "\<not> (\<not> in_single_quotes st \<and> c = DQUOTE)"
      "\<not> (\<not> in_double_quotes st \<and> c = SQUOTE)"
    by blast
  then show ?case
  proof cases
    case esc
    show ?thesis
      by (rule step [OF "2.IH"(1)]) (use "2.prems" esc in \<open>auto simp: rest_of_word_def\<close>)
  next
    case bs
    show ?thesis
      by (rule step [OF "2.IH"(2)]) (use "2.prems" bs in \<open>auto simp: rest_of_word_def Let_def intro: intros split: if_splits\<close>)
  next
    case dq
    show ?thesis
      by (rule step [OF "2.IH"(3)]) (use "2.prems" dq in \<open>auto simp: rest_of_word_def Let_def intro: intros split: if_splits\<close>)
  next
    case sq
    show ?thesis
      by (rule step [OF "2.IH"(4)]) (use "2.prems" sq in \<open>auto simp: rest_of_word_def Let_def intro: intros split: if_splits\<close>)
  next
    case other
    show ?thesis
    proof (cases "in_double_quotes st \<or> in_single_quotes st \<or> \<not> is_ascii_whitespace c \<and> c \<notin> set SYMBOLS")
      case True
      show ?thesis
        by (rule step [OF "2.IH"(5)])
          (use "2.prems" other True in \<open>auto simp: rest_of_word_def plain_def intro: intros split: if_splits\<close>)
    next
      case False
      then show ?thesis
        using "2.prems" other by (auto simp: delimited_def rest_of_word_def intro: rest_of_word_Nil)
    qed
  qed
qed

text \<open>
  C20. Reading a word of a command line in two passes, one that looks for the end of the word and one that copies it, gives what the
  grammar of words says: \<^verbatim>\<open>next_str\<close> on a rest that is not empty returns \<open>s\<close> with \<open>rest\<close> unread if and only if
  the input is a word text that stands for \<open>s\<close> (plain bytes, escaped bytes, double quotes with escapes, single quotes without), followed
  by the end of the input, white space or an operator.
\<close>

theorem next_str_words:
  assumes "cs \<noteq> []"
  shows "next_str cs = Ok (Some s, rest) \<longleftrightarrow> (\<exists>t. cs = t @ rest \<and> word_text t s \<and> delimited rest)"
proof
  assume n: "next_str cs = Ok (Some s, rest)"
  obtain st where l: "count_loop scan_start cs = (st, rest)" "\<not> escaped st" "\<not> in_double_quotes st" "\<not> in_single_quotes st"
    using n assms by (auto simp: next_str_def Let_def split: prod.splits if_splits)
  then obtain t v where t: "cs = t @ rest" "word_text t v" "delimited rest"
    using count_loop_is_word [OF l(1)] by (auto simp: scan_start_def rest_of_word_def)
  then have "next_str cs = Ok (Some v, rest)"
    using next_str_word assms by blast
  then show "\<exists>t. cs = t @ rest \<and> word_text t s \<and> delimited rest"
    using n t by auto
next
  assume "\<exists>t. cs = t @ rest \<and> word_text t s \<and> delimited rest"
  then show "next_str cs = Ok (Some s, rest)"
    using next_str_word assms by blast
qed

text \<open>The witness: \<^verbatim>\<open>a"b\"c"'\d';\<close>\<close>

theorem next_str_words_witness:
  "(\<exists>t. [0x61, 0x22, 0x62, 0x5c, 0x22, 0x63, 0x22, 0x27, 0x5c, 0x64, 0x27, 0x3b] = t @ [0x3b]
      \<and> word_text t [0x61, 0x62, 0x22, 0x63, 0x5c, 0x64] \<and> delimited [0x3b])"
  by (rule iffD1 [OF next_str_words]) (simp, simp add: next_str_def scan_start_def BACKSLASH_def DQUOTE_def SQUOTE_def is_ascii_whitespace_def SYMBOLS_def)

section \<open>Writing tokens\<close>

text \<open>One way to write a token so that it is read back: every byte of a word escaped, and a space after each token.\<close>

fun show_token :: "token \<Rightarrow> u8 list" where
  "show_token (Str s) = (if s = [] then [DQUOTE, DQUOTE] else concat (map (\<lambda>c. [BACKSLASH, c]) s)) @ [0x20]"
| "show_token (Punct p) = punct_str p @ [0x20]"

lemma word_text_escapes: "word_text (concat (map (\<lambda>c. [BACKSLASH, c]) s)) s"
  by (induction s) (auto intro: word_text.intros)

lemma word_text_empty: "word_text [DQUOTE, DQUOTE] []"
  using word_double [OF quoted_Nil word_Nil] by simp

lemma delimited_space: "delimited (0x20 # cs)"
  by (simp add: delimited_def is_ascii_whitespace_def)

lemma next_token_show: "next_token (show_token t @ cs) = Ok (Some t, 0x20 # cs)"
proof (cases t)
  case (Punct p)
  then show ?thesis
    by (cases p) (simp_all add: next_token_symbol)
next
  case (Str s)
  define w where "w = (if s = [] then [DQUOTE, DQUOTE] else concat (map (\<lambda>c. [BACKSLASH, c]) s))"
  have "word_text w s"
    using word_text_escapes word_text_empty by (simp add: w_def)
  then have "next_str (w @ 0x20 # cs) = Ok (Some s, 0x20 # cs)"
    by (rule next_str_word) (simp_all add: delimited_space)
  moreover have "hd w \<in> {DQUOTE, BACKSLASH}" "w \<noteq> []"
    by (cases s; simp add: w_def)+
  then have "next_token (w @ 0x20 # cs) = obind (next_str (w @ 0x20 # cs)) (\<lambda>(s, cs). Ok (map_option Str s, cs))"
    by (cases w) (auto simp: next_token_word)
  ultimately show ?thesis
    using Str by (simp add: w_def [symmetric])
qed

lemma tokens_space: "tokens (0x20 # cs) = tokens cs"
  by (subst (1 2) tokens.simps) (simp add: next_token_skip is_ascii_whitespace_def)

text \<open>
  C28. No sequence of words and operators is out of reach of the shell's quoting: whatever bytes the words have, operators,
  quotes and white space included, and also when a word is empty, the tokenizer reads back exactly the tokens that were written, each
  followed by a space and with every byte of a word escaped.
\<close>

theorem tokens_show: "tokens (concat (map show_token ts)) = Ok ts"
proof (induction ts)
  case (Cons t ts)
  then show ?case
    by (subst tokens.simps) (simp del: show_token.simps add: next_token_show tokens_space)
qed (simp add: tokens.simps)

section \<open>The commands the parser can build\<close>

fun is_simple :: "command_kind \<Rightarrow> bool" where
  "is_simple (Exec argv r) = True"
| "is_simple (Subshell l r) = True"
| "is_simple k = False"

text \<open>
  A command of a pipeline is not in the background, a program has a name, and the left side of an operator is a program or a
  subshell: all operators bind alike and to the right.
\<close>

fun wf_kind :: "command_kind \<Rightarrow> bool" and wf_operand :: "command \<Rightarrow> bool" and wf_line :: "command list \<Rightarrow> bool" where
  "wf_kind (Exec argv r) = (argv \<noteq> [])"
| "wf_kind (Subshell l r) = wf_line l"
| "wf_kind (Pipe_C l r) = (is_simple (kind l) \<and> wf_operand l \<and> wf_operand r)"
| "wf_kind (LogicalAnd l r) = (is_simple (kind l) \<and> wf_operand l \<and> wf_operand r)"
| "wf_kind (LogicalOr l r) = (is_simple (kind l) \<and> wf_operand l \<and> wf_operand r)"
| "wf_operand (Command k bg) = (\<not> bg \<and> wf_kind k)"
| "wf_line [] = True"
| "wf_line (Command k bg # cs) = (wf_kind k \<and> wf_line cs)"

definition redirect_tokens :: "redirect \<Rightarrow> token list" where
  "redirect_tokens r =
     (case rd_stdin r of None \<Rightarrow> [] | Some f \<Rightarrow> [Punct Lt, Str f]) @
     (case rd_stdout r of
        None \<Rightarrow> []
      | Some (f, Truncate) \<Rightarrow> [Punct Gt, Str f]
      | Some (f, Append) \<Rightarrow> [Punct GtGt, Str f])"

fun kind_tokens :: "command_kind \<Rightarrow> token list" and command_tokens :: "command \<Rightarrow> token list"
  and line_tokens :: "command list \<Rightarrow> token list" where
  "kind_tokens (Exec argv r) = map Str argv @ redirect_tokens r"
| "kind_tokens (Subshell l r) = Punct LParen # line_tokens l @ Punct RParen # redirect_tokens r"
| "kind_tokens (Pipe_C l r) = command_tokens l @ Punct Pipe_P # command_tokens r"
| "kind_tokens (LogicalAnd l r) = command_tokens l @ Punct AndAnd # command_tokens r"
| "kind_tokens (LogicalOr l r) = command_tokens l @ Punct OrOr # command_tokens r"
| "command_tokens (Command k bg) = kind_tokens k @ (if bg then [Punct And_P] else [])"
| "line_tokens [] = []"
| "line_tokens [c] = command_tokens c"
| "line_tokens (c # c' # cs) = command_tokens c @ Punct Semicolon # line_tokens (c' # cs)"

section \<open>The parser on the tokens\<close>

text \<open>A parser, on the text \<open>cs\<close>, returns \<open>x\<close> and leaves a text whose tokens are \<open>ts\<close>.\<close>

definition yields :: "'a parsed \<Rightarrow> 'a \<Rightarrow> token list \<Rightarrow> bool" where
  "yields m x ts \<longleftrightarrow> (\<exists>cs. m = Ok (x, cs) \<and> tokens cs = Ok ts)"

lemma yields_bind:
  "yields m x ts \<Longrightarrow> (\<And>cs. tokens cs = Ok ts \<Longrightarrow> yields (f (x, cs)) y ts') \<Longrightarrow> yields (obind m f) y ts'"
  by (auto simp: yields_def)

lemma yields_Ok [simp]: "yields (Ok (x, cs)) y ts \<longleftrightarrow> x = y \<and> tokens cs = Ok ts"
  by (auto simp: yields_def)

lemma tokens_eq_Nil: "tokens cs = Ok [] \<longleftrightarrow> next_token cs = Ok (None, [])"
  using next_token_cases [of cs None] by (subst tokens.simps) (auto split: option.splits)

lemma tokens_eq_Cons: "tokens cs = Ok (t # ts) \<longleftrightarrow> (\<exists>cs'. next_token cs = Ok (Some t, cs') \<and> tokens cs' = Ok ts)"
  by (subst tokens.simps) (auto split: option.splits)

lemma tokens_Nil [simp]: "tokens [] = Ok []"
  by (simp add: tokens_eq_Nil)

lemma tokens_next_yields:
  "tokens cs = Ok [] \<Longrightarrow> yields (tokens_next cs) None []"
  "tokens cs = Ok (t # ts) \<Longrightarrow> yields (tokens_next cs) (Some t) ts"
  by (auto simp: yields_def tokens_eq_Nil tokens_eq_Cons)

lemma tokens_next_if_yields:
  "tokens cs = Ok [] \<Longrightarrow> yields (tokens_next_if f cs) None []"
  "tokens cs = Ok (t # ts) \<Longrightarrow> f t \<Longrightarrow> yields (tokens_next_if f cs) (Some t) ts"
  "tokens cs = Ok (t # ts) \<Longrightarrow> \<not> f t \<Longrightarrow> yields (tokens_next_if f cs) None (t # ts)"
  by (auto simp: tokens_next_if_def yields_def tokens_eq_Nil tokens_eq_Cons)

definition starts :: "punct \<Rightarrow> token list \<Rightarrow> bool" where
  "starts p ts = (case ts of [] \<Rightarrow> False | t # _ \<Rightarrow> t = Punct p)"

lemma starts_simps [simp]:
  "\<not> starts p []" "starts p (Punct q # ts) \<longleftrightarrow> q = p" "\<not> starts p (Str s # ts)"
  by (simp_all add: starts_def)

lemma next_if_punct_yields:
  "tokens cs = Ok (Punct p # ts) \<Longrightarrow> yields (next_if_punct p cs) True ts"
  "tokens cs = Ok ts \<Longrightarrow> \<not> starts p ts \<Longrightarrow> yields (next_if_punct p cs) False ts"
proof -
  show "tokens cs = Ok (Punct p # ts) \<Longrightarrow> yields (next_if_punct p cs) True ts"
    unfolding next_if_punct_def by (rule yields_bind [OF tokens_next_if_yields(2)]) auto
  show "yields (next_if_punct p cs) False ts" if "tokens cs = Ok ts" "\<not> starts p ts"
  proof (cases ts)
    case Nil
    then show ?thesis
      using that unfolding next_if_punct_def by (intro yields_bind [OF tokens_next_if_yields(1)]) auto
  next
    case (Cons t ts')
    then show ?thesis
      using that unfolding next_if_punct_def by (intro yields_bind [OF tokens_next_if_yields(3)]) (auto simp: starts_def)
  qed
qed

lemmas yields_punct = yields_bind [OF next_if_punct_yields(1)] yields_bind [OF next_if_punct_yields(2)]

lemma yields_try_opt:
  "yields m (Some x) ts \<Longrightarrow> (\<And>cs. tokens cs = Ok ts \<Longrightarrow> yields (f x cs) y ts') \<Longrightarrow> yields (try_opt m f) y ts'"
  "yields m None ts \<Longrightarrow> yields (try_opt m f) None ts"
  unfolding try_opt_def by (erule yields_bind, simp)+

lemma yields_operator:
  "tokens cs = Ok ts \<Longrightarrow> \<not> starts p ts \<Longrightarrow> yields (operator_opt p mk rec cmd cs) (Some cmd) ts"
  unfolding operator_opt_def by (rule yields_punct(2), assumption+, simp)

lemma yields_operator_right:
  assumes "tokens cs = Ok (Punct p # ts)" and "\<And>cs. tokens cs = Ok ts \<Longrightarrow> yields (rec cs) right ts'"
  shows "yields (operator_opt p mk rec cmd cs) (map_option (command_new \<circ> mk cmd) right) ts'"
  unfolding operator_opt_def
proof (rule yields_punct(1) [OF assms(1)], goal_cases)
  case (1 cs)
  then show ?case
    using assms(2) [OF 1] by (cases right) (auto intro: yields_try_opt)
qed

definition redirects_end :: "token list \<Rightarrow> bool" where
  "redirects_end ts \<longleftrightarrow> \<not> starts Lt ts \<and> \<not> starts Gt ts \<and> \<not> starts GtGt ts"

lemma redir_mode_yields:
  "tokens cs = Ok ts \<Longrightarrow> redirects_end ts \<Longrightarrow> yields (redir_mode cs) None ts"
  "tokens cs = Ok (Punct Lt # ts) \<Longrightarrow> yields (redir_mode cs) (Some Redir_Stdin) ts"
  "tokens cs = Ok (Punct Gt # ts) \<Longrightarrow> yields (redir_mode cs) (Some (Redir_Stdout Truncate)) ts"
  "tokens cs = Ok (Punct GtGt # ts) \<Longrightarrow> yields (redir_mode cs) (Some (Redir_Stdout Append)) ts"
  unfolding redir_mode_def redirects_end_def
     apply (rule yields_punct(2), assumption, simp, simp)
     apply (rule yields_punct(2), assumption, simp, simp)
     apply (rule yields_punct(2), assumption, simp, simp)
    apply (rule yields_punct(1), assumption, simp)
   apply (rule yields_punct(2), assumption, simp, simp)
   apply (rule yields_punct(1), assumption, simp)
  apply (rule yields_punct(2), assumption, simp, simp)
  apply (rule yields_punct(2), assumption, simp, simp)
  apply (rule yields_punct(1), assumption, simp)
  done

lemma parse_redirs_none: "tokens cs = Ok ts \<Longrightarrow> redirects_end ts \<Longrightarrow> yields (parse_redirs r cs) r ts"
  unfolding parse_redirs.simps [of r cs] by (rule yields_bind [OF redir_mode_yields(1)]) simp_all

lemma parse_redirs_step:
  assumes "\<And>cs. tokens cs = Ok ts \<Longrightarrow> yields (parse_redirs (set_redirect m f r) cs) r' ts'"
    and "yields (redir_mode cs) (Some m) (Str f # ts)"
  shows "yields (parse_redirs r cs) r' ts'"
  unfolding parse_redirs.simps [of r cs]
proof (rule yields_bind [OF assms(2)], goal_cases)
  case (1 cs)
  then show ?case
    using assms(1) by (simp add: yields_bind [OF tokens_next_yields(2)])
qed

lemma parse_redirs_yields:
  assumes "tokens cs = Ok (redirect_tokens r @ ts)" "redirects_end ts"
  shows "yields (parse_redirs redirect_new cs) r ts"
proof -
  obtain i o' where r: "r = \<lparr>rd_stdin = i, rd_stdout = o'\<rparr>"
    by (cases r)
  define r0 where "r0 = \<lparr>rd_stdin = i, rd_stdout = None\<rparr>"
  define out where "out = (case o' of None \<Rightarrow> [] | Some (f, Truncate) \<Rightarrow> [Punct Gt, Str f] | Some (f, Append) \<Rightarrow> [Punct GtGt, Str f])"
  have out: "yields (parse_redirs r0 cs) r ts" if "tokens cs = Ok (out @ ts)" for cs
  proof (cases o')
    case None
    then show ?thesis
      using that assms(2) parse_redirs_none by (simp add: out_def r r0_def)
  next
    case (Some p)
    then obtain f m where p: "o' = Some (f, m)"
      by (cases p) auto
    have "yields (redir_mode cs) (Some (Redir_Stdout m)) (Str f # ts)"
      using that p redir_mode_yields(3,4) by (cases m) (simp_all add: out_def)
    then show ?thesis
      by (rule parse_redirs_step [rotated]) (simp add: p r r0_def parse_redirs_none assms(2))
  qed
  show ?thesis
  proof (cases i)
    case None
    then show ?thesis
      using out [of cs] assms(1) by (simp add: redirect_tokens_def r r0_def out_def redirect_new_def)
  next
    case (Some f)
    then have "yields (redir_mode cs) (Some Redir_Stdin) (Str f # out @ ts)"
      using assms(1) by (intro redir_mode_yields(2)) (simp add: redirect_tokens_def r out_def)
    then show ?thesis
      by (rule parse_redirs_step [rotated]) (use out Some in \<open>simp add: redirect_new_def r0_def\<close>)
  qed
qed

text \<open>What may come after a program, after a command and after a list of commands.\<close>

definition exec_ends :: "token list \<Rightarrow> bool" where
  "exec_ends ts = (case ts of [] \<Rightarrow> True | t # _ \<Rightarrow> \<not> takes_arg t)"

definition operators_end :: "token list \<Rightarrow> bool" where
  "operators_end ts = (case ts of [] \<Rightarrow> True | t # _ \<Rightarrow> t \<in> {Punct RParen, Punct And_P, Punct Semicolon})"

definition line_ends :: "token list \<Rightarrow> bool" where
  "line_ends ts = (case ts of [] \<Rightarrow> True | t # _ \<Rightarrow> t = Punct RParen)"

lemma takes_arg_simps [simp]:
  "takes_arg (Str s)" "takes_arg (Punct p) \<longleftrightarrow> p \<in> {LParen, Lt, Gt, GtGt}"
  unfolding takes_arg_def EXEC_TERMINATOR_def by simp (cases p; simp)

lemma exec_ends_simps [simp]:
  "exec_ends []" "exec_ends (t # ts) \<longleftrightarrow> \<not> takes_arg t"
  by (simp_all add: exec_ends_def)

lemma operators_end_simps [simp]:
  "operators_end []" "operators_end (t # ts) \<longleftrightarrow> t \<in> {Punct RParen, Punct And_P, Punct Semicolon}"
  by (simp_all add: operators_end_def)

lemma ends_imp: "line_ends ts \<Longrightarrow> operators_end ts" "operators_end ts \<Longrightarrow> exec_ends ts" "exec_ends ts \<Longrightarrow> redirects_end ts"
  "exec_ends ts \<Longrightarrow> \<not> starts LParen ts"
  by (cases ts; auto simp: line_ends_def operators_end_def redirects_end_def starts_def)+

lemma operators_end_starts: "operators_end ts \<Longrightarrow> p \<in> {Pipe_P, AndAnd, OrOr} \<Longrightarrow> \<not> starts p ts"
  by (cases ts) (auto simp: operators_end_def)

lemma exec_args_yields:
  assumes "exec_ends ts"
  shows "tokens cs = Ok (map Str argv @ (if argv = [] then [] else redirect_tokens r) @ ts) \<Longrightarrow>
    (argv \<noteq> [] \<longrightarrow> r0 = redirect_new) \<Longrightarrow> yields (exec_args acc r0 cs) (acc @ argv, if argv = [] then r0 else r) ts"
proof (induction argv arbitrary: acc r0 cs)
  case Nil
  then have "yields (tokens_next_if takes_arg cs) None ts"
    using assms tokens_next_if_yields(1,3) by (cases ts) simp_all
  then show ?case
    unfolding exec_args.simps [of acc r0 cs] by (rule yields_bind) simp
next
  case (Cons arg argv)
  then have t: "tokens cs = Ok (Str arg # map Str argv @ redirect_tokens r @ ts)"
    by simp
  have args: "yields (exec_args (acc @ [arg]) r1 cs) (acc @ arg # argv, r) ts"
    if "tokens cs = Ok (map Str argv @ (if argv = [] then [] else redirect_tokens r) @ ts)" "r1 = (if argv = [] then r else redirect_new)"
    for cs r1
    using Cons.IH [of cs r1 "acc @ [arg]"] that by (simp split: if_splits)
  have redirs: "yields (parse_redirs redirect_new cs) (if argv = [] then r else redirect_new)
      (map Str argv @ (if argv = [] then [] else redirect_tokens r) @ ts)"
    if "tokens cs = Ok (map Str argv @ redirect_tokens r @ ts)" for cs
    using that parse_redirs_yields [of cs r ts] parse_redirs_none [OF that, of redirect_new] ends_imp(3) [OF assms]
    by (cases argv) (simp_all add: redirects_end_def)
  show ?case
    unfolding exec_args.simps [of acc r0 cs]
  proof (rule yields_bind [OF tokens_next_if_yields(2) [OF t]], simp, goal_cases)
    case (1 cs)
    show ?case
      using yields_bind [OF redirs [OF 1], of "\<lambda>(redirect, cs). exec_args (acc @ [arg]) redirect cs"] args Cons.prems by simp
  qed
qed

lemma parse_exec_program:
  assumes "tokens cs = Ok (map Str argv @ (if argv = [] then [] else redirect_tokens r) @ ts)" "exec_ends ts"
  shows "yields (parse_exec cs) (if argv = [] then None else Some (command_new (Exec argv r))) ts"
proof -
  let ?ts = "map Str argv @ (if argv = [] then [] else redirect_tokens r) @ ts"
  have l: "\<not> starts LParen ?ts" "redirects_end ?ts"
    using ends_imp(3,4) [OF assms(2)] by (cases argv; simp add: redirects_end_def)+
  show ?thesis
    unfolding parse_exec.simps [of cs]
  proof (rule yields_punct(2) [OF assms(1) l(1)], simp only: prod.case if_False, goal_cases)
    case (1 cs)
    show ?case
    proof (rule yields_bind [OF parse_redirs_none [OF 1 l(2)]], simp only: prod.case, goal_cases)
      case (1 cs)
      show ?case
        by (rule yields_bind [OF exec_args_yields [OF assms(2) 1]]) simp_all
    qed
  qed
qed

lemma parse_pipe_none: "tokens cs = Ok ts \<Longrightarrow> exec_ends ts \<Longrightarrow> yields (parse_pipe cs) None ts"
  unfolding parse_pipe.simps [of cs] using parse_exec_program [of cs "[]" _ ts] by (auto intro: yields_try_opt(2))

lemma yields_try_same:
  "yields m x ts \<Longrightarrow> (\<And>c cs. tokens cs = Ok ts \<Longrightarrow> yields (f c cs) (Some c) ts) \<Longrightarrow> yields (try_opt m f) x ts"
  by (cases x) (auto intro: yields_try_opt)

lemma parse_pipe_simple:
  assumes "yields (parse_exec cs) (Some c) ts" "operators_end ts"
  shows "yields (parse_pipe cs) (Some c) ts"
  unfolding parse_pipe.simps [of cs]
  using operators_end_starts [OF assms(2)] by (intro yields_try_same assms(1) yields_operator) simp_all

lemma parse_pipe_operator:
  assumes l: "yields (parse_exec cs) (Some l) (Punct p # ts)" and r: "\<And>cs. tokens cs = Ok ts \<Longrightarrow> yields (parse_pipe cs) right ts'"
    and p: "(p, mk) \<in> {(Pipe_P, Pipe_C), (AndAnd, LogicalAnd), (OrOr, LogicalOr)}" and e: "operators_end ts'"
  shows "yields (parse_pipe cs) (map_option (command_new \<circ> mk l) right) ts'"
proof -
  have skip: "yields (operator_opt q mk' parse_pipe c cs) (Some c) ts'" if "tokens cs = Ok ts'" "q \<in> {Pipe_P, AndAnd, OrOr}" for q mk' c cs
    using that operators_end_starts [OF e] by (intro yields_operator) auto
  have other: "yields (operator_opt q mk' parse_pipe c cs) (Some c) (Punct p # ts)" if "tokens cs = Ok (Punct p # ts)" "q \<noteq> p" for q mk' c cs
    using that by (intro yields_operator) auto
  have right: "yields (operator_opt p mk' parse_pipe l cs) (map_option (command_new \<circ> mk' l) right) ts'" if "tokens cs = Ok (Punct p # ts)" for mk' cs
    using that r by (rule yields_operator_right)
  consider "p = Pipe_P" "mk = Pipe_C" | "p = AndAnd" "mk = LogicalAnd" | "p = OrOr" "mk = LogicalOr"
    using p by auto
  then show ?thesis
    unfolding parse_pipe.simps [of cs]
  proof (cases, goal_cases)
    case 1
    then show ?case
      using right skip by (intro yields_try_opt(1) [OF l] yields_try_same) auto
  next
    case 2
    show ?case
      using right skip by (intro yields_try_opt(1) [OF l] yields_try_opt(1) [OF other] yields_try_same) (auto simp: 2)
  next
    case 3
    show ?case
      using right skip by (intro yields_try_opt(1) [OF l] yields_try_opt(1) [OF other]) (auto simp: 3)
  qed
qed

lemma parse_exec_subshell:
  assumes "tokens cs = Ok (Punct LParen # lts @ Punct RParen # redirect_tokens r @ ts)" "exec_ends ts"
    and "\<And>cs. tokens cs = Ok (lts @ Punct RParen # redirect_tokens r @ ts) \<Longrightarrow> yields (parse_line cs) l (Punct RParen # redirect_tokens r @ ts)"
  shows "yields (parse_exec cs) (Some (command_new (Subshell l r))) ts"
  unfolding parse_exec.simps [of cs]
proof (rule yields_punct(1) [OF assms(1)], simp only: prod.case if_True, goal_cases)
  case (1 cs)
  show ?case
    unfolding parse_subshell.simps [of cs]
  proof (rule yields_bind [OF assms(3) [OF 1]], simp only: prod.case, goal_cases)
    case (1 cs)
    show ?case
    proof (rule yields_punct(1) [OF 1], simp only: prod.case not_True_eq_False if_False, goal_cases)
      case (1 cs)
      show ?case
        by (rule yields_bind [OF parse_redirs_yields [OF 1 ends_imp(3) [OF assms(2)]]]) simp
    qed
  qed
qed

lemma parse_line_background:
  assumes "yields (parse_pipe cs) (Some (command_new k)) ((if bg then [Punct And_P] else []) @ ts)" "\<not> starts And_P ts"
    and "\<And>cs. tokens cs = Ok ts \<Longrightarrow> yields (obind (next_if_punct Semicolon cs) (\<lambda>(b, cs).
         if b then obind (parse_line cs) (\<lambda>(list, cs). Ok (Command k bg # list, cs)) else Ok ([Command k bg], cs))) list ts'"
  shows "yields (parse_line cs) list ts'"
  unfolding parse_line.simps [of cs]
proof (rule yields_bind [OF assms(1)], simp only: prod.case option.case, goal_cases)
  case (1 cs)
  show ?case
  proof (cases bg)
    case True
    then have "tokens cs = Ok (Punct And_P # ts)"
      using 1 by simp
    then show ?thesis
      by (rule yields_punct(1)) (use assms(3) True in \<open>simp add: command_new_def Let_def cong: if_cong\<close>)
  next
    case False
    then have "tokens cs = Ok ts"
      using 1 by simp
    then show ?thesis
      by (rule yields_punct(2) [OF _ assms(2)]) (use assms(3) False in \<open>simp add: command_new_def Let_def cong: if_cong\<close>)
  qed
qed

lemma parse_line_last:
  assumes "yields (parse_pipe cs) (Some (command_new k)) ((if bg then [Punct And_P] else []) @ ts)" "line_ends ts"
  shows "yields (parse_line cs) [Command k bg] ts"
proof (rule parse_line_background [OF assms(1)])
  show "\<not> starts And_P ts"
    using assms(2) by (auto simp: line_ends_def starts_def split: list.splits)
  have "\<not> starts Semicolon ts"
    using assms(2) by (auto simp: line_ends_def starts_def split: list.splits)
  then show "yields (obind (next_if_punct Semicolon cs) (\<lambda>(b, cs).
      if b then obind (parse_line cs) (\<lambda>(list, cs). Ok (Command k bg # list, cs)) else Ok ([Command k bg], cs))) [Command k bg] ts"
    if "tokens cs = Ok ts" for cs
    by (rule yields_punct(2) [OF that]) simp
qed

lemma parse_line_more:
  assumes "yields (parse_pipe cs) (Some (command_new k)) ((if bg then [Punct And_P] else []) @ Punct Semicolon # ts)"
    and "\<And>cs. tokens cs = Ok ts \<Longrightarrow> yields (parse_line cs) list ts'"
  shows "yields (parse_line cs) (Command k bg # list) ts'"
proof (rule parse_line_background [OF assms(1)])
  show "yields (obind (next_if_punct Semicolon cs) (\<lambda>(b, cs).
      if b then obind (parse_line cs) (\<lambda>(list, cs). Ok (Command k bg # list, cs)) else Ok ([Command k bg], cs))) (Command k bg # list) ts'"
    if "tokens cs = Ok (Punct Semicolon # ts)" for cs
    by (rule yields_punct(1) [OF that]) (simp add: yields_bind [OF assms(2)])
qed simp

definition reads_kind :: "command_kind \<Rightarrow> bool" where
  "reads_kind k \<longleftrightarrow> (wf_kind k \<longrightarrow> (\<forall>cs ts. tokens cs = Ok (kind_tokens k @ ts) \<longrightarrow>
     (is_simple k \<and> exec_ends ts \<longrightarrow> yields (parse_exec cs) (Some (command_new k)) ts) \<and>
     (operators_end ts \<longrightarrow> yields (parse_pipe cs) (Some (command_new k)) ts)))"

definition reads_line :: "command list \<Rightarrow> bool" where
  "reads_line l \<longleftrightarrow> (wf_line l \<longrightarrow> (\<forall>cs ts. tokens cs = Ok (line_tokens l @ ts) \<and> line_ends ts \<longrightarrow> yields (parse_line cs) l ts))"

lemma reads_kind_simple:
  assumes "is_simple k"
    and "\<And>cs ts. wf_kind k \<Longrightarrow> tokens cs = Ok (kind_tokens k @ ts) \<Longrightarrow> exec_ends ts \<Longrightarrow> yields (parse_exec cs) (Some (command_new k)) ts"
  shows "reads_kind k"
  unfolding reads_kind_def using assms(2) parse_pipe_simple ends_imp(2) by blast

lemma operand_cases:
  assumes "wf_operand c"
  obtains k where "c = command_new k" "wf_kind k" "command_tokens c = kind_tokens k" "kind c = k"
  using assms by (cases c) (auto simp: command_new_def)

lemma reads_kind_operator:
  assumes "reads_kind (kind l)" "reads_kind (kind r)"
    and p: "(p, mk) \<in> {(Pipe_P, Pipe_C), (AndAnd, LogicalAnd), (OrOr, LogicalOr)}"
  shows "reads_kind (mk l r)"
  unfolding reads_kind_def
proof (intro impI allI conjI)
  fix cs ts
  assume wf: "wf_kind (mk l r)" and t: "tokens cs = Ok (kind_tokens (mk l r) @ ts)"
  have wf': "is_simple (kind l)" "wf_operand l" "wf_operand r" "kind_tokens (mk l r) = command_tokens l @ Punct p # command_tokens r"
    using wf p by auto
  obtain kl kr where l: "l = command_new kl" "wf_kind kl" "command_tokens l = kind_tokens kl" "kind l = kl"
    and r: "r = command_new kr" "wf_kind kr" "command_tokens r = kind_tokens kr" "kind r = kr"
    using operand_cases wf'(2,3) by metis
  show "yields (parse_exec cs) (Some (command_new (mk l r))) ts" if "is_simple (mk l r) \<and> exec_ends ts"
    using that p by auto
  show "yields (parse_pipe cs) (Some (command_new (mk l r))) ts" if e: "operators_end ts"
  proof -
    have left: "yields (parse_exec cs) (Some l) (Punct p # kind_tokens kr @ ts)"
      using assms(1) wf' l r t p unfolding reads_kind_def by auto
    have right: "yields (parse_pipe cs) (Some r) ts" if "tokens cs = Ok (kind_tokens kr @ ts)" for cs
      using assms(2) r that e unfolding reads_kind_def by auto
    show ?thesis
      using parse_pipe_operator [OF left right p e] by simp
  qed
qed

lemma reads_line_Nil: "reads_line []"
  unfolding reads_line_def
proof (intro impI allI)
  fix cs ts
  assume "tokens cs = Ok (line_tokens [] @ ts) \<and> line_ends ts"
  then have "yields (parse_pipe cs) None ts"
    using parse_pipe_none ends_imp(1,2) by auto
  then show "yields (parse_line cs) [] ts"
    unfolding parse_line.simps [of cs] by (rule yields_bind) simp
qed

lemma parser_reads: "reads_kind k" "reads_kind (kind c)" "reads_line l"
proof (induction k and c and l rule: kind_tokens_command_tokens_line_tokens.induct)
  case (1 argv r)
  show ?case
  proof (rule reads_kind_simple, goal_cases)
    case (2 cs ts)
    then show ?case
      using parse_exec_program [of cs argv r ts] by simp
  qed simp
next
  case (2 l r)
  note IH = 2
  show ?case
  proof (rule reads_kind_simple, goal_cases)
    case (2 cs ts)
    then show ?case
      using IH by (intro parse_exec_subshell [where lts = "line_tokens l"]) (auto simp: reads_line_def line_ends_def)
  qed simp
next
  case 7
  show ?case
    by (rule reads_line_Nil)
next
  case (8 c)
  then show ?case
    by (cases c) (auto simp: reads_line_def reads_kind_def ends_imp(1) intro!: parse_line_last)
next
  case (9 c c' cs)
  obtain k bg where c: "c = Command k bg"
    by (cases c)
  show ?case
    unfolding reads_line_def
  proof (intro impI allI, elim conjE)
    fix cs' ts
    assume wf: "wf_line (c # c' # cs)" and t: "tokens cs' = Ok (line_tokens (c # c' # cs) @ ts)" and e: "line_ends ts"
    have "yields (parse_pipe cs') (Some (command_new k)) ((if bg then [Punct And_P] else []) @ Punct Semicolon # line_tokens (c' # cs) @ ts)"
      using 9(1) wf t c by (auto simp: reads_kind_def)
    moreover have "yields (parse_line cs1) (c' # cs) ts" if "tokens cs1 = Ok (line_tokens (c' # cs) @ ts)" for cs1
      using 9(2) wf that e c by (simp add: reads_line_def)
    ultimately show "yields (parse_line cs') (c # c' # cs) ts"
      unfolding c by (rule parse_line_more)
  qed
qed (simp_all add: reads_kind_operator [where p = Pipe_P and mk = Pipe_C]
    reads_kind_operator [where p = AndAnd and mk = LogicalAnd] reads_kind_operator [where p = OrOr and mk = LogicalOr])

lemma parse_yields: "yields (parse_line input) list [] \<Longrightarrow> parse input = Ok list"
  using tokens_next_yields(1) by (fastforce simp: parse_def yields_def)

lemma parse_reads: "wf_line list \<Longrightarrow> tokens input = Ok (line_tokens list) \<Longrightarrow> parse input = Ok list"
  using parser_reads(3) [of list] by (intro parse_yields) (simp add: reads_line_def line_ends_def)

text \<open>
  C14. The shell can be given every command of its language: if a line consists of the tokens of a list of well formed commands
  (programs with arguments and redirections, subshells, the operators, \<^verbatim>\<open>&\<close> and \<^verbatim>\<open>;\<close>), then the parser returns that list, no matter how
  the line writes the tokens.
\<close>

theorem parse_roundtrip:
  assumes "wf_line list" "tokens input = Ok (line_tokens list)"
  shows "parse input = Ok list"
  using assms by (rule parse_reads)

text \<open>The witness: \<^verbatim>\<open>a<f&&(b;c)&\<close>\<close>

definition example_line :: "command list" where
  "example_line =
     [Command (LogicalAnd
        (Command (Exec [[0x61]] \<lparr>rd_stdin = Some [0x66], rd_stdout = None\<rparr>) False)
        (Command (Subshell [Command (Exec [[0x62]] redirect_new) False, Command (Exec [[0x63]] redirect_new) False] redirect_new) False)) True]"

definition example_text :: "u8 list" where
  "example_text = [0x61, 0x3c, 0x66, 0x26, 0x26, 0x28, 0x62, 0x3b, 0x63, 0x29, 0x26]"

lemmas lexer_simps = next_token_def next_str_def scan_start_def BACKSLASH_def DQUOTE_def SQUOTE_def is_ascii_whitespace_def SYMBOLS_def

lemma example_tokens: "tokens example_text = Ok (line_tokens example_line)"
  by (simp add: example_text_def example_line_def redirect_tokens_def redirect_new_def tokens.simps lexer_simps)

theorem parse_roundtrip_witness: "wf_line example_line \<and> parse example_text = Ok example_line"
  using parse_roundtrip [OF _ example_tokens] by (simp add: example_line_def)

section \<open>What the parser returns\<close>

definition quiet :: "u8 list \<Rightarrow> bool" where
  "quiet cs \<longleftrightarrow> (\<forall>p cs'. next_token cs = Ok (Some (Punct p), cs') \<longrightarrow> p \<notin> {Pipe_P, AndAnd, OrOr})"

lemma next_if_punct_cases:
  assumes "next_if_punct p cs = Ok (b, cs')"
  obtains "b" "next_token cs = Ok (Some (Punct p), cs')"
  | "\<not> b" "next_token cs' = next_token cs" "\<And>cs''. next_token cs \<noteq> Ok (Some (Punct p), cs'')"
proof -
  obtain t cs1 where n: "next_token cs = Ok (t, cs1)"
    using assms by (auto simp: next_if_punct_def tokens_next_if_def)
  then have "next_token cs1 = next_token cs" if "t = None"
    using that next_token_cases [OF n] by simp
  then show thesis
    using assms n that by (cases t) (auto simp: next_if_punct_def tokens_next_if_def split: if_splits)
qed

lemma operator_opt_cases:
  assumes "operator_opt p mk rec cmd cs = Ok (Some c, rest)"
  obtains "c = cmd" "next_token rest = next_token cs" "\<And>cs'. next_token cs \<noteq> Ok (Some (Punct p), cs')"
  | right cs1 where "next_if_punct p cs = Ok (True, cs1)" "next_token cs = Ok (Some (Punct p), cs1)" "rec cs1 = Ok (Some right, rest)"
    "c = command_new (mk cmd right)"
proof -
  obtain b cs1 where n: "next_if_punct p cs = Ok (b, cs1)"
    using assms by (auto simp: operator_opt_def)
  then show thesis
  proof (cases rule: next_if_punct_cases)
    case 1
    then show ?thesis
      using assms n that(2) by (auto simp: operator_opt_def try_opt_eq_Ok)
  next
    case 2
    then show ?thesis
      using assms n that(1) by (auto simp: operator_opt_def)
  qed
qed

lemma operator_opt_quiet:
  assumes "operator_opt p mk rec cmd cs = Ok (Some c, rest)" "quiet cs" "p \<in> {Pipe_P, AndAnd, OrOr}"
  shows "c = cmd" "quiet rest"
  using assms by (auto elim!: operator_opt_cases simp: quiet_def)

lemma operator_opt_wf:
  assumes "operator_opt p mk rec cmd cs = Ok (Some c, rest)" "wf_operand cmd" "is_simple (kind cmd)"
    and "(p, mk) \<in> {(Pipe_P, Pipe_C), (AndAnd, LogicalAnd), (OrOr, LogicalOr)}"
    and "\<And>cs1 right. next_if_punct p cs = Ok (True, cs1) \<Longrightarrow> rec cs1 = Ok (Some right, rest) \<Longrightarrow> wf_operand right \<and> quiet rest"
  shows "wf_operand c \<and> quiet rest \<or>
    c = cmd \<and> next_token rest = next_token cs \<and> (\<forall>cs'. next_token cs \<noteq> Ok (Some (Punct p), cs'))"
  using assms(1)
proof (cases rule: operator_opt_cases)
  case (2 right cs1)
  then show ?thesis
    using assms(2-) by (auto simp: command_new_def)
qed simp

lemma pipe_stages_wf:
  assumes op: "operator_opt Pipe_P Pipe_C rec c0 cs1 = Ok (Some c1, cs2)" "operator_opt AndAnd LogicalAnd rec c1 cs2 = Ok (Some c2, cs3)"
      "operator_opt OrOr LogicalOr rec c2 cs3 = Ok (Some c, rest)"
    and c0: "wf_operand c0" "is_simple (kind c0)"
    and right: "\<And>cs c. next_if_punct Pipe_P cs1 = Ok (True, cs) \<Longrightarrow> rec cs = Ok (Some c, cs2) \<Longrightarrow> wf_operand c \<and> quiet cs2"
      "\<And>cs c. next_if_punct AndAnd cs2 = Ok (True, cs) \<Longrightarrow> rec cs = Ok (Some c, cs3) \<Longrightarrow> wf_operand c \<and> quiet cs3"
      "\<And>cs c. next_if_punct OrOr cs3 = Ok (True, cs) \<Longrightarrow> rec cs = Ok (Some c, rest) \<Longrightarrow> wf_operand c \<and> quiet rest"
  shows "wf_operand c \<and> quiet rest"
proof -
  have w1: "wf_operand c1 \<and> quiet cs2 \<or>
      c1 = c0 \<and> next_token cs2 = next_token cs1 \<and> (\<forall>cs'. next_token cs1 \<noteq> Ok (Some (Punct Pipe_P), cs'))"
    by (rule operator_opt_wf [OF op(1) c0 _ right(1)]) simp_all
  have w2: "c1 = c0 \<Longrightarrow> wf_operand c2 \<and> quiet cs3 \<or>
      c2 = c1 \<and> next_token cs3 = next_token cs2 \<and> (\<forall>cs'. next_token cs2 \<noteq> Ok (Some (Punct AndAnd), cs'))"
    by (rule operator_opt_wf [OF op(2) _ _ _ right(2)]) (simp_all add: c0)
  have w3: "c2 = c0 \<Longrightarrow> wf_operand c \<and> quiet rest \<or>
      c = c2 \<and> next_token rest = next_token cs3 \<and> (\<forall>cs'. next_token cs3 \<noteq> Ok (Some (Punct OrOr), cs'))"
    by (rule operator_opt_wf [OF op(3) _ _ _ right(3)]) (simp_all add: c0)
  consider "wf_operand c1" "quiet cs2" | "c1 = c0" "wf_operand c2" "quiet cs3" | "wf_operand c \<and> quiet rest"
    | "c = c0" "\<forall>cs' p. p \<in> {Pipe_P, AndAnd, OrOr} \<longrightarrow> next_token rest \<noteq> Ok (Some (Punct p), cs')"
    using w1 w2 w3 by auto
  then show ?thesis
  proof cases
    case 1
    then show ?thesis
      using operator_opt_quiet [OF op(2)] operator_opt_quiet [OF op(3)] by auto
  next
    case 2
    then show ?thesis
      using operator_opt_quiet [OF op(3)] by auto
  next
    case 4
    then show ?thesis
      using c0 by (auto simp: quiet_def)
  qed
qed

lemma parser_wf:
  "parse_line cs = Ok (l, rest) \<Longrightarrow> wf_line l"
  "parse_pipe cs = Ok (Some c, rest) \<Longrightarrow> wf_operand c \<and> quiet rest"
  "parse_subshell cs = Ok (Some c, rest) \<Longrightarrow> wf_operand c \<and> is_simple (kind c)"
  "parse_exec cs = Ok (Some c, rest) \<Longrightarrow> wf_operand c \<and> is_simple (kind c)"
proof (induction cs and cs and cs and cs arbitrary: l rest and c rest and c rest and c rest
    rule: parse_line_parse_pipe_parse_subshell_parse_exec.induct)
  case (1 cs)
  from "1.prems" obtain cmd cs1 where p: "parse_pipe cs = Ok (cmd, cs1)"
    unfolding parse_line.simps [of cs] by auto
  show ?case
  proof (cases cmd)
    case None
    then show ?thesis
      using "1.prems" p by (simp add: parse_line.simps [of cs])
  next
    case (Some cmd')
    then obtain k where k: "cmd' = Command k False" "wf_kind k"
      using 1(1) p by (cases cmd') auto
    from "1.prems" p Some obtain b1 cs2 b2 cs3 where n: "next_if_punct And_P cs1 = Ok (b1, cs2)" "next_if_punct Semicolon cs2 = Ok (b2, cs3)"
      and l: "b2 \<longrightarrow> (\<exists>l'. parse_line cs3 = Ok (l', rest) \<and> l = Command k b1 # l')" "\<not> b2 \<longrightarrow> l = [Command k b1]"
      by (auto simp: parse_line.simps [of cs] Let_def k split: if_splits)
    show ?thesis
      using 1(2) [OF p refl Some n(1) refl refl n(2) refl] l k by (cases b2) auto
  qed
next
  case (2 cs)
  obtain c0 cs1 c1 cs2 c2 cs3 where e: "parse_exec cs = Ok (Some c0, cs1)"
    and op: "operator_opt Pipe_P Pipe_C parse_pipe c0 cs1 = Ok (Some c1, cs2)"
      "operator_opt AndAnd LogicalAnd parse_pipe c1 cs2 = Ok (Some c2, cs3)"
      "operator_opt OrOr LogicalOr parse_pipe c2 cs3 = Ok (Some c, rest)"
    using "2.prems" by (auto simp: parse_pipe.simps [of cs] try_opt_eq_Ok)
  show ?case
    using 2(1) [OF e] by (intro pipe_stages_wf [OF op] 2(2) [OF e] 2(3) [OF e op(1)] 2(4) [OF e op(1,2)]) auto
next
  case (3 cs)
  then obtain l cs1 r where "parse_line cs = Ok (l, cs1)" "c = command_new (Subshell l r)"
    by (auto simp: parse_subshell.simps [of cs] split: if_splits)
  then show ?case
    using 3(1) by (simp add: command_new_def)
next
  case (4 cs)
  then obtain b cs1 where n: "next_if_punct LParen cs = Ok (b, cs1)"
    by (auto simp: parse_exec.simps [of cs])
  show ?case
    using 4 n by (cases b) (auto simp: parse_exec.simps [of cs] command_new_def split: if_splits)
qed

text \<open>
  C19. Every command line that the parser accepts gives well formed commands: a program always has a name, so that running it can look at
  its first argument; only a command of a list is in the background; and the left side of an operator is a program or a subshell, since
  the right side takes all operators that follow. So \<^verbatim>\<open>|\<close>, \<^verbatim>\<open>&&\<close> and \<^verbatim>\<open>||\<close> bind alike and to the right.
\<close>

theorem parse_wf:
  assumes "parse input = Ok list"
  shows "wf_line list"
  using assms parser_wf(1) by (auto simp: parse_def split: option.splits)

theorem parse_wf_witness: "parse example_text = Ok example_line \<and> wf_line example_line"
proof -
  have "parse example_text = Ok example_line"
    by (rule parse_reads [OF _ example_tokens]) (simp add: example_line_def)
  then show ?thesis
    using parse_wf by blast
qed

section \<open>A right side that is missing\<close>

lemma parse_exec_operand:
  assumes "wf_operand l" "is_simple (kind l)" "tokens cs = Ok (command_tokens l @ Punct p # ts)" "p \<in> {Pipe_P, AndAnd, OrOr}"
  shows "yields (parse_exec cs) (Some l) (Punct p # ts)"
proof -
  obtain k where "l = command_new k" "wf_kind k" "command_tokens l = kind_tokens k" "kind l = k"
    using assms(1) by (rule operand_cases)
  then show ?thesis
    using parser_reads(1) [of k] assms unfolding reads_kind_def by auto
qed

definition drops :: "punct \<Rightarrow> command \<Rightarrow> bool" where
  "drops p c \<longleftrightarrow> (wf_operand c \<longrightarrow> (\<forall>cs. tokens cs = Ok (command_tokens c @ [Punct p]) \<longrightarrow> yields (parse_pipe cs) None []))"

lemma drops_simple:
  assumes "is_simple (kind c)" "p \<in> {Pipe_P, AndAnd, OrOr}"
  shows "drops p c"
  unfolding drops_def
proof (intro impI allI)
  fix cs
  assume "wf_operand c" "tokens cs = Ok (command_tokens c @ [Punct p])"
  then have e: "yields (parse_exec cs) (Some c) [Punct p]"
    using parse_exec_operand assms by blast
  obtain mk where "(p, mk) \<in> {(Pipe_P, Pipe_C), (AndAnd, LogicalAnd), (OrOr, LogicalOr)}"
    using assms(2) by auto
  then show "yields (parse_pipe cs) None []"
    using parse_pipe_operator [OF e, of None "[]" mk] parse_pipe_none by auto
qed

lemma drops_operator:
  assumes "drops p r" "(q, mk) \<in> {(Pipe_P, Pipe_C), (AndAnd, LogicalAnd), (OrOr, LogicalOr)}"
  shows "drops p (Command (mk l r) bg)"
  unfolding drops_def
proof (intro impI allI)
  fix cs
  assume "wf_operand (Command (mk l r) bg)" and t: "tokens cs = Ok (command_tokens (Command (mk l r) bg) @ [Punct p])"
  then have wf: "is_simple (kind l)" "wf_operand l" "wf_operand r" "\<not> bg"
    and ts: "tokens cs = Ok (command_tokens l @ Punct q # command_tokens r @ [Punct p])"
    using assms(2) by auto
  have e: "yields (parse_exec cs) (Some l) (Punct q # command_tokens r @ [Punct p])"
    using parse_exec_operand [OF wf(2,1) ts] assms(2) by auto
  show "yields (parse_pipe cs) None []"
    using parse_pipe_operator [OF e _ assms(2), of None "[]"] assms(1) wf(3) by (auto simp: drops_def)
qed

lemma drops_all:
  assumes "p \<in> {Pipe_P, AndAnd, OrOr}"
  shows "\<forall>bg. drops p (Command k bg)" "drops p c" True
proof (induction k and c and "[] :: command list" rule: kind_tokens_command_tokens_line_tokens.induct)
  case (3 l r)
  then show ?case
    using drops_operator [where mk = Pipe_C and q = Pipe_P] by simp
next
  case (4 l r)
  then show ?case
    using drops_operator [where mk = LogicalAnd and q = AndAnd] by simp
next
  case (5 l r)
  then show ?case
    using drops_operator [where mk = LogicalOr and q = OrOr] by simp
qed (simp_all add: drops_simple [OF _ assms])

text \<open>
  C39. A pipeline or a logical operator whose right side is missing is not an error: the parser drops the whole command, also the part
  before the operator, and returns an empty list. So the shell answers \<^verbatim>\<open>rm a &&\<close> with nothing, neither running \<^verbatim>\<open>rm\<close> nor
  reporting a syntax error.
\<close>

theorem missing_right_side_drops:
  assumes "wf_operand c" "p \<in> {Pipe_P, AndAnd, OrOr}" "tokens input = Ok (command_tokens c @ [Punct p])"
  shows "parse input = Ok []"
proof (rule parse_yields)
  have "yields (parse_pipe input) None []"
    using drops_all(2) [OF assms(2), of c] assms unfolding drops_def by simp
  then show "yields (parse_line input) [] []"
    unfolding parse_line.simps [of input] by (rule yields_bind) simp
qed

text \<open>The witness: \<^verbatim>\<open>rm a &&\<close>\<close>

theorem missing_right_side_drops_witness: "parse [0x72, 0x6d, 0x20, 0x61, 0x20, 0x26, 0x26, 0x0a] = Ok []"
  by (rule missing_right_side_drops [of "Command (Exec [[0x72, 0x6d], [0x61]] redirect_new) False" AndAnd])
    (simp_all add: tokens.simps lexer_simps redirect_tokens_def redirect_new_def)

section \<open>Progress\<close>

lemma count_loop_suffix: "count_loop st cs = (st', rest) \<Longrightarrow> suffix rest cs"
  by (induction st cs rule: count_loop.induct) (auto intro: suffix_ConsI split: if_splits)

lemma next_token_suffix: "next_token cs = Ok (t, rest) \<Longrightarrow> suffix rest cs"
proof (induction cs)
  case (Cons c cs)
  consider (ws) "is_ascii_whitespace c" | (sym) "c \<in> set SYMBOLS" | (word) "\<not> is_ascii_whitespace c" "c \<notin> set SYMBOLS"
    by blast
  then show ?case
  proof cases
    case ws
    then show ?thesis
      using Cons by (simp add: next_token_skip suffix_ConsI)
  next
    case sym
    then show ?thesis
      using Cons.prems next_token_symbol_less [of c cs] by (auto intro: suffix_ConsI)
  next
    case word
    then show ?thesis
      using Cons.prems count_loop_suffix [of scan_start "c # cs"]
      by (auto simp: next_token_word next_str_def Let_def split: prod.splits if_splits)
  qed
qed simp

lemma next_token_None: "next_token cs = Ok (None, rest) \<Longrightarrow> list_all is_ascii_whitespace cs"
proof (induction cs)
  case (Cons c cs)
  then show ?case
    using next_token_symbol_less [of c cs] by (cases "is_ascii_whitespace c"; cases "c \<in> set SYMBOLS")
      (auto simp: next_token_skip next_token_word next_str_None)
qed simp

text \<open>
  C12. The tokenizer makes progress: what it leaves is a proper suffix of what it was given whenever it returns a token, and it returns no
  token only when nothing but white space was left, all of which it has read. So an iteration over the tokens of a line ends after at
  most as many steps as the line has bytes; the loops and the recursion of the parser are total for that reason.
\<close>

theorem next_token_progress:
  assumes "next_token cs = Ok (t, rest)"
  shows "case t of None \<Rightarrow> rest = [] \<and> list_all is_ascii_whitespace cs | Some token \<Rightarrow> strict_suffix rest cs"
  using next_token_suffix [OF assms] next_token_cases [OF assms] next_token_None [of cs rest] assms
  by (cases t) (auto simp: strict_suffix_def)

theorem next_token_progress_witness: "strict_suffix [0x7c :: u8] [0x20, 0x61, 0x7c]"
  using next_token_progress [of "[0x20, 0x61, 0x7c]" "Some (Str [0x61])" "[0x7c]"] by (simp add: lexer_simps)

end
