(* ===== verification/Spec2Isabelle.thy ===== *)
theory Spec2Isabelle
  imports Sys_Call Os_Path Page_Walk Fs_Recover Fs_Content Pipe Shell
begin

text \<open>
  A verification of ov6, a port of the teaching system xv6 to Rust: a kernel for 64-bit RISC-V
  (\<^verbatim>\<open>src/crates/kernel\<close>), the types that it shares with user programs (\<^verbatim>\<open>src/crates/common\<close>), a user library
  and user programs (\<^verbatim>\<open>src/crates/user\<close>).

  \<^bold>\<open>The parts and how they interact.\<close> A user program calls the kernel through the registers: the user
  library encodes the arguments (\<^verbatim>\<open>ov6_syscall/src/register.rs\<close>) and the kernel decodes them, runs the handler
  of the call and stores its encoded result (\<^verbatim>\<open>ov6_kernel/src/syscall/mod.rs\<close>). Handlers take paths
  (\<^verbatim>\<open>ov6_types/src/path\<close>) and addresses of user memory, which are validated against the page table of the
  process (\<^verbatim>\<open>memory/vm_user.rs\<close>, \<^verbatim>\<open>memory/page_table\<close>) before the kernel copies from or to them. Page tables
  and user pages are physical pages with reference counts (\<^verbatim>\<open>memory/page_manager.rs\<close>) that come from the page
  frame allocator (\<^verbatim>\<open>page_alloc\<close>). The file system works on the blocks of a disk through a cache
  (\<^verbatim>\<open>block_io\<close> over \<^verbatim>\<open>lru\<close>): a transaction of the log (\<^verbatim>\<open>fs/log.rs\<close>) collects the blocks that an operation
  changes and writes them to the disk together when it ends, and files are the blocks that an inode refers to
  (\<^verbatim>\<open>fs/inode\<close>), taken from the bitmap of free blocks (\<^verbatim>\<open>fs/data_block.rs\<close>). Processes exchange bytes through
  pipes (\<^verbatim>\<open>file/pipe.rs\<close>), and the shell (\<^verbatim>\<open>sh\<close>) parses the lines that it runs.

  \<^bold>\<open>How code is translated.\<close> The model is that of the release build: machine integers are words and wrap,
  and \<^verbatim>\<open>assert!\<close>, \<^verbatim>\<open>unwrap\<close> of nothing and an index out of range are the outcome \<open>Panic\<close>. A Rust function is a
  HOL function to \<open>outcome\<close> (\<open>Ok\<close>, \<open>Err\<close>, \<open>Panic\<close>); one that changes state is a function of the state, with
  the combinators \<open>cbind\<close>, \<open>clift\<close>, \<open>cread\<close> and \<open>cmodify\<close> of \<open>Prelude\<close>. In the file system one thread runs: a
  lock that is held makes the call end in \<open>Err Blocked\<close>, a Rust \<^verbatim>\<open>Result\<close> is a value of a sum type, and the
  drops at the end of a scope are calls of their own. Memory that the code reaches through raw pointers is
  byte memory (\<open>Pod\<close>). Loops are structural recursion, \<^theory_text>\<open>function\<close>s with a measure, or
  \<^theory_text>\<open>partial_function (option)\<close>, where \<open>None\<close> is a loop that does not end and the theorems say that it ends.
  No fuel is used. The methods that the crates \<^verbatim>\<open>bitflags\<close> and \<^verbatim>\<open>strum\<close> generate and the block device are
  parameters, with what is documented of them as hypotheses.

  \<^bold>\<open>The theories.\<close>
    \<^item> \<open>Prelude\<close>, \<open>Pod\<close>: machine types, outcomes, calls and their weakest preconditions; byte memory and
      fixed-size data.
    \<^item> \<open>Sys_Register\<close>, \<open>Kernel_Error\<close>, \<open>Sys_Call\<close>: the register encodings, each an instance of the locale
      \<open>register_value\<close>; the error numbers; the 33 calls, their dispatch and the entry of the user library. C3
      and C18 show that the handler of the call runs on the arguments the user passed and that its result
      is decoded to what it was, C31 and C32 what arguments out of range do.
    \<^item> \<open>Os_Path\<close>: the components iterator and the path operations written with it. C11: from either end
      it gives one sequence. C24 to C27 and C33: what each operation does on that sequence.
    \<^item> \<open>Free_List\<close>, \<open>Page_Manager\<close>: the two allocators with free lists in memory, both instances of the locale
      \<open>frame_allocator\<close>, and the reference-counted pages. C6, C16 and C4: free and used memory are always a
      partition, and a page is free exactly when no handle is left.
    \<^item> \<open>Mem_Addr\<close>, \<open>User_Slice\<close>: address arithmetic and slices of user memory (C22, C23, C34).
    \<^item> \<open>Page_Table\<close>, \<open>Vm_User\<close>, \<open>Page_Walk\<close>: page tables, user memory, and the iterator over a range. C7 and
      C15: validation accepts exactly the mapped ranges, and reversed ones, and a copy from validated memory does not fail and
      reads the right bytes. C35 and C36 are two error paths that leave a broken state; after the first one a page can be
      freed and handed out while it is mapped.
    \<^item> \<open>Lru\<close>, \<open>Block_Io\<close>: the cache of blocks. C8 and C21: handles share a value exactly when they have one key,
      and the value reused is the oldest. C5: over a device that does not fail the cache cannot be told from
      an array of blocks. C37 and C38: what it does after a device error and after an unlocked reference.
    \<^item> \<open>Fs_Types\<close>: the data of the file system in the bytes of a block.
    \<^item> \<open>Fs_Log\<close>, \<open>Fs_Recover\<close>: transactions and the start of the file system. C2: a transaction that runs alone is
      an update of an array of blocks, on the disk when it ends. C29 and C30: recovery after a crash does not
      restore a committed transaction, and a transaction that fills the log cannot be committed.
    \<^item> \<open>Fs_Inode\<close>, \<open>Fs_Content\<close>: the bitmap and inodes, with rules for the steps of a transaction (\<open>in_tx\<close>). A
      file is a list of bytes (\<open>content\<close>) as long as its inode is sound (\<open>inode_ok\<close>). What a reader relies on is
      the locale \<open>inode_reader\<close>, interpreted for a transaction that writes and for a read-only one. C10: a block
      is allocated exactly when one is free. C1 and C13: a write is the replacement of a range of that list and
      touches no other file, and a later read from the disk returns it.
    \<^item> \<open>Pipe\<close>: the ring buffer and the processes on its two ends as a step relation. C9: bytes leave in the order
      they came and no wakeup is lost. C17: as long as the read end is open and the writer is not killed, a write can be completed by steps of the
      writer and of one reader.
    \<^item> \<open>Shell\<close>: the tokenizer in its two passes and the parser. C12: every token consumes a byte, which makes
      both total. C14, C19, C20 and C28: words, lines and commands are read as they are written. C39: a line that
      ends with an operator is dropped.

  \<^bold>\<open>Bounds.\<close> C1 and C13 take at most 3072 bytes, which is what \<^verbatim>\<open>file/inode.rs\<close> gives to one transaction: these lie in
  four blocks, each round of the loop logs at most six, and the inode is one more, so that 25 of the 30 blocks
  of the log and of the buffers are enough. Log, cache and bitmap are those of the code: 30 buffers, 1024 bytes and
  8192 bits in a block, 12 direct and 256 indirect blocks in a file.

  \<^bold>\<open>Not modelled.\<close> Device drivers, interrupts, context switches and start-up code, which are defined by the
  behaviour of the hardware; the network stack over them; the scheduler and the interleaving of processors, as a
  call of the model runs alone; the table of inodes in memory, directories and path lookup, which are reference
  counts and locks shared between processes over the inodes modelled here; user programs other than the parser
  of the shell and the image builder, which only perform calls; test programs.
\<close>

end
